(* ===== verification/Prelude.thy ===== *)
theory Prelude
  imports Main "HOL-Library.Word"
begin

text \<open>
  The vocabulary the component theories share: machine integers at the widths of
  \<^verbatim>\<open>kernel/types.h\<close>, the outcome of a piece of kernel code (a result and the new state, a
  \<^verbatim>\<open>panic\<close>, a thread that has to wait, a loop that never ends), the combinators that
  sequence such code, little-endian integers in byte arrays, and generic lemmas on words and
  lists.
\<close>

section \<open>Machine integers\<close>

unbundle bit_operations_syntax

type_synonym byte = "8 word"
type_synonym u16 = "16 word"
type_synonym u32 = "32 word"
type_synonym u64 = "64 word"

text \<open>RAM: one byte per 64-bit physical address.\<close>

type_synonym ram = "u64 \<Rightarrow> byte"

text \<open>
  One disk block, \<^verbatim>\<open>uchar data[BSIZE]\<close>. \<open>BSIZE\<close> is 1024 = 2 ^ 10, so the values of
  \<^typ>\<open>10 word\<close> are exactly the positions of a block.
\<close>

type_synonym block = "10 word \<Rightarrow> byte"

named_theorems kstep \<open>equations that run a kernel operation\<close>

section \<open>Outcomes of kernel code\<close>

text \<open>
  Names for the spinlocks, the sleep-locks and the wait channels of the kernel. The C code
  identifies each of them by an address; distinct objects have distinct addresses.
\<close>

datatype slockid = BufLock nat | InodeLock nat

datatype lockid =
    Kmem_lock | Bcache_lock | Log_lock | Icache_lock | Ftable_lock | Pid_lock | Cons_lock
  | Uart_tx_lock | Tickslock | Pr_lock | Vdisk_lock
  | Proc_lock nat | Pipe_lock u64 | Sleeplk slockid

datatype chan =
    Spin lockid | Ch_sleeplock slockid | Ch_log | Ch_ticks | Ch_cons_r | Ch_uart_tx_r
  | Ch_disk_free | Ch_buf nat | Ch_pipe_nread u64 | Ch_pipe_nwrite u64 | Ch_proc nat
  | Ch_resched | Ch_never | Ch_started | Ch_syscall

text \<open>
  \<open>Spin\<close> stands for the busy loop of \<open>acquire\<close>, \<open>Ch_resched\<close> for a thread that yields the CPU and
  \<open>Ch_never\<close> for one that has exited, \<open>Ch_started\<close> for the busy loop of \<open>main\<close>,
  \<open>Ch_syscall\<close> for a user program in a system call that has not returned; the others are the channels given to \<^verbatim>\<open>sleep()\<close>.
\<close>

text \<open>
  What running a piece of kernel code gives: \<open>Ret\<close> with the returned value and the new state;
  \<open>Panic\<close> with the message given to \<^verbatim>\<open>panic()\<close>; \<open>Block\<close> when the code spins on a lock of another
  CPU or calls \<^verbatim>\<open>sleep()\<close>, with the channel and the state at that point; \<open>Diverge\<close> when it is in a
  loop that no other thread can end.
\<close>

datatype ('a, 's) outcome = Ret 'a 's | Panic string | Block chan 's | Diverge

type_synonym ('a, 's) kop = "'s \<Rightarrow> ('a, 's) outcome"

definition retK :: "'a \<Rightarrow> ('a, 's) kop" where
  "retK a s = Ret a s"

definition panicK :: "string \<Rightarrow> ('a, 's) kop" where
  "panicK msg s = Panic msg"

definition blockK :: "chan \<Rightarrow> ('a, 's) kop" where
  "blockK c s = Block c s"

definition divergeK :: "('a, 's) kop" where
  "divergeK s = Diverge"

definition bindK :: "('a, 's) kop \<Rightarrow> ('a \<Rightarrow> ('b, 's) kop) \<Rightarrow> ('b, 's) kop" where
  "bindK m f s = (case m s of
       Ret a s' \<Rightarrow> f a s'
     | Panic e \<Rightarrow> Panic e
     | Block c s' \<Rightarrow> Block c s'
     | Diverge \<Rightarrow> Diverge)"

definition thenK :: "('a, 's) kop \<Rightarrow> ('b, 's) kop \<Rightarrow> ('b, 's) kop" where
  "thenK m n = bindK m (\<lambda>_. n)"

definition getK :: "('s \<Rightarrow> 'a) \<Rightarrow> ('a, 's) kop" where
  "getK f s = Ret (f s) s"

definition modK :: "('s \<Rightarrow> 's) \<Rightarrow> (unit, 's) kop" where
  "modK f s = Ret () (f s)"

definition whenK :: "bool \<Rightarrow> (unit, 's) kop \<Rightarrow> (unit, 's) kop" where
  "whenK b m = (if b then m else retK ())"

text \<open>Loops over a fixed range of indices, without and with an early exit.\<close>

primrec eachK :: "('i \<Rightarrow> (unit, 's) kop) \<Rightarrow> 'i list \<Rightarrow> (unit, 's) kop" where
  "eachK f [] = retK ()"
| "eachK f (i # is) = thenK (f i) (eachK f is)"

primrec searchK :: "('i \<Rightarrow> ('a option, 's) kop) \<Rightarrow> 'i list \<Rightarrow> ('a option, 's) kop" where
  "searchK f [] = retK None"
| "searchK f (i # is) =
     bindK (f i) (\<lambda>r. case r of Some a \<Rightarrow> retK (Some a) | None \<Rightarrow> searchK f is)"

lemma eachK_fold:
  assumes "\<And>i s. i \<in> set xs \<Longrightarrow> P s \<Longrightarrow> f i s = Ret () (g i s) \<and> P (g i s)" and "P s"
  shows "eachK f xs s = Ret () (fold g xs s) \<and> P (fold g xs s)"
  using assms by (induction xs arbitrary: s) (simp_all add: thenK_def bindK_def retK_def)

lemma fold_fun_upd:
  "distinct xs \<Longrightarrow> fold (\<lambda>i f. f(i := h i (f i))) xs f = (\<lambda>i. if i \<in> set xs then h i (f i) else f i)"
  by (induction xs arbitrary: f) (auto simp: fun_eq_iff)

text \<open>A null pointer is not mapped in the kernel: following it traps, and \<^verbatim>\<open>kerneltrap()\<close> panics.\<close>

definition derefK :: "'p option \<Rightarrow> ('p \<Rightarrow> ('a, 's) kop) \<Rightarrow> ('a, 's) kop" where
  "derefK p f = (case p of None \<Rightarrow> panicK ''kerneltrap'' | Some i \<Rightarrow> f i)"

lemma derefK_simps [simp]:
  "derefK None f = panicK ''kerneltrap''"
  "derefK (Some i) f = f i"
  by (simp_all add: derefK_def)

lemma bindK_Ret [simp]: "m s = Ret a s' \<Longrightarrow> bindK m f s = f a s'"
  by (simp add: bindK_def)

lemma bindK_Panic [simp]: "m s = Panic e \<Longrightarrow> bindK m f s = Panic e"
  by (simp add: bindK_def)

lemma bindK_Block [simp]: "m s = Block c s' \<Longrightarrow> bindK m f s = Block c s'"
  by (simp add: bindK_def)

lemma bindK_Diverge [simp]: "m s = Diverge \<Longrightarrow> bindK m f s = Diverge"
  by (simp add: bindK_def)

lemma thenK_Ret [simp]: "m s = Ret a s' \<Longrightarrow> thenK m n s = n s'"
  by (simp add: thenK_def)

lemma thenK_Panic [simp]: "m s = Panic e \<Longrightarrow> thenK m n s = Panic e"
  by (simp add: thenK_def)

lemma thenK_Block [simp]: "m s = Block c s' \<Longrightarrow> thenK m n s = Block c s'"
  by (simp add: thenK_def)

lemma thenK_Diverge [simp]: "m s = Diverge \<Longrightarrow> thenK m n s = Diverge"
  by (simp add: thenK_def)

lemma retK_app [simp]: "retK a s = Ret a s"
  by (simp add: retK_def)

lemma panicK_app [simp]: "panicK e s = Panic e"
  by (simp add: panicK_def)

lemma blockK_app [simp]: "blockK c s = Block c s"
  by (simp add: blockK_def)

lemma divergeK_app [simp]: "divergeK s = Diverge"
  by (simp add: divergeK_def)

lemma getK_app [simp]: "getK f s = Ret (f s) s"
  by (simp add: getK_def)

lemma bindK_getK [simp]: "bindK (getK f) g s = g (f s) s"
  by (simp add: bindK_def)

lemma modK_app [simp]: "modK f s = Ret () (f s)"
  by (simp add: modK_def)

lemma whenK_simps [simp]:
  "whenK True m = m"
  "whenK False m = retK ()"
  by (simp_all add: whenK_def)

lemma bindK_eq_Ret_iff:
  "bindK m f s = Ret b t \<longleftrightarrow> (\<exists>a s'. m s = Ret a s' \<and> f a s' = Ret b t)"
  by (auto simp: bindK_def split: outcome.splits)

lemma thenK_eq_Ret_iff:
  "thenK m n s = Ret b t \<longleftrightarrow> (\<exists>a s'. m s = Ret a s' \<and> n s' = Ret b t)"
  by (simp add: thenK_def bindK_eq_Ret_iff)

lemma bindK_retK [simp]: "bindK (retK a) f = f a"
  by (rule ext) simp

lemma eachK_Cons_Ret:
  "eachK f (i # xs) s = Ret () t \<longleftrightarrow> (\<exists>u. f i s = Ret () u \<and> eachK f xs u = Ret () t)"
  by (simp only: eachK.simps thenK_eq_Ret_iff) simp

lemma eachK_append_Ret:
  "eachK f (xs @ ys) s = Ret () t \<longleftrightarrow> (\<exists>u. eachK f xs s = Ret () u \<and> eachK f ys u = Ret () t)"
proof (induction xs arbitrary: s)
  case Nil
  then show ?case by simp
next
  case (Cons i xs)
  then show ?case unfolding append_Cons eachK_Cons_Ret by blast
qed

lemma eachK_upt:
  assumes "\<And>i s. i < n \<Longrightarrow> I i s \<Longrightarrow> \<exists>t. f i s = Ret () t \<and> I (Suc i) t" and "I 0 s"
  shows "\<exists>t. eachK f [0..<n] s = Ret () t \<and> I n t"
  using assms(1)
proof (induction n)
  case 0
  then show ?case using assms(2) by simp
next
  case (Suc n)
  then obtain t where t: "eachK f [0..<n] s = Ret () t" "I n t" by fastforce
  then obtain u where "f n t = Ret () u" "I (Suc n) u" using Suc.prems [of n t] by auto
  then show ?case using t eachK_append_Ret [of f "[0..<n]" "[n]" s u] by (auto simp: eachK_Cons_Ret)
qed

lemma find_SomeD: "find P xs = Some x \<Longrightarrow> x \<in> set xs \<and> P x"
  by (induction xs) (auto split: if_splits)

lemma bindK_eq_Block_iff:
  "bindK m f s = Block c t \<longleftrightarrow> m s = Block c t \<or> (\<exists>a u. m s = Ret a u \<and> f a u = Block c t)"
  by (auto simp: bindK_def split: outcome.splits)

lemma thenK_eq_Block_iff:
  "thenK m n s = Block c t \<longleftrightarrow> m s = Block c t \<or> (\<exists>a u. m s = Ret a u \<and> n u = Block c t)"
  by (simp add: thenK_def bindK_eq_Block_iff)

text \<open>Code that waits for locks only: its one way to block is the busy loop of \<open>acquire\<close>.\<close>

definition only_spins :: "('a, 's) kop \<Rightarrow> bool" where
  "only_spins m \<longleftrightarrow> (\<forall>s c t. m s = Block c t \<longrightarrow> (\<exists>l. c = Spin l))"

lemma only_spinsD: "only_spins m \<Longrightarrow> m s = Block c t \<Longrightarrow> (\<And>l. c \<noteq> Spin l) \<Longrightarrow> False"
  by (auto simp: only_spins_def)

lemma only_spins_basic: "only_spins (retK a)" "only_spins (panicK e)" "only_spins (getK f)" "only_spins (modK g)"
  by (simp_all add: only_spins_def)

lemma only_spins_bindK: "only_spins m \<Longrightarrow> (\<And>a. only_spins (f a)) \<Longrightarrow> only_spins (bindK m f)"
  unfolding only_spins_def bindK_eq_Block_iff by blast

lemma only_spins_thenK: "only_spins m \<Longrightarrow> only_spins n \<Longrightarrow> only_spins (thenK m n)"
  unfolding only_spins_def thenK_eq_Block_iff by blast

lemma only_spins_whenK: "only_spins m \<Longrightarrow> only_spins (whenK b m)"
  by (cases b) (simp_all add: only_spins_def)

lemma only_spins_if: "only_spins m \<Longrightarrow> only_spins n \<Longrightarrow> only_spins (if b then m else n)"
  by simp

lemma only_spins_eachK: "(\<And>i. only_spins (f i)) \<Longrightarrow> only_spins (eachK f xs)"
  by (induction xs) (simp_all add: only_spins_basic only_spins_thenK)

lemmas only_spins_rules = only_spins_basic only_spins_bindK only_spins_thenK only_spins_whenK
  only_spins_if only_spins_eachK

text \<open>\<open>keeps P m\<close>: whenever \<open>m\<close> returns, it has preserved \<open>P\<close>. The rules follow the shape of the code.\<close>

definition keeps :: "('s \<Rightarrow> bool) \<Rightarrow> ('a, 's) kop \<Rightarrow> bool" where
  "keeps P m \<longleftrightarrow> (\<forall>s a t. P s \<longrightarrow> m s = Ret a t \<longrightarrow> P t)"

lemma keepsD: "keeps P m \<Longrightarrow> m s = Ret a t \<Longrightarrow> P s \<Longrightarrow> P t"
  by (auto simp: keeps_def)

lemma keeps_retK: "keeps P (retK a)"
  and keeps_panicK: "keeps P (panicK e)"
  and keeps_blockK: "keeps P (blockK c)"
  and keeps_divergeK: "keeps P divergeK"
  and keeps_getK: "keeps P (getK f)"
  by (simp_all add: keeps_def)

lemma keeps_modK: "(\<And>s. P s \<Longrightarrow> P (f s)) \<Longrightarrow> keeps P (modK f)"
  by (simp add: keeps_def)

lemma keeps_bindK: "keeps P m \<Longrightarrow> (\<And>a. keeps P (f a)) \<Longrightarrow> keeps P (bindK m f)"
  unfolding keeps_def bindK_eq_Ret_iff by blast

lemma keeps_thenK: "keeps P m \<Longrightarrow> keeps P n \<Longrightarrow> keeps P (thenK m n)"
  unfolding keeps_def thenK_eq_Ret_iff by blast

lemma keeps_whenK: "(b \<Longrightarrow> keeps P m) \<Longrightarrow> keeps P (whenK b m)"
  by (cases b) (simp_all add: keeps_retK)

lemma keeps_derefK: "(\<And>p. keeps P (f p)) \<Longrightarrow> keeps P (derefK q f)"
  by (cases q) (simp_all add: keeps_panicK)

lemma keeps_if: "(b \<Longrightarrow> keeps P m) \<Longrightarrow> (\<not> b \<Longrightarrow> keeps P n) \<Longrightarrow> keeps P (if b then m else n)"
  by simp

lemma keeps_eachK: "(\<And>i. i \<in> set xs \<Longrightarrow> keeps P (f i)) \<Longrightarrow> keeps P (eachK f xs)"
  by (induction xs) (simp_all add: keeps_retK keeps_thenK)

lemma keeps_searchK: "(\<And>i. i \<in> set xs \<Longrightarrow> keeps P (f i)) \<Longrightarrow> keeps P (searchK f xs)"
proof (induction xs)
  case Nil
  then show ?case by (simp add: keeps_def)
next
  case (Cons i xs)
  have rest: "keeps P (searchK f xs)" by (rule Cons.IH) (rule Cons.prems, simp)
  have "keeps P (case r of Some a \<Rightarrow> retK (Some a) | None \<Rightarrow> searchK f xs)" for r
    by (cases r) (simp_all only: option.case rest keeps_retK)
  moreover have "keeps P (f i)" by (rule Cons.prems) simp
  ultimately show ?case unfolding searchK.simps by (intro keeps_bindK)
qed

lemmas keeps_rules = keeps_retK keeps_panicK keeps_blockK keeps_divergeK keeps_getK keeps_bindK
  keeps_thenK keeps_whenK keeps_derefK keeps_if keeps_eachK keeps_searchK

text \<open>\<open>leaves P ch Q m\<close>: when \<open>m\<close>, started in \<open>P\<close>, switches away on channel \<open>ch\<close>, it leaves \<open>Q\<close> behind.\<close>

definition leaves :: "('s \<Rightarrow> bool) \<Rightarrow> chan \<Rightarrow> ('s \<Rightarrow> bool) \<Rightarrow> ('a, 's) kop \<Rightarrow> bool" where
  "leaves P ch Q m \<longleftrightarrow> (\<forall>s t. P s \<longrightarrow> m s = Block ch t \<longrightarrow> Q t)"

lemma leavesD: "leaves P ch Q m \<Longrightarrow> P s \<Longrightarrow> m s = Block ch t \<Longrightarrow> Q t"
  by (auto simp: leaves_def)

lemma leaves_thenK:
  assumes "keeps P m" and "only_spins m" and "\<And>l. ch \<noteq> Spin l" and "leaves P ch Q n"
  shows "leaves P ch Q (thenK m n)"
  using assms unfolding leaves_def thenK_eq_Block_iff keeps_def only_spins_def by blast

lemma leaves_getK: "(\<And>a. leaves P ch Q (f a)) \<Longrightarrow> leaves P ch Q (bindK (getK g) f)"
  by (simp add: leaves_def)

lemma leaves_derefK: "(\<And>p. leaves P ch Q (f p)) \<Longrightarrow> leaves P ch Q (derefK q f)"
  by (cases q) (simp_all add: leaves_def)

lemma bindK_assoc: "bindK (bindK m f) g = bindK m (\<lambda>a. bindK (f a) g)"
  by (rule ext) (simp add: bindK_def split: outcome.splits)


section \<open>Regions, byte strings and little-endian integers\<close>

text \<open>
  Byte-addressed arrays are functions from words to bytes: RAM over \<^typ>\<open>64 word\<close>, a disk block
  over \<^typ>\<open>10 word\<close>. An address \<open>a\<close> lies in the \<open>n\<close> bytes from \<open>d\<close> when its distance from
  \<open>d\<close>, taken modulo the size of the array, is below \<open>n\<close>.
\<close>

definition in_region :: "'w::len word \<Rightarrow> nat \<Rightarrow> 'w word \<Rightarrow> bool" where
  "in_region d n a \<longleftrightarrow> unat (a - d) < n"

primrec put_bytes :: "('w::len word \<Rightarrow> byte) \<Rightarrow> 'w word \<Rightarrow> byte list \<Rightarrow> ('w word \<Rightarrow> byte)" where
  "put_bytes m d [] = m"
| "put_bytes m d (b # bs) = put_bytes (m(d := b)) (d + 1) bs"

primrec get_bytes :: "('w::len word \<Rightarrow> byte) \<Rightarrow> 'w word \<Rightarrow> nat \<Rightarrow> byte list" where
  "get_bytes m s 0 = []"
| "get_bytes m s (Suc n) = m s # get_bytes m (s + 1) n"

primrec le_bytes :: "nat \<Rightarrow> 'a::len word \<Rightarrow> byte list" where
  "le_bytes 0 v = []"
| "le_bytes (Suc k) v = ucast v # le_bytes k (drop_bit 8 v)"

primrec le_word :: "byte list \<Rightarrow> 'a::len word" where
  "le_word [] = 0"
| "le_word (b # bs) = ucast b OR push_bit 8 (le_word bs)"

lemma unat_minus_one_step: "(a::'w::len word) \<noteq> d \<Longrightarrow> unat (a - d) = Suc (unat (a - (d + 1)))"
proof -
  assume "a \<noteq> d"
  then have nz: "a - d \<noteq> 0" by simp
  have eq: "a - (d + 1) = (a - d) - 1" by simp
  from nz have "unat ((a - d) - 1) = unat (a - d) - 1" by (simp add: unat_minus_one)
  moreover from nz have "0 < unat (a - d)" by (simp add: unat_gt_0)
  ultimately show ?thesis unfolding eq by linarith
qed

lemma in_region_0 [simp]: "\<not> in_region d 0 a"
  by (simp add: in_region_def)

lemma in_region_Suc:
  "in_region d (Suc k) a \<longleftrightarrow> a = d \<or> in_region (d + 1) k a"
  by (cases "a = d") (simp_all add: in_region_def unat_minus_one_step)

lemma in_region_self_next:
  "k < 2 ^ LENGTH('w) \<Longrightarrow> \<not> in_region (d + 1) k (d :: 'w::len word)"
proof -
  assume k: "k < 2 ^ LENGTH('w)"
  have "d - (d + 1) = (-1 :: 'w word)" by simp
  moreover have "unat (-1 :: 'w word) = 2 ^ LENGTH('w) - 1"
    by (simp add: unsigned_minus_1_eq_mask mask_eq_exp_minus_1)
  ultimately show ?thesis using k by (simp add: in_region_def)
qed

lemma put_bytes_apply:
  "length bs \<le> 2 ^ LENGTH('w) \<Longrightarrow>
   put_bytes m d bs a = (if in_region d (length bs) a then bs ! unat (a - d) else m (a :: 'w::len word))"
proof (induction bs arbitrary: m d)
  case Nil
  show ?case by simp
next
  case (Cons b bs)
  then have IH: "put_bytes (m(d := b)) (d + 1) bs a =
      (if in_region (d + 1) (length bs) a then bs ! unat (a - (d + 1)) else (m(d := b)) a)"
    by simp
  show ?case
  proof (cases "a = d")
    case True
    have "\<not> in_region (d + 1) (length bs) a"
      unfolding True using Cons.prems by (intro in_region_self_next) simp
    then have "put_bytes m d (b # bs) a = (m(d := b)) a"
      by (simp only: put_bytes.simps IH if_False)
    with True show ?thesis by (simp add: in_region_def)
  next
    case False
    then show ?thesis by (simp add: IH in_region_Suc unat_minus_one_step)
  qed
qed

lemma length_get_bytes [simp]: "length (get_bytes m s n) = n"
  by (induction n arbitrary: s) simp_all

lemma length_le_bytes [simp]: "length (le_bytes k v) = k"
  by (induction k arbitrary: v) simp_all

lemma nth_get_bytes: "i < n \<Longrightarrow> get_bytes m s n ! i = m (s + of_nat i)"
  by (induction n arbitrary: s i) (auto simp: nth_Cons algebra_simps split: nat.splits)

lemma get_bytes_cong:
  "(\<And>a. in_region s n a \<Longrightarrow> m a = m' a) \<Longrightarrow> n \<le> 2 ^ LENGTH('w) \<Longrightarrow>
   get_bytes m (s :: 'w::len word) n = get_bytes m' s n"
  by (rule nth_equalityI)
     (auto simp: nth_get_bytes in_region_def unat_of_nat)

lemma get_put_bytes:
  "length bs \<le> 2 ^ LENGTH('w) \<Longrightarrow> get_bytes (put_bytes m d bs) (d :: 'w::len word) (length bs) = bs"
  by (rule nth_equalityI) (auto simp: nth_get_bytes put_bytes_apply in_region_def unat_of_nat)

lemma get_put_bytes_disj:
  assumes "length bs \<le> 2 ^ LENGTH('w)" and "n \<le> 2 ^ LENGTH('w)"
    and "\<And>a. in_region s n a \<Longrightarrow> \<not> in_region d (length bs) a"
  shows "get_bytes (put_bytes m d bs) s n = get_bytes m (s :: 'w::len word) n"
  using assms by (intro get_bytes_cong) (simp_all add: put_bytes_apply)

lemma le_word_le_bytes: "le_word (le_bytes k v) = take_bit (8 * k) (v :: 'a::len word)"
proof (induction k arbitrary: v)
  case 0
  show ?case by simp
next
  case (Suc k)
  show ?case
    by (simp add: Suc.IH, rule bit_word_eqI)
       (auto simp: bit_simps not_le less_diff_conv2 add.commute)
qed

text \<open>The 64-bit loads and stores of the kernel, on RAM.\<close>

definition ld64 :: "ram \<Rightarrow> u64 \<Rightarrow> u64" where
  "ld64 m a = le_word (get_bytes m a 8)"

definition st64 :: "ram \<Rightarrow> u64 \<Rightarrow> u64 \<Rightarrow> ram" where
  "st64 m a v = put_bytes m a (le_bytes 8 v)"

lemma take_bit_word_full: "LENGTH('a) \<le> n \<Longrightarrow> take_bit n (v :: 'a::len word) = v"
  by (rule bit_word_eqI) (simp add: bit_simps)

lemma ld64_st64 [simp]: "ld64 (st64 m a v) a = v"
proof -
  have "get_bytes (put_bytes m a (le_bytes 8 v)) a (length (le_bytes 8 v)) = le_bytes 8 v"
    by (rule get_put_bytes) simp
  then show ?thesis by (simp add: ld64_def st64_def le_word_le_bytes take_bit_word_full)
qed

lemma st64_apply: "st64 m d v a = (if in_region d 8 a then le_bytes 8 v ! unat (a - d) else m a)"
  by (simp add: st64_def put_bytes_apply)

lemma st64_frame: "\<not> in_region d 8 a \<Longrightarrow> st64 m d v a = m a"
  by (simp add: st64_apply)

lemma ld64_cong: "(\<And>a. in_region s 8 a \<Longrightarrow> m a = m' a) \<Longrightarrow> ld64 m s = ld64 m' s"
  unfolding ld64_def by (rule arg_cong [where f = le_word], rule get_bytes_cong) simp_all

lemma ld64_st64_other:
  "(\<And>a. in_region s 8 a \<Longrightarrow> \<not> in_region d 8 a) \<Longrightarrow> ld64 (st64 m d v) s = ld64 m s"
  by (rule ld64_cong) (simp add: st64_frame)

section \<open>Arithmetic on addresses\<close>

lemma unat_less_2_64: "unat (x::u64) < 2 ^ 64"
proof -
  have "unat x < 2 ^ LENGTH(64)" by (rule unsigned_less)
  then show ?thesis by simp
qed

text \<open>The measure of a loop whose pointer climbs without wrapping around.\<close>

definition room_above :: "u64 \<Rightarrow> nat" where
  "room_above a = 2 ^ 64 - unat a"

lemma room_above_less: "a < b \<Longrightarrow> room_above b < room_above a"
  using unat_less_2_64 [of a] by (simp add: room_above_def word_less_nat_alt diff_less_mono2)

lemma unat_of_nat_u64: "i < 2 ^ 64 \<Longrightarrow> unat (of_nat i :: u64) = i"
  by (simp add: unsigned_of_nat take_bit_nat_eq_self)

lemma unat_u32_le_64: "unat (n::u32) < 2 ^ 64"
proof -
  have "unat n < 2 ^ LENGTH(32)" by (rule unsigned_less)
  then show ?thesis by simp
qed

lemma unat_diff_u64: "(b::u64) \<le> a \<Longrightarrow> unat (a - b) = unat a - unat b"
  by (rule unat_sub)

lemma unat_diff_wrap: "unat (a::u64) < unat b \<Longrightarrow> unat (a - b) = 2 ^ 64 - (unat b - unat a)"
  by (simp add: unat_sub_if' word_le_nat_alt)

lemma unat_add_no_wrap: "unat (a::u64) + unat b < 2 ^ 64 \<Longrightarrow> unat (a + b) = unat a + unat b"
  by (simp add: unat_word_ariths)

lemma unat_ucast_u32 [simp]: "unat (ucast (n::u32) :: u64) = unat n"
proof -
  have "uint (ucast n :: u64) = uint n" by (rule uint_up_ucast) (simp add: is_up)
  then have "nat (uint (ucast n :: u64)) = nat (uint n)" by (rule arg_cong)
  then show ?thesis by (simp only: nat_uint_eq)
qed

lemma unat_drop_bit_u64: "unat (drop_bit n (x::u64)) = unat x div 2 ^ n"
proof -
  have "unat (drop_bit n x) = drop_bit n (take_bit 64 (unat x))"
    unfolding unsigned_drop_bit_eq by simp
  also have "take_bit 64 (unat x) = unat x" by (rule take_bit_nat_eq_self) (rule unat_less_2_64)
  finally show ?thesis by (simp only: drop_bit_eq_div)
qed

lemma unat_push_bit_u64: "unat w * 2 ^ n < 2 ^ 64 \<Longrightarrow> unat (push_bit n (w::u64)) = unat w * 2 ^ n"
proof -
  assume a: "unat w * 2 ^ n < 2 ^ 64"
  have "unat (push_bit n w) = take_bit 64 (push_bit n (unat w))"
    unfolding unsigned_push_bit_eq by simp
  also have "push_bit n (unat w) = unat w * 2 ^ n" by (simp only: push_bit_eq_mult)
  finally show ?thesis using a by (simp only: take_bit_nat_eq_self)
qed

lemma and_not_mask_u64: "(x::u64) AND NOT (mask n) = push_bit n (drop_bit n x)"
  by (rule bit_word_eqI) (auto simp: bit_simps)

lemma unat_and_not_mask: "unat ((x::u64) AND NOT (mask n)) = unat x div 2 ^ n * 2 ^ n"
proof -
  have "unat x div 2 ^ n * 2 ^ n \<le> unat x" by simp
  then have "unat x div 2 ^ n * 2 ^ n < 2 ^ 64" using unat_less_2_64 [of x] by linarith
  then show ?thesis unfolding and_not_mask_u64
    by (subst unat_push_bit_u64) (simp_all only: unat_drop_bit_u64)
qed

lemma bit_lower_bound: "bit (w::'a::len word) k \<Longrightarrow> 2 ^ k \<le> unat w"
proof -
  assume "bit w k"
  then have "bit (unat w) k" by (simp add: bit_unsigned_iff)
  then have "odd (unat w div 2 ^ k)" using bit_iff_odd by blast
  then have "unat w div 2 ^ k \<noteq> 0" by (metis even_zero)
  then show ?thesis by (simp add: div_eq_0_iff)
qed

lemma not_bit_above: "unat (w::'a::len word) < 2 ^ n \<Longrightarrow> n \<le> k \<Longrightarrow> \<not> bit w k"
  using bit_lower_bound [of w k] power_increasing [of n k "2::nat"] by fastforce

lemma div_eq_iff_between: "0 < n \<Longrightarrow> (u::nat) div n = k \<longleftrightarrow> k * n \<le> u \<and> u < k * n + n"
  using less_eq_div_iff_mult_less_eq [of n k u] div_less_iff_less_mult [of n u "Suc k"]
  by (auto simp: add.commute)

lemma in_region_no_wrap:
  assumes "unat (d::u64) + n \<le> 2 ^ 64"
  shows "in_region d n a \<longleftrightarrow> unat d \<le> unat a \<and> unat a < unat d + n"
proof (cases "d \<le> a")
  case True
  then show ?thesis by (auto simp: in_region_def unat_diff_u64 word_le_nat_alt)
next
  case False
  then have lt: "unat a < unat d" by (simp add: word_le_nat_alt)
  then have "unat (a - d) = 2 ^ 64 - (unat d - unat a)" by (rule unat_diff_wrap)
  then show ?thesis using assms lt unfolding in_region_def by linarith
qed

end
