(* ===== verification/Kstring.thy ===== *)
theory Kstring
  imports Prelude
begin

text \<open>
  \<^verbatim>\<open>kernel/string.c\<close> over RAM: \<open>memset\<close>, \<open>memcmp\<close>, \<open>memmove\<close>, \<open>memcpy\<close>, \<open>strncmp\<close>, \<open>strncpy\<close>,
  \<open>safestrcpy\<close> and \<open>strlen\<close>, each loop as a recursion with the pointers of the C code. The
  lemmas give the exact memory each routine leaves, also for overlapping regions.
\<close>

section \<open>Definitions\<close>

primrec memset_loop :: "ram \<Rightarrow> u64 \<Rightarrow> byte \<Rightarrow> nat \<Rightarrow> ram" where
  "memset_loop m cdst c 0 = m"
| "memset_loop m cdst c (Suc k) = memset_loop (m(cdst := c)) (cdst + 1) c k"

definition memset :: "ram \<Rightarrow> u64 \<Rightarrow> u32 \<Rightarrow> u32 \<Rightarrow> ram" where
  "memset m dst c n = memset_loop m dst (ucast c) (unat n)"

primrec memcmp_loop :: "ram \<Rightarrow> u64 \<Rightarrow> u64 \<Rightarrow> nat \<Rightarrow> int" where
  "memcmp_loop m s1 s2 0 = 0"
| "memcmp_loop m s1 s2 (Suc k) =
     (if m s1 \<noteq> m s2 then uint (m s1) - uint (m s2) else memcmp_loop m (s1 + 1) (s2 + 1) k)"

definition memcmp :: "ram \<Rightarrow> u64 \<Rightarrow> u64 \<Rightarrow> u32 \<Rightarrow> int" where
  "memcmp m v1 v2 n = memcmp_loop m v1 v2 (unat n)"

text \<open>\<^verbatim>\<open>*--d = *--s\<close>, from the end, and \<^verbatim>\<open>*d++ = *s++\<close>, from the start.\<close>

primrec copy_back :: "ram \<Rightarrow> u64 \<Rightarrow> u64 \<Rightarrow> nat \<Rightarrow> ram" where
  "copy_back m d s 0 = m"
| "copy_back m d s (Suc k) = copy_back (m(d - 1 := m (s - 1))) (d - 1) (s - 1) k"

primrec copy_fwd :: "ram \<Rightarrow> u64 \<Rightarrow> u64 \<Rightarrow> nat \<Rightarrow> ram" where
  "copy_fwd m d s 0 = m"
| "copy_fwd m d s (Suc k) = copy_fwd (m(d := m s)) (d + 1) (s + 1) k"

definition memmove :: "ram \<Rightarrow> u64 \<Rightarrow> u64 \<Rightarrow> u32 \<Rightarrow> ram" where
  "memmove m dst src n =
     (if src < dst \<and> src + ucast n > dst
      then copy_back m (dst + ucast n) (src + ucast n) (unat n)
      else copy_fwd m dst src (unat n))"

definition memcpy :: "ram \<Rightarrow> u64 \<Rightarrow> u64 \<Rightarrow> u32 \<Rightarrow> ram" where
  "memcpy m dst src n = memmove m dst src n"

primrec strncmp_loop :: "ram \<Rightarrow> u64 \<Rightarrow> u64 \<Rightarrow> nat \<Rightarrow> int" where
  "strncmp_loop m p q 0 = 0"
| "strncmp_loop m p q (Suc k) =
     (if m p \<noteq> 0 \<and> m p = m q then strncmp_loop m (p + 1) (q + 1) k
      else uint (m p) - uint (m q))"

definition strncmp :: "ram \<Rightarrow> u64 \<Rightarrow> u64 \<Rightarrow> u32 \<Rightarrow> int" where
  "strncmp m p q n = strncmp_loop m p q (unat n)"

text \<open>
  The first loop of \<open>strncpy\<close> stops after the copied NUL or when \<open>n\<close> is used up; the second
  loop pads what is left of \<open>n\<close>. A negative \<open>n\<close> copies nothing.
\<close>

primrec strncpy_loop :: "ram \<Rightarrow> u64 \<Rightarrow> u64 \<Rightarrow> nat \<Rightarrow> ram" where
  "strncpy_loop m s t 0 = m"
| "strncpy_loop m s t (Suc k) =
     (let m' = m(s := m t) in
      if m t \<noteq> 0 then strncpy_loop m' (s + 1) (t + 1) k else memset_loop m' (s + 1) 0 k)"

definition strncpy :: "ram \<Rightarrow> u64 \<Rightarrow> u64 \<Rightarrow> u32 \<Rightarrow> ram" where
  "strncpy m s t n = strncpy_loop m s t (nat (sint n))"

primrec safestrcpy_loop :: "ram \<Rightarrow> u64 \<Rightarrow> u64 \<Rightarrow> nat \<Rightarrow> ram" where
  "safestrcpy_loop m s t 0 = m(s := 0)"
| "safestrcpy_loop m s t (Suc k) =
     (let m' = m(s := m t) in
      if m t \<noteq> 0 then safestrcpy_loop m' (s + 1) (t + 1) k else m'(s + 1 := 0))"

definition safestrcpy :: "ram \<Rightarrow> u64 \<Rightarrow> u64 \<Rightarrow> u32 \<Rightarrow> ram" where
  "safestrcpy m s t n = (if sint n \<le> 0 then m else safestrcpy_loop m s t (nat (sint n) - 1))"

partial_function (option) strlen_loop :: "ram \<Rightarrow> u64 \<Rightarrow> u32 \<Rightarrow> u32 option" where
  "strlen_loop m s n = (if m (s + scast n) \<noteq> 0 then strlen_loop m s (n + 1) else Some n)"

definition strlen :: "ram \<Rightarrow> u64 \<Rightarrow> u32 option" where
  "strlen m s = strlen_loop m s 0"


section \<open>Copies and fills\<close>

text \<open>\<open>memset\<close> sets its region and nothing else.\<close>

lemma memset_loop_eq:
  "n \<le> 2 ^ 64 \<Longrightarrow> memset_loop m d c n = (\<lambda>a. if in_region d n a then c else m a)"
proof (induction n arbitrary: m d)
  case 0
  show ?case by simp
next
  case (Suc k)
  then have "memset_loop m d c (Suc k) = (\<lambda>a. if in_region (d + 1) k a then c else (m(d := c)) a)"
    by simp
  also have "\<dots> = (\<lambda>a. if in_region d (Suc k) a then c else m a)"
    by (rule ext) (simp add: in_region_Suc)
  finally show ?case .
qed

lemma memset_eq: "memset m d c n = (\<lambda>a. if in_region d (unat n) a then ucast c else m a)"
  using unat_u32_le_64 [of n] by (simp add: memset_def memset_loop_eq)

text \<open>A forward copy is right when the destination does not lie strictly inside the source.\<close>

lemma copy_fwd_eq:
  assumes "n < 2 ^ 64" and "n \<le> unat (d - s) \<or> d = s"
  shows "copy_fwd m d s n = (\<lambda>a. if in_region d n a then m (s + (a - d)) else m a)"
  using assms
proof (induction n arbitrary: m d s)
  case 0
  show ?case by simp
next
  case (Suc k)
  have diff: "(d + 1) - (s + 1) = d - s" by simp
  have step: "copy_fwd m d s (Suc k) =
      (\<lambda>a. if in_region (d + 1) k a then (m(d := m s)) (s + 1 + (a - (d + 1))) else (m(d := m s)) a)"
  proof -
    have "k < 2 ^ 64" and "k \<le> unat ((d + 1) - (s + 1)) \<or> d + 1 = s + 1"
      using Suc.prems by (auto simp: diff)
    then show ?thesis by (simp only: copy_fwd.simps Suc.IH)
  qed
  show ?case
  proof (rule ext)
    fix a
    show "copy_fwd m d s (Suc k) a = (if in_region d (Suc k) a then m (s + (a - d)) else m a)"
    proof (cases "in_region (d + 1) k a")
      case True
      have src: "s + 1 + (a - (d + 1)) = s + (a - d)" by simp
      have ad: "a \<noteq> d" using True in_region_self_next [of k d] Suc.prems(1) by auto
      have "s + (a - d) \<noteq> d \<or> d = s"
      proof (rule ccontr)
        assume "\<not> (s + (a - d) \<noteq> d \<or> d = s)"
        then have e: "a - d = d - s" and ne: "d \<noteq> s" by (auto simp: algebra_simps)
        from ne Suc.prems(2) have "Suc k \<le> unat (d - s)" by simp
        moreover from True ad have "unat (a - d) < Suc k"
          by (simp add: in_region_def unat_minus_one_step)
        ultimately show False using e by simp
      qed
      then have "(m(d := m s)) (s + (a - d)) = m (s + (a - d))" by auto
      then have "copy_fwd m d s (Suc k) a = m (s + (a - d))"
        by (simp only: step True if_True src)
      with True show ?thesis by (simp add: in_region_Suc)
    next
      case False
      then show ?thesis by (auto simp: step in_region_Suc simp del: copy_fwd.simps)
    qed
  qed
qed

text \<open>A backward copy, symmetrically, with end pointers.\<close>

lemma unat_pred_step: "(a::u64) \<noteq> d - 1 \<Longrightarrow> unat (d - 1 - a) = Suc (unat (d - 1 - 1 - a))"
  using unat_minus_one_step [of "d - 1" a] by (auto simp: algebra_simps)

lemma copy_back_eq:
  assumes "n < 2 ^ 64" and "n \<le> unat (s - d) \<or> d = s"
  shows "copy_back m d s n = (\<lambda>a. if unat (d - 1 - a) < n then m (s - (d - a)) else m a)"
  using assms
proof (induction n arbitrary: m d s)
  case 0
  show ?case by simp
next
  case (Suc k)
  have diff: "(s - 1) - (d - 1) = s - d" by simp
  have step: "copy_back m d s (Suc k) =
      (\<lambda>a. if unat (d - 1 - 1 - a) < k then (m(d - 1 := m (s - 1))) (s - 1 - (d - 1 - a))
           else (m(d - 1 := m (s - 1))) a)"
  proof -
    have "k < 2 ^ 64" and "k \<le> unat ((s - 1) - (d - 1)) \<or> d - 1 = s - 1"
      using Suc.prems by (auto simp: diff)
    then show ?thesis by (simp only: copy_back.simps Suc.IH)
  qed
  show ?case
  proof (rule ext)
    fix a
    show "copy_back m d s (Suc k) a = (if unat (d - 1 - a) < Suc k then m (s - (d - a)) else m a)"
    proof (cases "a = d - 1")
      case True
      have e: "d - 1 - 1 - a = (-1::u64)" using True by simp
      have "\<not> unat (d - 1 - 1 - a) < k"
        unfolding e using Suc.prems(1) by (simp add: unsigned_minus_1_eq_mask mask_eq_exp_minus_1)
      with True show ?thesis by (simp add: step del: copy_back.simps)
    next
      case False
      note ust = unat_pred_step [OF False]
      have src: "s - 1 - (d - 1 - a) = s - (d - a)" by simp
      have "unat (d - 1 - a) < Suc k \<longrightarrow> s - (d - a) \<noteq> d - 1 \<or> d = s"
      proof (rule ccontr)
        assume "\<not> (unat (d - 1 - a) < Suc k \<longrightarrow> s - (d - a) \<noteq> d - 1 \<or> d = s)"
        then have lt: "unat (d - 1 - a) < Suc k" and e: "s - (d - a) = d - 1" and ne: "d \<noteq> s"
          by auto
        from e have "s - d = d - 1 - a" by (simp add: algebra_simps)
        with lt ne Suc.prems(2) show False by auto
      qed
      moreover have "copy_back m d s (Suc k) a = (if unat (d - 1 - 1 - a) < k
          then (m(d - 1 := m (s - 1))) (s - (d - a)) else (m(d - 1 := m (s - 1))) a)"
        by (simp only: step src)
      ultimately show ?thesis using False ust by (auto simp del: copy_back.simps)
    qed
  qed
qed


section \<open>What the routines leave in memory\<close>

lemma distance_ge:
  assumes "unat (s::u64) + n \<le> 2 ^ 64" and "unat d + n \<le> 2 ^ 64"
    and "\<not> (s < d \<and> unat d < unat s + n)"
  shows "n \<le> unat (d - s) \<or> d = s"
proof (cases "s \<le> d")
  case True
  then have diff: "unat (d - s) = unat d - unat s" by (rule unat_diff_u64)
  show ?thesis
  proof (cases "s = d")
    case False
    with True have "s < d" by simp
    with assms(3) have "unat s + n \<le> unat d" by simp
    then show ?thesis using diff by linarith
  qed simp
next
  case False
  then have lt: "unat d < unat s" by (simp add: word_le_nat_alt)
  then have "unat (d - s) = 2 ^ 64 - (unat s - unat d)" by (rule unat_diff_wrap)
  then show ?thesis using assms lt by linarith
qed

lemma region_from_end:
  assumes n: "0 < n" "n < 2 ^ 64"
  shows "unat (d + of_nat n - 1 - a :: u64) < n \<longleftrightarrow> in_region d n a"
proof -
  let ?x = "a - d"
  have rev: "d + of_nat n - 1 - a = (of_nat n - 1) - ?x" by (simp add: algebra_simps)
  have u: "unat (of_nat n :: u64) = n" using n(2) by (rule unat_of_nat_u64)
  then have nm1: "unat (of_nat n - 1 :: u64) = n - 1" using n(1) by (subst unat_minus_one) auto
  show ?thesis
  proof (cases "?x \<le> of_nat n - 1")
    case True
    then have "unat (of_nat n - 1 - ?x) = n - 1 - unat ?x" by (simp add: unat_diff_u64 nm1)
    moreover have "unat ?x \<le> n - 1" using True by (simp add: word_le_nat_alt nm1)
    ultimately show ?thesis using n unfolding rev in_region_def by linarith
  next
    case False
    then have big: "n - 1 < unat ?x" by (simp add: word_le_nat_alt nm1)
    then have "unat (of_nat n - 1 - ?x) = 2 ^ 64 - (unat ?x - (n - 1))"
      using unat_diff_wrap [of "of_nat n - 1" ?x] unfolding nm1 by blast
    moreover have "unat ?x < 2 ^ 64" by (rule unat_less_2_64)
    ultimately show ?thesis using n big unfolding rev in_region_def by linarith
  qed
qed

lemma memmove_eq:
  assumes dst: "unat dst + unat n \<le> 2 ^ 64" and src: "unat src + unat n < 2 ^ 64"
  shows "memmove m dst src n =
    (\<lambda>a. if in_region dst (unat n) a then m (src + (a - dst)) else m a)"
proof -
  have n64: "unat n < 2 ^ 64" by (rule unat_u32_le_64)
  have sn: "unat (src + ucast n) = unat src + unat n"
    using src by (simp add: unat_add_no_wrap)
  show ?thesis
  proof (cases "src < dst \<and> src + ucast n > dst")
    case True
    then have lt: "unat src < unat dst" and inside: "unat dst < unat src + unat n"
      by (auto simp: word_less_nat_alt sn)
    let ?d = "dst + ucast n" and ?s = "src + ucast n :: u64"
    have diff: "?s - ?d = src - dst" by simp
    have "unat (src - dst) = 2 ^ 64 - (unat dst - unat src)"
      using lt by (rule unat_diff_wrap)
    with dst lt have "unat n \<le> unat (?s - ?d) \<or> ?d = ?s" unfolding diff by linarith
    then have "copy_back m ?d ?s (unat n) =
        (\<lambda>a. if unat (?d - 1 - a) < unat n then m (?s - (?d - a)) else m a)"
      by (rule copy_back_eq [OF n64])
    moreover have "unat (?d - 1 - a) < unat n \<longleftrightarrow> in_region dst (unat n) a" for a
      using region_from_end [of "unat n" dst a] n64 inside lt by simp
    moreover have "?s - (?d - a) = src + (a - dst)" for a by (simp add: algebra_simps)
    ultimately show ?thesis by (simp only: memmove_def True if_True simp_thms)
  next
    case False
    then have "\<not> (src < dst \<and> unat dst < unat src + unat n)"
      by (simp add: word_less_nat_alt sn)
    then have "unat n \<le> unat (dst - src) \<or> dst = src"
      using dst src by (intro distance_ge) simp_all
    then have "copy_fwd m dst src (unat n) =
        (\<lambda>a. if in_region dst (unat n) a then m (src + (a - dst)) else m a)"
      by (rule copy_fwd_eq [OF n64])
    with False show ?thesis by (auto simp: memmove_def)
  qed
qed

section \<open>Strings\<close>

text \<open>What a bounded copy that always terminates its destination leaves there.\<close>

definition terminated_copy :: "ram \<Rightarrow> u64 \<Rightarrow> ram \<Rightarrow> u64 \<Rightarrow> nat \<Rightarrow> bool" where
  "terminated_copy m' s m t n \<longleftrightarrow>
     (\<exists>j < n. m' (s + of_nat j) = 0 \<and> (\<forall>i < j. m' (s + of_nat i) = m (t + of_nat i) \<and> m (t + of_nat i) \<noteq> 0) \<and>
        (j + 1 < n \<longrightarrow> m (t + of_nat j) = 0))"

lemma safestrcpy_loop_spec:
  assumes "k < 2 ^ 64 - 1" and "\<And>i j. i \<le> k \<Longrightarrow> j \<le> k \<Longrightarrow> s + of_nat i \<noteq> t + of_nat j"
  shows "terminated_copy (safestrcpy_loop m s t k) s m t (Suc k) \<and>
    (\<forall>a. \<not> in_region s (Suc k) a \<longrightarrow> safestrcpy_loop m s t k a = m a)"
  using assms
proof (induction k arbitrary: m s t)
  case 0
  then show ?case by (auto simp: terminated_copy_def in_region_def)
next
  case (Suc k)
  let ?m = "m(s := m t)"
  have s1: "s + 1 \<noteq> s" by simp
  show ?case
  proof (cases "m t = 0")
    case True
    then have "safestrcpy_loop m s t (Suc k) = ?m(s + 1 := 0)" by simp
    moreover have "in_region s (Suc (Suc k)) s" "in_region s (Suc (Suc k)) (s + 1)"
      by (simp_all add: in_region_def)
    ultimately show ?thesis using True by (auto simp: terminated_copy_def intro!: exI [of _ 0])
  next
    case False
    let ?r = "safestrcpy_loop ?m (s + 1) (t + 1) k"
    have r: "safestrcpy_loop m s t (Suc k) = ?r" using False by simp
    have sep: "s + 1 + of_nat i \<noteq> t + 1 + of_nat j" if "i \<le> k" "j \<le> k" for i j
      using Suc.prems(2) [of "Suc i" "Suc j"] that by (simp add: ac_simps)
    have src: "?m (t + 1 + of_nat i) = m (t + 1 + of_nat i)" if "i \<le> k" for i
      using Suc.prems(2) [of 0 "Suc i"] that by (auto simp: ac_simps)
    from Suc.IH [OF _ sep] Suc.prems(1)
    have ih: "terminated_copy ?r (s + 1) ?m (t + 1) (Suc k)"
      and fr: "\<And>a. \<not> in_region (s + 1) (Suc k) a \<Longrightarrow> ?r a = ?m a" by auto
    from ih obtain j where j: "j < Suc k" "?r (s + 1 + of_nat j) = 0"
        "\<And>i. i < j \<Longrightarrow> ?r (s + 1 + of_nat i) = ?m (t + 1 + of_nat i) \<and> ?m (t + 1 + of_nat i) \<noteq> 0"
        "j + 1 < Suc k \<Longrightarrow> ?m (t + 1 + of_nat j) = 0"
      by (auto simp: terminated_copy_def)
    have head: "?r s = m t"
      using fr [of s] in_region_self_next [of "Suc k" s] Suc.prems(1) by simp
    have "?r (s + of_nat i) = m (t + of_nat i) \<and> m (t + of_nat i) \<noteq> 0" if "i < Suc j" for i
    proof (cases i)
      case 0
      then show ?thesis using head False by simp
    next
      case (Suc i')
      then show ?thesis using j(1) j(3) [of i'] src [of i'] that by (simp add: ac_simps)
    qed
    moreover have "?r (s + of_nat (Suc j)) = 0" using j(2) by (simp add: ac_simps)
    moreover have "Suc j + 1 < Suc (Suc k) \<longrightarrow> m (t + of_nat (Suc j)) = 0"
      using j(4) src [of j] by (simp add: ac_simps)
    ultimately have "terminated_copy ?r s m t (Suc (Suc k))"
      unfolding terminated_copy_def using j(1) by (intro exI [of _ "Suc j"]) blast
    moreover have "?r a = m a" if "\<not> in_region s (Suc (Suc k)) a" for a
      using that fr [of a] by (auto simp: in_region_Suc)
    ultimately show ?thesis unfolding r by blast
  qed
qed

lemma memcmp_loop_zero:
  "memcmp_loop m p q n = 0 \<longleftrightarrow> get_bytes m p n = get_bytes m q n"
  by (induction n arbitrary: p q) (auto simp: word_uint_eq_iff)

lemma memcmp_loop_first:
  "i < n \<Longrightarrow> (\<And>j. j < i \<Longrightarrow> m (p + of_nat j) = m (q + of_nat j)) \<Longrightarrow> m (p + of_nat i) \<noteq> m (q + of_nat i) \<Longrightarrow>
   memcmp_loop m p q n = uint (m (p + of_nat i)) - uint (m (q + of_nat i))"
proof (induction n arbitrary: p q i)
  case 0
  then show ?case by simp
next
  case (Suc n)
  show ?case
  proof (cases i)
    case 0
    then show ?thesis using Suc.prems by simp
  next
    case (Suc k)
    have "m p = m q" using Suc.prems(2) [of 0] Suc by simp
    moreover have "memcmp_loop m (p + 1) (q + 1) n = uint (m (p + 1 + of_nat k)) - uint (m (q + 1 + of_nat k))"
    proof (rule Suc.IH)
      show "k < n" using Suc Suc.prems(1) by simp
      show "m (p + 1 + of_nat j) = m (q + 1 + of_nat j)" if "j < k" for j
        using Suc.prems(2) [of "Suc j"] that Suc by (simp add: ac_simps)
      show "m (p + 1 + of_nat k) \<noteq> m (q + 1 + of_nat k)"
        using Suc.prems(3) Suc by (simp add: ac_simps)
    qed
    ultimately show ?thesis using Suc by (simp add: ac_simps)
  qed
qed

section \<open>Properties\<close>

text \<open>
  C12: \<open>memmove\<close> leaves in the destination what the source held before the call, also when the
  two overlap in either direction, and changes nothing outside the destination.
\<close>

theorem memmove_correct:
  assumes "unat dst + unat n \<le> 2 ^ 64" and "unat src + unat n < 2 ^ 64"
  shows "get_bytes (memmove m dst src n) dst (unat n) = get_bytes m src (unat n) \<and>
    (\<forall>a. \<not> in_region dst (unat n) a \<longrightarrow> memmove m dst src n a = m a)"
proof -
  have "unat (of_nat i :: u64) = i" if "i < unat n" for i
    using that unat_u32_le_64 [of n] by (intro unat_of_nat_u64) simp
  then have "get_bytes (memmove m dst src n) dst (unat n) = get_bytes m src (unat n)"
    by (intro nth_equalityI) (simp_all add: nth_get_bytes memmove_eq [OF assms] in_region_def)
  then show ?thesis by (simp add: memmove_eq [OF assms])
qed

theorem memmove_correct_witness:
  "get_bytes (memmove (\<lambda>a. ucast a) 3 1 4) 3 4 = [1, 2, 3, 4]"
proof -
  have "get_bytes (memmove (\<lambda>a. ucast a) 3 1 4) 3 (unat (4 :: u32)) =
      get_bytes (\<lambda>a::u64. ucast a :: byte) 1 (unat (4 :: u32))"
    using memmove_correct [of 3 4 1 "\<lambda>a. ucast a"] by simp
  moreover have "(4::nat) = Suc (Suc (Suc (Suc 0)))" by simp
  then have "get_bytes (\<lambda>a::u64. ucast a :: byte) 1 4 = [1, 2, 3, 4]" by (simp only: get_bytes.simps) simp
  ultimately show ?thesis by simp
qed

text \<open>
  C13: \<open>safestrcpy\<close> with room for \<open>n > 0\<close> bytes always leaves a NUL-terminated prefix of the source
  (the whole string if it fits) and writes no byte beyond the \<open>n\<close> it was given.
\<close>

theorem safestrcpy_terminates_string:
  assumes "0 < sint n"
    and "\<forall>i < nat (sint n). \<forall>j < nat (sint n). s + of_nat i \<noteq> t + of_nat j"
  shows "terminated_copy (safestrcpy m s t n) s m t (nat (sint n)) \<and>
    (\<forall>a. \<not> in_region s (nat (sint n)) a \<longrightarrow> safestrcpy m s t n a = m a)"
proof -
  have "sint n < 2 ^ 31" using sint_lt [of n] by simp
  then have "nat (sint n) - 1 < 2 ^ 64 - 1" by simp
  moreover have "Suc (nat (sint n) - 1) = nat (sint n)" using assms(1) by simp
  ultimately show ?thesis
    using safestrcpy_loop_spec [of "nat (sint n) - 1" s t m] assms by (simp add: safestrcpy_def)
qed

theorem safestrcpy_terminates_string_witness:
  "terminated_copy (safestrcpy ((\<lambda>_. 0)(100 := 7, 101 := 8, 102 := 9)) 0 100 3) 0
     ((\<lambda>_. 0)(100 := 7, 101 := 8, 102 := 9)) 100 3"
proof -
  have "\<forall>i < nat (sint (3 :: u32)). \<forall>j < nat (sint (3 :: u32)). (0 :: u64) + of_nat i \<noteq> 100 + of_nat j"
    by (auto simp: numeral_3_eq_3 less_Suc_eq)
  then show ?thesis
    using safestrcpy_terminates_string [of 3 0 100 "(\<lambda>_. 0)(100 := 7, 101 := 8, 102 := 9)"] by simp
qed

end
