(* ===== verification/Mutex_Spec.thy ===== *)
theory Mutex_Spec
  imports Prelude
begin

text \<open>
  The contract of a mutual-exclusion lock, as a locale: an acquisition succeeds only on a free
  lock and records the new owner, a release succeeds only for the owner and frees the lock.
  From it follows, once for every lock that keeps the contract, that in any interleaving of
  acquisitions and releases at most one party is between the two. Spinlocks and sleep-locks
  are its instances.
\<close>

datatype ('l, 'c) lock_event = Acq 'l 'c | Rel 'l 'c

text \<open>An interleaving of lock operations, as far as each of them returns.\<close>

primrec run_events ::
  "('l \<Rightarrow> 'c \<Rightarrow> 's \<Rightarrow> 's option) \<Rightarrow> ('l \<Rightarrow> 'c \<Rightarrow> 's \<Rightarrow> 's option) \<Rightarrow>
   ('l, 'c) lock_event list \<Rightarrow> 's \<Rightarrow> 's option" where
  "run_events acq rel [] s = Some s"
| "run_events acq rel (e # es) s =
     (case (case e of Acq l c \<Rightarrow> acq l c s | Rel l c \<Rightarrow> rel l c s) of
        None \<Rightarrow> None
      | Some t \<Rightarrow> run_events acq rel es t)"

text \<open>Who is inside the critical section of \<open>l\<close>, read off the history alone.\<close>

primrec inside :: "('l, 'c) lock_event list \<Rightarrow> 'l \<Rightarrow> 'c set \<Rightarrow> 'c set" where
  "inside [] l C = C"
| "inside (e # es) l C =
     inside es l (case e of Acq l' c \<Rightarrow> (if l' = l then insert c C else C)
                          | Rel l' c \<Rightarrow> (if l' = l then C - {c} else C))"

locale mutex =
  fixes acq :: "'l \<Rightarrow> 'c \<Rightarrow> 's \<Rightarrow> 's option"
    and rel :: "'l \<Rightarrow> 'c \<Rightarrow> 's \<Rightarrow> 's option"
    and owner :: "'s \<Rightarrow> 'l \<Rightarrow> 'c option"
    and inv :: "'s \<Rightarrow> bool"
  assumes acq_free: "inv s \<Longrightarrow> acq l c s = Some t \<Longrightarrow> owner s l = None"
    and acq_owner: "inv s \<Longrightarrow> acq l c s = Some t \<Longrightarrow> owner t = (owner s)(l \<mapsto> c)"
    and acq_inv: "inv s \<Longrightarrow> acq l c s = Some t \<Longrightarrow> inv t"
    and rel_held: "inv s \<Longrightarrow> rel l c s = Some t \<Longrightarrow> owner s l = Some c"
    and rel_owner: "inv s \<Longrightarrow> rel l c s = Some t \<Longrightarrow> owner t = (owner s)(l := None)"
    and rel_inv: "inv s \<Longrightarrow> rel l c s = Some t \<Longrightarrow> inv t"
begin

lemma run_inside_owner:
  assumes "run_events acq rel es s = Some t" and "inv s"
  shows "inv t \<and> inside es l (set_option (owner s l)) = set_option (owner t l)"
  using assms
proof (induction es arbitrary: s)
  case Nil
  then show ?case by simp
next
  case (Cons e es)
  show ?case
  proof (cases e)
    case (Acq l' c)
    with Cons.prems obtain u where u: "acq l' c s = Some u" "run_events acq rel es u = Some t"
      by (auto split: option.splits)
    have free: "owner s l' = None" and own: "owner u = (owner s)(l' \<mapsto> c)" and iu: "inv u"
      using acq_free acq_owner acq_inv Cons.prems(2) u(1) by blast+
    have "inside es l (set_option (owner u l)) = set_option (owner t l) \<and> inv t"
      using Cons.IH [OF u(2) iu] by simp
    with Acq own free show ?thesis by (auto split: if_splits)
  next
    case (Rel l' c)
    with Cons.prems obtain u where u: "rel l' c s = Some u" "run_events acq rel es u = Some t"
      by (auto split: option.splits)
    have held: "owner s l' = Some c" and own: "owner u = (owner s)(l' := None)" and iu: "inv u"
      using rel_held rel_owner rel_inv Cons.prems(2) u(1) by blast+
    have "inside es l (set_option (owner u l)) = set_option (owner t l) \<and> inv t"
      using Cons.IH [OF u(2) iu] by simp
    with Rel own held show ?thesis by (auto split: if_splits)
  qed
qed

lemma at_most_one_inside:
  assumes "run_events acq rel es s = Some t" and "inv s" and "owner s l = None"
    and "c \<in> inside es l {}" and "d \<in> inside es l {}"
  shows "c = d"
  using run_inside_owner [OF assms(1,2), of l] assms(3-5) by (cases "owner t l") auto

end

end
