(* ===== verification/Spinlock.thy ===== *)
theory Spinlock
  imports Mutex_Spec
begin

text \<open>
  \<^verbatim>\<open>kernel/spinlock.c\<close> with the parts of \<^verbatim>\<open>kernel/riscv.h\<close> and \<^verbatim>\<open>kernel/proc.c\<close> it uses: the
  interrupt-enable bit of \<^verbatim>\<open>sstatus\<close>, \<open>cpuid\<close>, \<open>mycpu\<close>, \<open>push_off\<close>, \<open>pop_off\<close>, \<open>holding\<close>, \<open>acquire\<close>
  and \<open>release\<close>. The record \<open>machine\<close> holds the registers of the harts, \<^verbatim>\<open>cpus[]\<close> and every
  spinlock of the kernel; the states of the other components extend it. The executing hart
  is the one \<open>tp\<close> names.

  The lemmas say when \<open>acquire\<close> and \<open>release\<close> return, that a release undoes the acquisition
  exactly (the equations \<open>kstep\<close> the other components run on), and that locks exclude each
  other and keep interrupts off while they are held.
\<close>

section \<open>State\<close>

record spinlock =
  lk_locked :: u32
  lk_name :: string
  lk_cpu :: "nat option"

record kcontext =
  ctx_ra :: u64
  ctx_sp :: u64
  ctx_s :: "u64 list" \<comment> \<open>s0 to s11\<close>

record cpu =
  c_proc :: "nat option"
  c_context :: kcontext
  c_noff :: int
  c_intena :: bool

record machine =
  tp :: u64
  sstatus :: "nat \<Rightarrow> u64"
  cpus :: "nat \<Rightarrow> cpu"
  locks :: "lockid \<Rightarrow> spinlock"

definition SSTATUS_SIE :: u64 where
  "SSTATUS_SIE = push_bit 1 1"

section \<open>Operations\<close>

definition r_tp :: "(u64, 'z machine_scheme) kop" where
  "r_tp = getK tp"

definition cpuid :: "(nat, 'z machine_scheme) kop" where
  "cpuid = bindK r_tp (\<lambda>x. retK (unat (ucast x :: u32)))"

text \<open>\<open>mycpu\<close> returns the index of the hart's element of \<^verbatim>\<open>cpus[]\<close>.\<close>

definition mycpu :: "(nat, 'z machine_scheme) kop" where
  "mycpu = cpuid"

definition r_sstatus :: "(u64, 'z machine_scheme) kop" where
  "r_sstatus = bindK cpuid (\<lambda>c. getK (\<lambda>s. sstatus s c))"

definition w_sstatus :: "u64 \<Rightarrow> (unit, 'z machine_scheme) kop" where
  "w_sstatus x = bindK cpuid (\<lambda>c. modK (\<lambda>s. s\<lparr>sstatus := (sstatus s)(c := x)\<rparr>))"

definition intr_on :: "(unit, 'z machine_scheme) kop" where
  "intr_on = bindK r_sstatus (\<lambda>x. w_sstatus (x OR SSTATUS_SIE))"

definition intr_off :: "(unit, 'z machine_scheme) kop" where
  "intr_off = bindK r_sstatus (\<lambda>x. w_sstatus (x AND NOT SSTATUS_SIE))"

definition intr_get :: "(bool, 'z machine_scheme) kop" where
  "intr_get = bindK r_sstatus (\<lambda>x. retK (x AND SSTATUS_SIE \<noteq> 0))"

definition upd_cpu :: "nat \<Rightarrow> (cpu \<Rightarrow> cpu) \<Rightarrow> 'z machine_scheme \<Rightarrow> 'z machine_scheme" where
  "upd_cpu c f s = s\<lparr>cpus := (cpus s)(c := f (cpus s c))\<rparr>"

definition upd_lock :: "lockid \<Rightarrow> (spinlock \<Rightarrow> spinlock) \<Rightarrow> 'z machine_scheme \<Rightarrow> 'z machine_scheme"
  where "upd_lock l f s = s\<lparr>locks := (locks s)(l := f (locks s l))\<rparr>"

definition initlock :: "lockid \<Rightarrow> string \<Rightarrow> (unit, 'z machine_scheme) kop" where
  "initlock l nm = modK (upd_lock l (\<lambda>_. \<lparr>lk_locked = 0, lk_name = nm, lk_cpu = None\<rparr>))"

definition push_off :: "(unit, 'z machine_scheme) kop" where
  "push_off =
     bindK intr_get (\<lambda>old.
     thenK intr_off (
     bindK mycpu (\<lambda>c.
     bindK (getK (\<lambda>s. c_noff (cpus s c))) (\<lambda>n.
     thenK (whenK (n = 0) (modK (upd_cpu c (\<lambda>r. r\<lparr>c_intena := old\<rparr>))))
           (modK (upd_cpu c (\<lambda>r. r\<lparr>c_noff := c_noff r + 1\<rparr>)))))))"

definition pop_off :: "(unit, 'z machine_scheme) kop" where
  "pop_off =
     bindK mycpu (\<lambda>c.
     bindK intr_get (\<lambda>on.
     if on then panicK ''pop_off - interruptible''
     else bindK (getK (\<lambda>s. c_noff (cpus s c))) (\<lambda>n.
     if n < 1 then panicK ''pop_off''
     else thenK (modK (upd_cpu c (\<lambda>r. r\<lparr>c_noff := c_noff r - 1\<rparr>))) (
          bindK (getK (\<lambda>s. cpus s c)) (\<lambda>r.
          whenK (c_noff r = 0 \<and> c_intena r) intr_on)))))"

definition holding :: "lockid \<Rightarrow> (bool, 'z machine_scheme) kop" where
  "holding l =
     bindK mycpu (\<lambda>c. getK (\<lambda>s. lk_locked (locks s l) \<noteq> 0 \<and> lk_cpu (locks s l) = Some c))"

text \<open>
  The atomic swap of \<open>acquire\<close> leaves 1 in \<^verbatim>\<open>locked\<close>; it spins while the old value is not 0,
  which only another hart can change.
\<close>

definition acquire :: "lockid \<Rightarrow> (unit, 'z machine_scheme) kop" where
  "acquire l =
     thenK push_off (
     bindK (holding l) (\<lambda>h.
     if h then panicK ''acquire''
     else bindK (getK (\<lambda>s. lk_locked (locks s l))) (\<lambda>old.
     thenK (modK (upd_lock l (\<lambda>k. k\<lparr>lk_locked := 1\<rparr>))) (
     if old \<noteq> 0 then blockK (Spin l)
     else bindK mycpu (\<lambda>c. modK (upd_lock l (\<lambda>k. k\<lparr>lk_cpu := Some c\<rparr>)))))))"

definition release :: "lockid \<Rightarrow> (unit, 'z machine_scheme) kop" where
  "release l =
     bindK (holding l) (\<lambda>h.
     if \<not> h then panicK ''release''
     else thenK (modK (upd_lock l (\<lambda>k. k\<lparr>lk_cpu := None\<rparr>))) (
          thenK (modK (upd_lock l (\<lambda>k. k\<lparr>lk_locked := 0\<rparr>)))
                pop_off))"

text \<open>\<^verbatim>\<open>myproc\<close> of \<^verbatim>\<open>kernel/proc.c\<close>: an index into \<^verbatim>\<open>proc[]\<close>, or none.\<close>

definition myproc :: "(nat option, 'z machine_scheme) kop" where
  "myproc =
     thenK push_off (
     bindK mycpu (\<lambda>c.
     bindK (getK (\<lambda>s. c_proc (cpus s c))) (\<lambda>p.
     thenK pop_off (retK p))))"

section \<open>Closed forms\<close>

definition cid :: "'z machine_scheme \<Rightarrow> nat" where
  "cid s = unat (ucast (tp s) :: u32)"

definition intr_enabled :: "nat \<Rightarrow> 'z machine_scheme \<Rightarrow> bool" where
  "intr_enabled c s \<longleftrightarrow> sstatus s c AND SSTATUS_SIE \<noteq> 0"

definition pushed :: "'z machine_scheme \<Rightarrow> 'z machine_scheme" where
  "pushed s = s\<lparr>sstatus := (sstatus s)(cid s := sstatus s (cid s) AND NOT SSTATUS_SIE),
     cpus := (cpus s)(cid s := (cpus s (cid s))\<lparr>c_intena :=
         (if c_noff (cpus s (cid s)) = 0 then intr_enabled (cid s) s
          else c_intena (cpus s (cid s))),
       c_noff := c_noff (cpus s (cid s)) + 1\<rparr>)\<rparr>"

definition acq :: "lockid \<Rightarrow> 'z machine_scheme \<Rightarrow> 'z machine_scheme" where
  "acq l s = upd_lock l (\<lambda>k. k\<lparr>lk_locked := 1, lk_cpu := Some (cid s)\<rparr>) (pushed s)"

text \<open>
  The bookkeeping of \<open>push_off\<close> is consistent on the executing hart: nested, interrupts are
  off; not nested, \<^verbatim>\<open>intena\<close> is what the hardware has.
\<close>

definition cpu_ok :: "'z machine_scheme \<Rightarrow> bool" where
  "cpu_ok s \<longleftrightarrow> 0 \<le> c_noff (cpus s (cid s)) \<and>
     (if c_noff (cpus s (cid s)) = 0
      then c_intena (cpus s (cid s)) = intr_enabled (cid s) s
      else \<not> intr_enabled (cid s) s)"

definition lock_free :: "lockid \<Rightarrow> 'z machine_scheme \<Rightarrow> bool" where
  "lock_free l s \<longleftrightarrow> lk_locked (locks s l) = 0 \<and> lk_cpu (locks s l) = None"

lemma r_tp_eq [simp]: "r_tp s = Ret (tp s) s"
  by (simp add: r_tp_def)

lemma cpuid_eq [simp]: "cpuid s = Ret (cid s) s"
  by (simp add: cpuid_def cid_def)

lemma mycpu_eq [simp]: "mycpu s = Ret (cid s) s"
  by (simp add: mycpu_def)

lemma r_sstatus_eq [simp]: "r_sstatus s = Ret (sstatus s (cid s)) s"
  by (simp add: r_sstatus_def)

lemma w_sstatus_eq [simp]: "w_sstatus x s = Ret () (s\<lparr>sstatus := (sstatus s)(cid s := x)\<rparr>)"
  by (simp add: w_sstatus_def)

lemma intr_get_eq [simp]: "intr_get s = Ret (intr_enabled (cid s) s) s"
  by (simp add: intr_get_def intr_enabled_def)

lemma bindK_intr_get [simp]: "bindK intr_get f s = f (intr_enabled (cid s) s) s"
  by (simp add: bindK_def)

lemma intr_on_eq [simp]:
  "intr_on s = Ret () (s\<lparr>sstatus := (sstatus s)(cid s := sstatus s (cid s) OR SSTATUS_SIE)\<rparr>)"
  by (simp add: intr_on_def)

lemma intr_off_eq [simp]:
  "intr_off s = Ret () (s\<lparr>sstatus := (sstatus s)(cid s := sstatus s (cid s) AND NOT SSTATUS_SIE)\<rparr>)"
  by (simp add: intr_off_def)

lemma cid_update [simp]:
  "cid (s\<lparr>sstatus := x\<rparr>) = cid s"
  "cid (s\<lparr>cpus := y\<rparr>) = cid s"
  "cid (s\<lparr>locks := z\<rparr>) = cid s"
  by (simp_all add: cid_def)

lemma push_off_eq: "push_off s = Ret () (pushed s)"
  by (cases "c_noff (cpus s (cid s)) = 0")
     (simp_all add: push_off_def pushed_def upd_cpu_def intr_enabled_def)

lemma intr_off_disables [simp]: "(x AND NOT SSTATUS_SIE) AND SSTATUS_SIE = 0"
  by (simp add: and.assoc)

lemma pushed_simps [simp]:
  "cid (pushed s) = cid s"
  "locks (pushed s) = locks s"
  "tp (pushed s) = tp s"
  "\<not> intr_enabled (cid s) (pushed s)"
  "c_noff (cpus (pushed s) (cid s)) = c_noff (cpus s (cid s)) + 1"
  "c_proc (cpus (pushed s) c) = c_proc (cpus s c)"
  by (simp_all add: pushed_def intr_enabled_def cid_def)

lemma cpu_ok_pushed [simp]: "cpu_ok s \<Longrightarrow> cpu_ok (pushed s)"
  by (auto simp: cpu_ok_def)

lemma intr_bit_restore:
  "x AND SSTATUS_SIE \<noteq> 0 \<Longrightarrow> (x AND NOT SSTATUS_SIE) OR SSTATUS_SIE = x"
  "x AND SSTATUS_SIE = 0 \<Longrightarrow> x AND NOT SSTATUS_SIE = x"
proof -
  have bit1: "bit x 1 \<longleftrightarrow> x AND SSTATUS_SIE \<noteq> 0"
    by (auto simp: SSTATUS_SIE_def bit_iff_and_push_bit_not_eq_0)
  show "x AND SSTATUS_SIE \<noteq> 0 \<Longrightarrow> (x AND NOT SSTATUS_SIE) OR SSTATUS_SIE = x"
    unfolding bit1 [symmetric] by (rule bit_word_eqI) (auto simp: SSTATUS_SIE_def bit_simps)
  show "x AND SSTATUS_SIE = 0 \<Longrightarrow> x AND NOT SSTATUS_SIE = x"
    using bit1 by (intro bit_word_eqI) (auto simp: SSTATUS_SIE_def bit_simps)
qed

text \<open>\<open>pop_off\<close> undoes \<open>push_off\<close>, also when another lock operation has nested in between.\<close>

lemma pop_off_pushed: "cpu_ok s \<Longrightarrow> pop_off (pushed s) = Ret () s"
  apply (cases "c_noff (cpus s (cid s)) = 0"; cases "intr_enabled (cid s) s")
  apply (auto simp: pop_off_def upd_cpu_def cpu_ok_def pushed_def intr_enabled_def intr_bit_restore
      intro!: machine.equality)
  done


lemma myproc_eq: "cpu_ok s \<Longrightarrow> myproc s = Ret (c_proc (cpus s (cid s))) s"
  by (simp add: myproc_def push_off_eq pop_off_pushed)

definition holds :: "lockid \<Rightarrow> nat \<Rightarrow> 'z machine_scheme \<Rightarrow> bool" where
  "holds l c s \<longleftrightarrow> lk_locked (locks s l) \<noteq> 0 \<and> lk_cpu (locks s l) = Some c"

lemma holding_eq [simp]: "holding l s = Ret (holds l (cid s) s) s"
  by (simp add: holding_def holds_def)

lemma bindK_holding [simp]: "bindK (holding l) f s = f (holds l (cid s) s) s"
  by (simp add: bindK_def)

text \<open>\<open>acquire\<close> on every branch: panic when this hart holds the lock, spin when another does.\<close>

lemma acquire_eq:
  "acquire l s =
     (if holds l (cid s) s then Panic ''acquire''
      else if lk_locked (locks s l) \<noteq> 0
      then Block (Spin l) (upd_lock l (\<lambda>k. k\<lparr>lk_locked := 1\<rparr>) (pushed s))
      else Ret () (acq l s))"
  by (simp add: acquire_def push_off_eq holds_def acq_def upd_lock_def)

lemma acquire_free: "lock_free l s \<Longrightarrow> acquire l s = Ret () (acq l s)"
  by (simp add: acquire_eq lock_free_def holds_def)

definition rel :: "lockid \<Rightarrow> 'z machine_scheme \<Rightarrow> 'z machine_scheme" where
  "rel l s = s\<lparr>
     sstatus := (if c_noff (cpus s (cid s)) = 1 \<and> c_intena (cpus s (cid s))
       then (sstatus s)(cid s := sstatus s (cid s) OR SSTATUS_SIE) else sstatus s),
     cpus := (cpus s)(cid s := (cpus s (cid s))\<lparr>c_noff := c_noff (cpus s (cid s)) - 1\<rparr>),
     locks := (locks s)(l := (locks s l)\<lparr>lk_cpu := None, lk_locked := 0\<rparr>)\<rparr>"

lemma release_eq:
  "release l s =
     (if \<not> holds l (cid s) s then Panic ''release''
      else if intr_enabled (cid s) s then Panic ''pop_off - interruptible''
      else if c_noff (cpus s (cid s)) < 1 then Panic ''pop_off''
      else Ret () (rel l s))"
  by (auto simp: release_def pop_off_def upd_lock_def upd_cpu_def intr_enabled_def rel_def
      whenK_def intro!: machine.equality)

lemma acq_simps [simp]:
  "cid (acq l s) = cid s"
  "tp (acq l s) = tp s"
  "c_proc (cpus (acq l s) c) = c_proc (cpus s c)"
  "c_noff (cpus (acq l s) (cid s)) = c_noff (cpus s (cid s)) + 1"
  "\<not> intr_enabled (cid s) (acq l s)"
  "holds l (cid s) (acq l s)"
  "l' \<noteq> l \<Longrightarrow> locks (acq l s) l' = locks s l'"
  "l' \<noteq> l \<Longrightarrow> lock_free l' (acq l s) = lock_free l' s"
  by (simp_all add: acq_def upd_lock_def intr_enabled_def holds_def lock_free_def)
     (simp_all add: pushed_def)

lemma cpu_ok_acq [simp]: "cpu_ok s \<Longrightarrow> cpu_ok (acq l s)"
  by (auto simp: cpu_ok_def)

lemma rel_acq: "cpu_ok s \<Longrightarrow> lock_free l s \<Longrightarrow> rel l (acq l s) = s"
  by (cases "c_noff (cpus s (cid s)) = 0"; cases "intr_enabled (cid s) s")
     (auto simp: rel_def acq_def upd_lock_def pushed_def cpu_ok_def lock_free_def intr_enabled_def
       intr_bit_restore intro!: machine.equality)

text \<open>A release right after the acquisition restores the machine.\<close>

lemma release_acq: "cpu_ok s \<Longrightarrow> lock_free l s \<Longrightarrow> release l (acq l s) = Ret () s"
  by (simp add: release_eq rel_acq) (simp add: cpu_ok_def)

lemma acq_commute: "l \<noteq> l' \<Longrightarrow> cpu_ok s \<Longrightarrow> acq l (acq l' s) = acq l' (acq l s)"
  by (auto simp: acq_def upd_lock_def pushed_def cpu_ok_def intr_enabled_def fun_upd_twist
      intro!: machine.equality)

lemmas lock_steps = acquire_free release_acq myproc_eq


section \<open>Several harts\<close>

text \<open>Hart \<open>c\<close> runs an operation to its end, if it returns.\<close>

definition NCPU :: nat where
  "NCPU = 8"

definition on_hart :: "nat \<Rightarrow> (unit, machine) kop \<Rightarrow> machine \<Rightarrow> machine option" where
  "on_hart c m s =
     (if c < NCPU then (case m (s\<lparr>tp := of_nat c\<rparr>) of Ret _ t \<Rightarrow> Some t | _ \<Rightarrow> None) else None)"

definition hart_acquire :: "lockid \<Rightarrow> nat \<Rightarrow> machine \<Rightarrow> machine option" where
  "hart_acquire l c = on_hart c (acquire l)"

definition hart_release :: "lockid \<Rightarrow> nat \<Rightarrow> machine \<Rightarrow> machine option" where
  "hart_release l c = on_hart c (release l)"

definition lock_owner :: "machine \<Rightarrow> lockid \<Rightarrow> nat option" where
  "lock_owner s l = lk_cpu (locks s l)"

definition held_by :: "nat \<Rightarrow> machine \<Rightarrow> lockid set" where
  "held_by c s = {l. lock_owner s l = Some c}"

text \<open>
  The invariant of the lock protocol: a lock is taken exactly when it names a hart, the
  nesting depth of a hart is the number of its locks, and a nested hart has interrupts off.
\<close>

definition spin_inv :: "machine \<Rightarrow> bool" where
  "spin_inv s \<longleftrightarrow>
     (\<forall>l. lk_locked (locks s l) = 0 \<longleftrightarrow> lock_owner s l = None) \<and>
     (\<forall>l c. lock_owner s l = Some c \<longrightarrow> c < NCPU) \<and>
     (\<forall>c < NCPU. finite (held_by c s) \<and> c_noff (cpus s c) = int (card (held_by c s)) \<and>
        (held_by c s \<noteq> {} \<longrightarrow> \<not> intr_enabled c s))"

text \<open>After boot every lock is free and no hart has interrupts pushed off.\<close>

definition spin_boot :: "machine \<Rightarrow> bool" where
  "spin_boot s \<longleftrightarrow> (\<forall>l. lock_free l s) \<and> (\<forall>c. c_noff (cpus s c) = 0)"

lemma spin_inv_boot: "spin_boot s \<Longrightarrow> spin_inv s"
  by (simp add: spin_boot_def spin_inv_def lock_free_def held_by_def lock_owner_def)

lemma cid_of_hart [simp]: "c < NCPU \<Longrightarrow> cid (s\<lparr>tp := of_nat c\<rparr>) = c"
proof -
  assume "c < NCPU"
  then have "c = 0 \<or> c = 1 \<or> c = 2 \<or> c = 3 \<or> c = 4 \<or> c = 5 \<or> c = 6 \<or> c = 7"
    unfolding NCPU_def by linarith
  then show ?thesis by (elim disjE) (simp_all add: cid_def)
qed

lemma hart_acquire_Some:
  assumes "hart_acquire l c s = Some t"
  shows "c < NCPU" and "lk_locked (locks s l) = 0" and "t = acq l (s\<lparr>tp := of_nat c\<rparr>)"
  using assms unfolding hart_acquire_def on_hart_def acquire_eq
  by (auto split: if_splits)

lemma hart_release_Some:
  assumes "hart_release l c s = Some t"
  shows "c < NCPU" and "holds l c s" and "t = rel l (s\<lparr>tp := of_nat c\<rparr>)"
    and "1 \<le> c_noff (cpus s c)" and "\<not> intr_enabled c s"
  using assms unfolding hart_release_def on_hart_def release_eq
  by (auto split: if_splits simp: holds_def intr_enabled_def)

lemma acq_owner_upd: "lock_owner (acq l s) = (lock_owner s)(l \<mapsto> cid s)"
  by (rule ext) (simp add: lock_owner_def acq_def upd_lock_def)

lemma rel_owner_upd: "lock_owner (rel l s) = (lock_owner s)(l := None)"
  by (rule ext) (simp add: lock_owner_def rel_def)

lemma spin_inv_acquire:
  assumes inv: "spin_inv s" and step: "hart_acquire l c s = Some t"
  shows "spin_inv t"
proof -
  note st = hart_acquire_Some [OF step]
  let ?s = "s\<lparr>tp := of_nat c\<rparr>"
  have free: "lock_owner s l = None" using inv st(2) by (simp add: spin_inv_def)
  have own: "lock_owner t = (lock_owner s)(l \<mapsto> c)"
    using st(1,3) acq_owner_upd [of l ?s] by (simp add: lock_owner_def fun_eq_iff)
  have held: "held_by d t = (if d = c then insert l (held_by d s) else held_by d s)" for d
    using free by (auto simp: held_by_def own)
  have lkd: "lk_locked (locks t l') = (if l' = l then 1 else lk_locked (locks s l'))" for l'
    by (simp add: st(3) acq_def upd_lock_def)
  have cs: "c_noff (cpus t d) = c_noff (cpus s d) + (if d = c then 1 else 0)" for d
    using st(1) by (simp add: st(3) acq_def upd_lock_def pushed_def)
  have ie: "intr_enabled d t = (d \<noteq> c \<and> intr_enabled d s)" for d
    using st(1) by (simp add: st(3) acq_def upd_lock_def pushed_def intr_enabled_def)
  have nin: "l \<notin> held_by c s" using free by (simp add: held_by_def)
  show ?thesis
    using inv nin st(1) unfolding spin_inv_def held lkd cs ie own by auto
qed

lemma spin_inv_release:
  assumes inv: "spin_inv s" and step: "hart_release l c s = Some t"
  shows "spin_inv t"
proof -
  note st = hart_release_Some [OF step]
  let ?s = "s\<lparr>tp := of_nat c\<rparr>"
  have own0: "lock_owner s l = Some c" using st(2) by (simp add: holds_def lock_owner_def)
  have own: "lock_owner t = (lock_owner s)(l := None)"
    using st(1,3) rel_owner_upd [of l ?s] by (simp add: lock_owner_def fun_eq_iff)
  have held: "held_by d t = (if d = c then held_by d s - {l} else held_by d s)" for d
    using own0 by (auto simp: held_by_def own)
  have lin: "l \<in> held_by c s" using own0 by (simp add: held_by_def)
  have lkd: "lk_locked (locks t l') = (if l' = l then 0 else lk_locked (locks s l'))" for l'
    by (simp add: st(3) rel_def)
  have cs: "c_noff (cpus t d) = c_noff (cpus s d) - (if d = c then 1 else 0)" for d
    using st(1) by (simp add: st(3) rel_def)
  have ie: "intr_enabled d t \<longrightarrow> intr_enabled d s \<or> (d = c \<and> c_noff (cpus s c) = 1)" for d
    using st(1) by (auto simp: st(3) rel_def intr_enabled_def split: if_splits)
  have fin: "finite (held_by c s)" and cnt: "c_noff (cpus s c) = int (card (held_by c s))"
    using inv st(1) by (auto simp: spin_inv_def)
  have card: "int (card (held_by c s - {l})) = int (card (held_by c s)) - 1"
    using fin lin by (simp add: card_Diff_singleton of_nat_diff card_gt_0_iff Suc_le_eq)
      (metis One_nat_def Suc_leI card_gt_0_iff empty_iff of_nat_1 of_nat_diff)
  have last: "c_noff (cpus s c) = 1 \<Longrightarrow> held_by c s - {l} = {}"
    using fin lin cnt by (metis card_1_singletonE insert_Diff1 Diff_cancel of_nat_1_eq_iff singletonD)
  show ?thesis
    unfolding spin_inv_def
  proof (intro conjI allI impI)
    fix l'
    show "lk_locked (locks t l') = 0 \<longleftrightarrow> lock_owner t l' = None"
      using inv by (simp add: lkd own spin_inv_def)
  next
    fix l' d
    show "lock_owner t l' = Some d \<Longrightarrow> d < NCPU"
      using inv by (auto simp: own spin_inv_def split: if_splits)
  next
    fix d assume d: "d < NCPU"
    show "finite (held_by d t)" using inv d by (simp add: held spin_inv_def)
    show "c_noff (cpus t d) = int (card (held_by d t))"
      using inv d card by (simp add: held cs spin_inv_def)
    assume ne: "held_by d t \<noteq> {}"
    show "\<not> intr_enabled d t"
    proof
      assume "intr_enabled d t"
      with ie have "intr_enabled d s \<or> (d = c \<and> c_noff (cpus s c) = 1)" by blast
      then show False
      proof
        assume "intr_enabled d s"
        moreover have "held_by d s \<noteq> {}" using ne by (auto simp: held split: if_splits)
        ultimately show False using inv d by (auto simp: spin_inv_def)
      next
        assume "d = c \<and> c_noff (cpus s c) = 1"
        with last ne show False by (simp add: held)
      qed
    qed
  qed
qed

interpretation spin: mutex hart_acquire hart_release lock_owner spin_inv
proof unfold_locales
  fix s l c t
  assume inv: "spin_inv s" and step: "hart_acquire l c s = Some t"
  note st = hart_acquire_Some [OF step]
  show "lock_owner s l = None" using inv st(2) by (simp add: spin_inv_def)
  show "lock_owner t = (lock_owner s)(l \<mapsto> c)"
    using st(1,3) acq_owner_upd [of l "s\<lparr>tp := of_nat c\<rparr>"] by (simp add: lock_owner_def fun_eq_iff)
  show "spin_inv t" using inv step by (rule spin_inv_acquire)
next
  fix s l c t
  assume inv: "spin_inv s" and step: "hart_release l c s = Some t"
  note st = hart_release_Some [OF step]
  show "lock_owner s l = Some c" using st(2) by (simp add: holds_def lock_owner_def)
  show "lock_owner t = (lock_owner s)(l := None)"
    using st(1,3) rel_owner_upd [of l "s\<lparr>tp := of_nat c\<rparr>"] by (simp add: lock_owner_def fun_eq_iff)
  show "spin_inv t" using inv step by (rule spin_inv_release)
qed


section \<open>Properties\<close>

text \<open>
  C2: However acquisitions and releases of spinlocks by the harts interleave after boot, two
  harts are never in the critical section of the same lock, and a hart in a critical section
  has its interrupts off.
\<close>

theorem spinlock_mutual_exclusion:
  assumes "spin_boot s" and "run_events hart_acquire hart_release es s = Some t"
    and "c \<in> inside es l {}" and "d \<in> inside es l {}"
  shows "c = d \<and> \<not> intr_enabled c t"
proof -
  have inv: "spin_inv s" using assms(1) by (rule spin_inv_boot)
  have own: "lock_owner s l = None"
    using assms(1) by (simp add: spin_boot_def lock_free_def lock_owner_def)
  have run: "spin_inv t" "inside es l {} = set_option (lock_owner t l)"
    using spin.run_inside_owner [OF assms(2) inv, of l] own by auto
  have "c = d" by (rule spin.at_most_one_inside [OF assms(2) inv own assms(3,4)])
  moreover have own_t: "lock_owner t l = Some c" using run(2) assms(3) by auto
  have "c < NCPU" using run(1) own_t by (simp add: spin_inv_def)
  moreover have "held_by c t \<noteq> {}" using own_t by (auto simp: held_by_def)
  ultimately show ?thesis using run(1) by (simp add: spin_inv_def)
qed

definition boot_machine :: machine where
  "boot_machine = \<lparr>tp = 0, sstatus = (\<lambda>_. SSTATUS_SIE),
     cpus = (\<lambda>_. \<lparr>c_proc = None, c_context = \<lparr>ctx_ra = 0, ctx_sp = 0, ctx_s = []\<rparr>, c_noff = 0,
       c_intena = True\<rparr>),
     locks = (\<lambda>_. \<lparr>lk_locked = 0, lk_name = [], lk_cpu = None\<rparr>)\<rparr>"

lemma spin_boot_machine: "spin_boot boot_machine"
  by (simp add: spin_boot_def boot_machine_def lock_free_def)

theorem spinlock_mutual_exclusion_witness:
  "\<exists>t. run_events hart_acquire hart_release
       [Acq Kmem_lock 0, Acq Log_lock 1, Rel Kmem_lock 0, Acq Kmem_lock 1] boot_machine = Some t \<and>
     (1::nat) \<in> inside [Acq Kmem_lock 0, Acq Log_lock 1, Rel Kmem_lock 0, Acq Kmem_lock 1] Kmem_lock {} \<and>
     \<not> intr_enabled 1 t"
proof -
  let ?es = "[Acq Kmem_lock 0, Acq Log_lock 1, Rel Kmem_lock 0, Acq Kmem_lock (1::nat)]"
  have in1: "(1::nat) \<in> inside ?es Kmem_lock {}" by simp
  have "run_events hart_acquire hart_release ?es boot_machine \<noteq> None"
    by (simp add: hart_acquire_def hart_release_def on_hart_def NCPU_def acquire_eq release_eq
        boot_machine_def acq_def rel_def upd_lock_def pushed_def holds_def cid_def intr_enabled_def)
  then obtain t where t: "run_events hart_acquire hart_release ?es boot_machine = Some t" by blast
  show ?thesis
    using t in1 spinlock_mutual_exclusion [OF spin_boot_machine t in1 in1] by blast
qed



end
