(* ===== verification/Sched.thy ===== *)
theory Sched
  imports Spinlock
begin

text \<open>
  The process table of \<^verbatim>\<open>kernel/proc.h\<close> and the scheduling half of \<^verbatim>\<open>kernel/proc.c\<close>: \<open>procinit\<close>'s
  table, \<open>allocpid\<close>, \<open>sched\<close>, \<open>yield\<close>, \<open>sleep\<close>, \<open>wakeup\<close>, \<open>wakeup1\<close>, \<open>kill\<close>, \<open>reparent\<close> and the body of
  \<open>scheduler\<close>. A call of \<^verbatim>\<open>swtch\<close> ends a piece of code with the outcome \<open>Block\<close>: the state is the
  one the scheduler of that hart sees; what the thread does when it runs again is the
  operation with the suffix \<open>_resume\<close>.

  The lemmas give the exact effect of \<open>wakeup\<close> and \<open>kill\<close> on the table and show that, however
  the harts schedule, a process never runs on two harts.
\<close>

section \<open>State\<close>

datatype procstate = UNUSED | SLEEPING | RUNNABLE | RUNNING | ZOMBIE

record proc =
  p_state :: procstate
  p_parent :: "nat option"
  p_chan :: "chan option"
  p_killed :: bool
  p_xstate :: u32
  p_pid :: u32
  p_kstack :: u64
  p_sz :: u64
  p_pagetable :: u64
  p_trapframe :: u64
  p_context :: kcontext
  p_ofile :: "nat \<Rightarrow> nat option"
  p_cwd :: "nat option"
  p_name :: "byte list"

record ptable = machine +
  procs :: "nat \<Rightarrow> proc"
  initproc :: "nat option"
  nextpid :: u32

definition NPROC :: nat where
  "NPROC = 64"

definition NOFILE :: nat where
  "NOFILE = 16"

definition upd_proc :: "nat \<Rightarrow> (proc \<Rightarrow> proc) \<Rightarrow> 'z ptable_scheme \<Rightarrow> 'z ptable_scheme" where
  "upd_proc i f s = s\<lparr>procs := (procs s)(i := f (procs s i))\<rparr>"

section \<open>Operations\<close>

definition allocpid :: "(u32, 'z ptable_scheme) kop" where
  "allocpid =
     thenK (acquire Pid_lock) (
     bindK (getK nextpid) (\<lambda>pid.
     thenK (modK (\<lambda>s. s\<lparr>nextpid := nextpid s + 1\<rparr>)) (
     thenK (release Pid_lock) (
     retK pid))))"

text \<open>
  \<open>sched\<close> up to \<^verbatim>\<open>swtch\<close>, giving the saved \<^verbatim>\<open>intena\<close>; the channel only labels the outcome. After
  the switch back it restores \<^verbatim>\<open>intena\<close>.
\<close>

definition sched :: "chan \<Rightarrow> ('a, 'z ptable_scheme) kop" where
  "sched ch =
     bindK myproc (\<lambda>p. derefK p (\<lambda>p.
     bindK (holding (Proc_lock p)) (\<lambda>h.
     if \<not> h then panicK ''sched p->lock''
     else bindK mycpu (\<lambda>c.
     bindK (getK (\<lambda>s. c_noff (cpus s c))) (\<lambda>n.
     if n \<noteq> 1 then panicK ''sched locks''
     else bindK (getK (\<lambda>s. p_state (procs s p))) (\<lambda>st.
     if st = RUNNING then panicK ''sched running''
     else bindK intr_get (\<lambda>on.
     if on then panicK ''sched interruptible''
     else blockK ch)))))))"

definition sched_resume :: "bool \<Rightarrow> (unit, 'z ptable_scheme) kop" where
  "sched_resume intena = bindK mycpu (\<lambda>c. modK (upd_cpu c (\<lambda>r. r\<lparr>c_intena := intena\<rparr>)))"

definition yield :: "('a, 'z ptable_scheme) kop" where
  "yield =
     bindK myproc (\<lambda>p. derefK p (\<lambda>p.
     thenK (acquire (Proc_lock p)) (
     thenK (modK (upd_proc p (\<lambda>r. r\<lparr>p_state := RUNNABLE\<rparr>)))
           (sched Ch_resched))))"

definition yield_resume :: "nat \<Rightarrow> bool \<Rightarrow> (unit, 'z ptable_scheme) kop" where
  "yield_resume p intena = thenK (sched_resume intena) (release (Proc_lock p))"

definition sleep :: "chan \<Rightarrow> lockid \<Rightarrow> ('a, 'z ptable_scheme) kop" where
  "sleep ch lk =
     bindK myproc (\<lambda>p. derefK p (\<lambda>p.
     thenK (whenK (lk \<noteq> Proc_lock p)
             (thenK (acquire (Proc_lock p)) (release lk))) (
     thenK (modK (upd_proc p (\<lambda>r. r\<lparr>p_chan := Some ch, p_state := SLEEPING\<rparr>)))
           (sched ch))))"

definition sleep_resume :: "nat \<Rightarrow> lockid \<Rightarrow> bool \<Rightarrow> (unit, 'z ptable_scheme) kop" where
  "sleep_resume p lk intena =
     thenK (sched_resume intena) (
     thenK (modK (upd_proc p (\<lambda>r. r\<lparr>p_chan := None\<rparr>)))
           (whenK (lk \<noteq> Proc_lock p)
             (thenK (release (Proc_lock p)) (acquire lk))))"

definition wake_one :: "chan \<Rightarrow> proc \<Rightarrow> proc" where
  "wake_one ch r =
     (if p_state r = SLEEPING \<and> p_chan r = Some ch then r\<lparr>p_state := RUNNABLE\<rparr> else r)"

definition wakeup :: "chan \<Rightarrow> (unit, 'z ptable_scheme) kop" where
  "wakeup ch =
     eachK (\<lambda>i. thenK (acquire (Proc_lock i)) (
                thenK (modK (upd_proc i (wake_one ch)))
                      (release (Proc_lock i)))) [0..<NPROC]"

definition wakeup1 :: "nat \<Rightarrow> (unit, 'z ptable_scheme) kop" where
  "wakeup1 p =
     bindK (holding (Proc_lock p)) (\<lambda>h.
     if \<not> h then panicK ''wakeup1''
     else modK (upd_proc p (wake_one (Ch_proc p))))"

definition kill_one :: "u32 \<Rightarrow> nat \<Rightarrow> (unit option, 'z ptable_scheme) kop" where
  "kill_one pid i =
     thenK (acquire (Proc_lock i)) (
     bindK (getK (\<lambda>s. p_pid (procs s i) = pid)) (\<lambda>hit.
     if hit
     then thenK (modK (upd_proc i (\<lambda>r. r\<lparr>p_killed := True,
                   p_state := (if p_state r = SLEEPING then RUNNABLE else p_state r)\<rparr>))) (
          thenK (release (Proc_lock i)) (retK (Some ())))
     else thenK (release (Proc_lock i)) (retK None)))"

definition kill :: "u32 \<Rightarrow> (int, 'z ptable_scheme) kop" where
  "kill pid =
     bindK (searchK (kill_one pid) [0..<NPROC]) (\<lambda>r.
     retK (case r of Some _ \<Rightarrow> 0 | None \<Rightarrow> -1))"

definition reparent :: "nat \<Rightarrow> (unit, 'z ptable_scheme) kop" where
  "reparent p =
     eachK (\<lambda>pp.
       bindK (getK (\<lambda>s. p_parent (procs s pp) = Some p)) (\<lambda>mine.
       whenK mine
         (thenK (acquire (Proc_lock pp)) (
          thenK (modK (\<lambda>s. upd_proc pp (\<lambda>r. r\<lparr>p_parent := initproc s\<rparr>) s))
                (release (Proc_lock pp)))))) [0..<NPROC]"

text \<open>The part of \<open>exit\<close> after the files and the directory are closed, up to its last \<^verbatim>\<open>sched()\<close>.\<close>

definition exit_tail :: "nat \<Rightarrow> u32 \<Rightarrow> ('a, 'z ptable_scheme) kop" where
  "exit_tail p status =
     bindK (getK initproc) (\<lambda>ip. derefK ip (\<lambda>ip.
     thenK (acquire (Proc_lock ip)) (
     thenK (wakeup1 ip) (
     thenK (release (Proc_lock ip)) (
     thenK (acquire (Proc_lock p)) (
     bindK (getK (\<lambda>s. p_parent (procs s p))) (\<lambda>op.
     thenK (release (Proc_lock p)) (
     derefK op (\<lambda>op.
     thenK (acquire (Proc_lock op)) (
     thenK (acquire (Proc_lock p)) (
     thenK (reparent p) (
     thenK (wakeup1 op) (
     thenK (modK (upd_proc p (\<lambda>r. r\<lparr>p_xstate := status, p_state := ZOMBIE\<rparr>))) (
     thenK (release (Proc_lock op)) (
     sched Ch_never)))))))))))))))"

text \<open>
  One round of the loop over \<^verbatim>\<open>proc[]\<close> in \<open>scheduler\<close>, split at \<^verbatim>\<open>swtch\<close>: take process \<open>i\<close> if it is
  runnable (the result says so, and its lock stays held), and what follows the switch back.
\<close>

definition scheduler_dispatch :: "nat \<Rightarrow> (bool, 'z ptable_scheme) kop" where
  "scheduler_dispatch i =
     bindK mycpu (\<lambda>c.
     thenK (acquire (Proc_lock i)) (
     bindK (getK (\<lambda>s. p_state (procs s i) = RUNNABLE)) (\<lambda>ready.
     if ready
     then thenK (modK (upd_proc i (\<lambda>r. r\<lparr>p_state := RUNNING\<rparr>))) (
          thenK (modK (upd_cpu c (\<lambda>r. r\<lparr>c_proc := Some i\<rparr>)))
                (retK True))
     else thenK (release (Proc_lock i)) (retK False))))"

definition scheduler_retire :: "nat \<Rightarrow> (unit, 'z ptable_scheme) kop" where
  "scheduler_retire i =
     bindK mycpu (\<lambda>c.
     thenK (modK (upd_cpu c (\<lambda>r. r\<lparr>c_proc := None\<rparr>)))
           (release (Proc_lock i)))"

section \<open>Closed forms\<close>

lemma ptable_acq [simp]:
  "procs (acq l s) = procs s"
  "initproc (acq l s) = initproc s"
  "nextpid (acq l s) = nextpid s"
  "(acq l s)\<lparr>procs := x\<rparr> = acq l (s\<lparr>procs := x\<rparr>)"
  "(acq l s)\<lparr>initproc := y\<rparr> = acq l (s\<lparr>initproc := y\<rparr>)"
  "(acq l s)\<lparr>nextpid := z\<rparr> = acq l (s\<lparr>nextpid := z\<rparr>)"
  by (simp_all add: acq_def upd_lock_def pushed_def cid_def intr_enabled_def)

lemma ptable_upd [simp]:
  "cid (s\<lparr>procs := x\<rparr>) = cid s"
  "cpu_ok (s\<lparr>procs := x\<rparr>) = cpu_ok s"
  "lock_free l (s\<lparr>procs := x\<rparr>) = lock_free l s"
  "cid (s\<lparr>nextpid := y\<rparr>) = cid s"
  "cpu_ok (s\<lparr>nextpid := y\<rparr>) = cpu_ok s"
  "lock_free l (s\<lparr>nextpid := y\<rparr>) = lock_free l s"
  by (simp_all add: cpu_ok_def cid_def lock_free_def intr_enabled_def)

lemma allocpid_eq:
  "cpu_ok s \<Longrightarrow> lock_free Pid_lock s \<Longrightarrow>
   allocpid s = Ret (nextpid s) (s\<lparr>nextpid := nextpid s + 1\<rparr>)"
  by (simp add: allocpid_def lock_steps)

definition proc_locks_free :: "'z ptable_scheme \<Rightarrow> bool" where
  "proc_locks_free s \<longleftrightarrow> (\<forall>i < NPROC. lock_free (Proc_lock i) s)"

lemma fold_procs:
  "fold (\<lambda>i s. s\<lparr>procs := F i (procs s)\<rparr>) is s = s\<lparr>procs := fold F is (procs s)\<rparr>"
  by (induction "is" arbitrary: s) simp_all

lemma eachK_procs:
  assumes body: "\<And>i s. i < NPROC \<Longrightarrow> cpu_ok s \<Longrightarrow> lock_free (Proc_lock i) s \<Longrightarrow>
      f i s = Ret () (upd_proc i (h i) s)"
    and "cpu_ok s" and "proc_locks_free s"
  shows "eachK f [0..<NPROC] s =
     Ret () (s\<lparr>procs := (\<lambda>i. if i < NPROC then h i (procs s i) else procs s i)\<rparr>)"
proof -
  have "eachK f [0..<NPROC] s = Ret () (fold (\<lambda>i. upd_proc i (h i)) [0..<NPROC] s)"
    using eachK_fold [where P = "\<lambda>s. cpu_ok s \<and> proc_locks_free s" and f = f
        and g = "\<lambda>i. upd_proc i (h i)" and xs = "[0..<NPROC]" and s = s] assms
    by (simp add: upd_proc_def proc_locks_free_def)
  moreover have "fold (\<lambda>i. upd_proc i (h i)) [0..<NPROC] s =
      s\<lparr>procs := fold (\<lambda>i f. f(i := h i (f i))) [0..<NPROC] (procs s)\<rparr>"
    unfolding upd_proc_def by (rule fold_procs)
  ultimately show ?thesis by (simp add: fold_fun_upd)
qed

text \<open>\<open>wakeup\<close> makes exactly the processes that sleep on the channel runnable.\<close>

lemma wakeup_eq:
  assumes "cpu_ok s" and "proc_locks_free s"
  shows "wakeup ch s = Ret () (s\<lparr>procs := (\<lambda>i. if i < NPROC then wake_one ch (procs s i) else procs s i)\<rparr>)"
  unfolding wakeup_def
  by (rule eachK_procs) (use assms in \<open>simp_all add: lock_steps upd_proc_def\<close>)

section \<open>The harts and the scheduler\<close>

text \<open>
  Where a hart is: in the loop of \<open>scheduler\<close>, just switched to process \<open>i\<close> (which still holds
  its lock), running the kernel or user code of \<open>i\<close>, or just switched back to the scheduler.
\<close>

datatype hmode = Idle | Starting nat | Running nat | Back nat

definition at_hart :: "nat \<Rightarrow> 'z machine_scheme \<Rightarrow> 'z machine_scheme" where
  "at_hart c s = s\<lparr>tp := of_nat c\<rparr>"

inductive sched_step :: "(nat \<Rightarrow> hmode) \<times> ptable \<Rightarrow> (nat \<Rightarrow> hmode) \<times> ptable \<Rightarrow> bool" where
  take: "c < NCPU \<Longrightarrow> m c = Idle \<Longrightarrow> i < NPROC \<Longrightarrow>
    scheduler_dispatch i (at_hart c s) = Ret True t \<Longrightarrow> sched_step (m, s) (m(c := Starting i), t)"
| pass: "c < NCPU \<Longrightarrow> m c = Idle \<Longrightarrow> i < NPROC \<Longrightarrow>
    scheduler_dispatch i (at_hart c s) = Ret False t \<Longrightarrow> sched_step (m, s) (m, t)"
| resume: "c < NCPU \<Longrightarrow> m c = Starting i \<Longrightarrow>
    yield_resume i b (at_hart c s) = Ret () t \<Longrightarrow> sched_step (m, s) (m(c := Running i), t)"
| awake: "c < NCPU \<Longrightarrow> m c = Starting i \<Longrightarrow>
    sleep_resume i lk b (at_hart c s) = Ret () t \<Longrightarrow> sched_step (m, s) (m(c := Running i), t)"
| yield: "c < NCPU \<Longrightarrow> m c = Running i \<Longrightarrow>
    yield (at_hart c s) = (Block Ch_resched t :: (unit, ptable) outcome) \<Longrightarrow>
    sched_step (m, s) (m(c := Back i), t)"
| sleep: "c < NCPU \<Longrightarrow> m c = Running i \<Longrightarrow> (\<And>l. ch \<noteq> Spin l) \<Longrightarrow>
    sleep ch lk (at_hart c s) = (Block ch t :: (unit, ptable) outcome) \<Longrightarrow>
    sched_step (m, s) (m(c := Back i), t)"
| exit: "c < NCPU \<Longrightarrow> m c = Running i \<Longrightarrow>
    exit_tail i status (at_hart c s) = (Block Ch_never t :: (unit, ptable) outcome) \<Longrightarrow>
    sched_step (m, s) (m(c := Back i), t)"
| retire: "c < NCPU \<Longrightarrow> m c = Back i \<Longrightarrow>
    scheduler_retire i (at_hart c s) = Ret () t \<Longrightarrow> sched_step (m, s) (m(c := Idle), t)"
| wake: "c < NCPU \<Longrightarrow> (\<And>i. m c \<noteq> Back i) \<Longrightarrow> wakeup ch (at_hart c s) = Ret () t \<Longrightarrow> sched_step (m, s) (m, t)"
| kill: "c < NCPU \<Longrightarrow> (\<And>i. m c \<noteq> Back i) \<Longrightarrow> kill pid (at_hart c s) = Ret r t \<Longrightarrow> sched_step (m, s) (m, t)"
| lock: "c < NCPU \<Longrightarrow> m c = Running i \<Longrightarrow>
    acquire l (at_hart c s) = Ret () t \<Longrightarrow> sched_step (m, s) (m, t)"
| unlock: "c < NCPU \<Longrightarrow> m c = Running i \<Longrightarrow>
    release l (at_hart c s) = Ret () t \<Longrightarrow> sched_step (m, s) (m, t)"

text \<open>
  The invariant: where a hart is agrees with its \<^verbatim>\<open>cpu->proc\<close> and with the state of that process;
  a hart that has switched back still holds the lock of the process it came from.
\<close>

definition hart_agrees :: "hmode \<Rightarrow> nat \<Rightarrow> 'z ptable_scheme \<Rightarrow> bool" where
  "hart_agrees h c s = (case h of
      Idle \<Rightarrow> c_proc (cpus s c) = None
    | Starting i \<Rightarrow> c_proc (cpus s c) = Some i \<and> p_state (procs s i) = RUNNING
    | Running i \<Rightarrow> c_proc (cpus s c) = Some i \<and> p_state (procs s i) = RUNNING
    | Back i \<Rightarrow> c_proc (cpus s c) = Some i \<and> p_state (procs s i) \<noteq> RUNNING \<and> holds (Proc_lock i) c s)"

definition sched_inv :: "(nat \<Rightarrow> hmode) \<Rightarrow> 'z ptable_scheme \<Rightarrow> bool" where
  "sched_inv m s \<longleftrightarrow>
     (\<forall>c < NCPU. hart_agrees (m c) c s) \<and>
     (\<forall>c < NCPU. \<forall>d < NCPU. \<forall>i. c_proc (cpus s c) = Some i \<longrightarrow> c_proc (cpus s d) = Some i \<longrightarrow> c = d) \<and>
     (\<forall>i. p_state (procs s i) = RUNNING \<longrightarrow> (\<exists>c < NCPU. c_proc (cpus s c) = Some i))"

subsection \<open>What the pieces keep of the invariant\<close>

abbreviation (input) inv_on :: "nat \<Rightarrow> (nat \<Rightarrow> hmode) \<Rightarrow> 'z ptable_scheme \<Rightarrow> bool" where
  "inv_on c m s \<equiv> sched_inv m s \<and> cid s = c"

lemma inv_on_at_hart: "c < NCPU \<Longrightarrow> sched_inv m s \<Longrightarrow> inv_on c m (at_hart c s)"
  by (simp add: at_hart_def sched_inv_def hart_agrees_def holds_def cong: hmode.case_cong)

lemma acquire_Ret: "acquire l s = Ret () t \<Longrightarrow> t = acq l s \<and> lk_locked (locks s l) = 0"
  by (auto simp: acquire_eq split: if_splits)

lemma release_Ret: "release l s = Ret () t \<Longrightarrow> t = rel l s \<and> holds l (cid s) s"
  by (auto simp: release_eq split: if_splits)

lemma rel_simps [simp]:
  "c_proc (cpus (rel l s) c) = c_proc (cpus s c)"
  "cid (rel l s) = cid s"
  by (simp_all add: rel_def cid_def)

lemma rel_ptable [simp]:
  "procs (rel l s) = procs s"
  "initproc (rel l s) = initproc s"
  "rel l (s\<lparr>procs := x\<rparr>) = (rel l s)\<lparr>procs := x\<rparr>"
  by (simp_all add: rel_def cid_def)

lemma holds_acq: "holds l' d (acq l s) \<longleftrightarrow> (if l' = l then d = cid s else holds l' d s)"
  by (auto simp: holds_def acq_def upd_lock_def)

lemma holds_rel: "holds l' d (rel l s) \<longleftrightarrow> l' \<noteq> l \<and> holds l' d s"
  by (simp add: holds_def rel_def)

lemma holds_upd [simp]:
  "holds l e (upd_cpu c f s) = holds l e s"
  "holds l e (upd_proc i g s) = holds l e s"
  by (simp_all add: holds_def upd_cpu_def upd_proc_def)

lemma holds_unique: "holds l c s \<Longrightarrow> holds l d s \<Longrightarrow> c = d"
  by (simp add: holds_def)

lemma keeps_acquire_inv: "keeps (inv_on c m) (acquire l)"
proof (unfold keeps_def, intro allI impI)
  fix s a t
  assume inv: "inv_on c m s" and "acquire l s = Ret a t"
  then have t: "t = acq l s" "lk_locked (locks s l) = 0" using acquire_Ret [of l s t] by auto
  then have "\<not> holds l d s" for d by (simp add: holds_def)
  then have "hart_agrees h d s \<Longrightarrow> hart_agrees h d t" for h d
    by (auto simp: hart_agrees_def t(1) holds_acq split: hmode.splits)
  with inv show "inv_on c m t" by (simp add: sched_inv_def t(1))
qed

lemma keeps_release_inv:
  assumes c: "c < NCPU" and "\<And>i. m c \<noteq> Back i"
  shows "keeps (inv_on c m) (release l)"
proof (unfold keeps_def, intro allI impI)
  fix s a t
  assume inv: "inv_on c m s" and "release l s = Ret a t"
  then have t: "t = rel l s" and h: "holds l c s" using release_Ret [of l s t] by auto
  have "hart_agrees (m d) d s \<Longrightarrow> hart_agrees (m d) d t" for d
    using h assms(2) by (auto simp: hart_agrees_def t holds_rel dest: holds_unique split: hmode.splits)
  with inv show "inv_on c m t" by (simp add: sched_inv_def t)
qed

text \<open>An update of the table that keeps who is \<open>RUNNING\<close> keeps the invariant.\<close>

lemma keeps_upd_inv:
  assumes "\<And>s r. p_state (f s r) = RUNNING \<longleftrightarrow> p_state r = RUNNING"
  shows "keeps (inv_on c m) (modK (\<lambda>s. upd_proc p (f s) s))"
proof (rule keeps_modK)
  fix s :: "'a ptable_scheme"
  assume inv: "inv_on c m s"
  have same: "p_state (procs (upd_proc p (f s) s) i) = RUNNING \<longleftrightarrow> p_state (procs s i) = RUNNING" for i
    by (simp add: upd_proc_def assms)
  have "hart_agrees h d s \<Longrightarrow> hart_agrees h d (upd_proc p (f s) s)" for h d
    using same by (auto simp: hart_agrees_def holds_def upd_proc_def split: hmode.splits)
  with inv same show "inv_on c m (upd_proc p (f s) s)"
    by (simp add: sched_inv_def) (simp add: upd_proc_def cid_def)
qed

lemma wake_one_running [simp]: "p_state (wake_one ch r) = RUNNING \<longleftrightarrow> p_state r = RUNNING"
  by (simp add: wake_one_def)

lemma keeps_holding_inv: "keeps (inv_on c m) (holding l)"
  by (simp add: keeps_def)

lemma keeps_wakeup1_inv: "keeps (inv_on c m) (wakeup1 p)"
  unfolding wakeup1_def by (intro keeps_rules keeps_holding_inv keeps_upd_inv) simp

lemma keeps_wakeup_inv:
  assumes "c < NCPU" and "\<And>i. m c \<noteq> Back i"
  shows "keeps (inv_on c m) (wakeup ch)"
  unfolding wakeup_def
  by (intro keeps_rules keeps_acquire_inv keeps_release_inv keeps_upd_inv assms) simp

lemma keeps_kill_inv:
  assumes "c < NCPU" and "\<And>i. m c \<noteq> Back i"
  shows "keeps (inv_on c m) (kill pid)"
  unfolding kill_def kill_one_def
  by (intro keeps_rules keeps_acquire_inv keeps_release_inv keeps_upd_inv assms) simp

lemma keeps_reparent_inv:
  assumes "c < NCPU" and "\<And>i. m c \<noteq> Back i"
  shows "keeps (inv_on c m) (reparent p)"
  unfolding reparent_def
  by (intro keeps_rules keeps_acquire_inv keeps_release_inv keeps_upd_inv assms) simp

text \<open>\<open>myproc\<close> changes nothing that the invariant sees.\<close>

definition same_view :: "'z ptable_scheme \<Rightarrow> 'z ptable_scheme \<Rightarrow> bool" where
  "same_view s t \<longleftrightarrow> procs t = procs s \<and> locks t = locks s \<and> cid t = cid s \<and>
     (\<forall>c. c_proc (cpus t c) = c_proc (cpus s c))"

lemma same_view_refl [simp]: "same_view s s"
  by (simp add: same_view_def)

lemma same_view_inv: "same_view s t \<Longrightarrow> inv_on c m s \<Longrightarrow> inv_on c m t"
  by (simp add: same_view_def sched_inv_def hart_agrees_def holds_def cong: hmode.case_cong)

lemma myproc_Ret:
  assumes "myproc s = Ret p t"
  shows "same_view s t \<and> p = c_proc (cpus s (cid s))"
  using assms
  by (auto simp: myproc_def push_off_eq pop_off_def thenK_eq_Ret_iff upd_cpu_def whenK_def same_view_def
      pushed_def split: if_splits)

lemma keeps_myproc_inv: "keeps (inv_on c m) myproc"
  using myproc_Ret same_view_inv unfolding keeps_def by blast

text \<open>Leaving the CPU: the code has given up \<open>RUNNING\<close> and calls \<open>sched\<close>, which checks the lock.\<close>

lemma myproc_total: "(\<exists>p t. myproc s = Ret p t) \<or> (\<exists>e. myproc s = Panic e)"
  by (auto simp: myproc_def push_off_eq pop_off_def thenK_def bindK_def whenK_def intr_on_def)

lemma sched_Block:
  assumes "sched ch s = Block ch' t" and "c_proc (cpus s (cid s)) = Some i"
  shows "same_view s t \<and> ch' = ch \<and> holds (Proc_lock i) (cid s) s \<and> p_state (procs s i) \<noteq> RUNNING"
proof -
  obtain p u where m: "myproc s = Ret p u"
    using myproc_total [of s] assms(1) by (auto simp: sched_def)
  then have u: "same_view s u" "p = Some i" using myproc_Ret [OF m] assms(2) by simp_all
  then have "holds (Proc_lock i) (cid s) u = holds (Proc_lock i) (cid s) s"
    by (simp add: same_view_def holds_def)
  then show ?thesis using assms(1) m u
    by (auto simp: sched_def same_view_def split: if_splits)
qed

lemma switch_inv:
  assumes c: "c < NCPU" and run: "m c = Running i"
  shows "leaves (inv_on c m) ch (sched_inv (m(c := Back i))) (thenK (modK (upd_proc i f)) (sched ch'))"
  unfolding leaves_def
proof (intro allI impI)
  fix s t
  assume inv: "inv_on c m s" and "thenK (modK (upd_proc i f)) (sched ch') s = (Block ch t :: ('b, 'a ptable_scheme) outcome)"
  then have blk: "sched ch' (upd_proc i f s) = (Block ch t :: ('b, 'a ptable_scheme) outcome)" by simp
  let ?s = "upd_proc i f s"
  have cp: "c_proc (cpus s c) = Some i"
    using inv c run by (auto simp: sched_inv_def hart_agrees_def split: hmode.splits)
  have *: "same_view ?s t" "holds (Proc_lock i) c ?s" "p_state (procs ?s i) \<noteq> RUNNING"
    using sched_Block [OF blk, of i] cp inv by (simp_all add: upd_proc_def)
  have t: "procs t = procs ?s" "locks t = locks s" "\<And>d. c_proc (cpus t d) = c_proc (cpus s d)"
    using *(1) by (simp_all add: same_view_def upd_proc_def)
  have other: "d < NCPU \<Longrightarrow> d \<noteq> c \<Longrightarrow> c_proc (cpus s d) \<noteq> Some i" for d
    using inv c cp by (auto simp: sched_inv_def)
  have agr: "hart_agrees ((m(c := Back i)) d) d t" if "d < NCPU" for d
  proof (cases "d = c")
    case True
    then show ?thesis using * cp t by (simp add: hart_agrees_def holds_def upd_proc_def)
  next
    case False
    then have "hart_agrees (m d) d s" using inv that by (simp add: sched_inv_def)
    then show ?thesis using False other [OF that False] t
      by (auto simp: hart_agrees_def holds_def upd_proc_def split: hmode.splits)
  qed
  have some: "\<exists>d < NCPU. c_proc (cpus t d) = Some j" if "p_state (procs t j) = RUNNING" for j
    using that * t inv by (auto simp: sched_inv_def upd_proc_def split: if_splits)
  have uniq: "c' = d" if "c' < NCPU" "d < NCPU" "c_proc (cpus t c') = Some j" "c_proc (cpus t d) = Some j" for c' d j
    using that t inv by (auto simp: sched_inv_def)
  show "sched_inv (m(c := Back i)) t" unfolding sched_inv_def using agr some uniq by blast
qed

lemma only_spins_acquire: "only_spins (acquire l)"
  by (auto simp: only_spins_def acquire_eq)

lemma only_spins_release: "only_spins (release l)"
  by (auto simp: only_spins_def release_eq)

lemma only_spins_wakeup1: "only_spins (wakeup1 p)"
  by (auto simp: only_spins_def wakeup1_def)

lemma only_spins_reparent: "only_spins (reparent p)"
  unfolding reparent_def by (intro only_spins_rules only_spins_acquire only_spins_release)

lemma myproc_leaves:
  assumes "c < NCPU" and "m c = Running i" and "leaves (inv_on c m) ch Q (f i)"
  shows "leaves (inv_on c m) ch Q (bindK myproc (\<lambda>p. derefK p f))"
  unfolding leaves_def
proof (intro allI impI)
  fix s t
  assume inv: "inv_on c m s" and blk: "bindK myproc (\<lambda>p. derefK p f) s = Block ch t"
  have cp: "c_proc (cpus s (cid s)) = Some i"
    using inv assms(1,2) by (auto simp: sched_inv_def hart_agrees_def split: hmode.splits)
  from myproc_total [of s] show "Q t"
  proof (elim disjE exE)
    fix p u assume u: "myproc s = Ret p u"
    then have "p = Some i" using myproc_Ret [OF u] cp by simp
    moreover have "inv_on c m u" by (rule keepsD [OF keeps_myproc_inv u inv])
    ultimately show ?thesis using blk u leavesD [OF assms(3), of u t] by simp
  next
    fix e assume "myproc s = Panic e"
    then show ?thesis using blk by simp
  qed
qed

lemma yield_inv:
  "c < NCPU \<Longrightarrow> m c = Running i \<Longrightarrow> leaves (inv_on c m) Ch_resched (sched_inv (m(c := Back i))) yield"
  unfolding yield_def
  by (rule myproc_leaves, assumption, assumption)
     (intro leaves_thenK [OF keeps_acquire_inv] switch_inv only_spins_acquire; simp)

lemma sleep_inv:
  assumes "c < NCPU" and "m c = Running i" and "\<And>l. ch \<noteq> Spin l"
  shows "leaves (inv_on c m) ch (sched_inv (m(c := Back i))) (sleep ch lk)"
proof -
  have nb: "\<And>j. m c \<noteq> Back j" using assms(2) by simp
  show ?thesis unfolding sleep_def
    by (intro myproc_leaves [where m = m and c = c and i = i] leaves_thenK switch_inv keeps_rules keeps_acquire_inv
        keeps_release_inv only_spins_rules only_spins_acquire only_spins_release assms nb)
qed

lemma release_upd_proc:
  "release l (upd_proc p f s) =
     (case release l s of Ret a t \<Rightarrow> Ret a (upd_proc p f t) | Panic e \<Rightarrow> Panic e
      | Block ch t \<Rightarrow> Block ch t | Diverge \<Rightarrow> Diverge)"
  by (simp add: release_eq) (simp add: upd_proc_def holds_def intr_enabled_def cid_def)

lemma upd_release_swap:
  "thenK (modK (upd_proc p f)) (thenK (release l) n) = thenK (release l) (thenK (modK (upd_proc p f)) n)"
proof
  fix s
  show "thenK (modK (upd_proc p f)) (thenK (release l) n) s = thenK (release l) (thenK (modK (upd_proc p f)) n) s"
    by (cases "release l s") (simp_all add: release_upd_proc thenK_def bindK_def)
qed

lemma exit_inv:
  assumes "c < NCPU" and "m c = Running i"
  shows "leaves (inv_on c m) Ch_never (sched_inv (m(c := Back i))) (exit_tail i status)"
proof -
  have nb: "\<And>j. m c \<noteq> Back j" using assms(2) by simp
  show ?thesis unfolding exit_tail_def upd_release_swap
    by (intro leaves_thenK leaves_getK leaves_derefK switch_inv keeps_acquire_inv keeps_wakeup1_inv
        keeps_release_inv keeps_reparent_inv only_spins_acquire only_spins_release only_spins_wakeup1
        only_spins_reparent assms nb) simp_all
qed

lemma dispatch_Ret:
  assumes "scheduler_dispatch i s = Ret b t"
  shows "lk_locked (locks s (Proc_lock i)) = 0 \<and>
    (if p_state (procs s i) = RUNNABLE
     then b \<and> t = upd_cpu (cid s) (\<lambda>r. r\<lparr>c_proc := Some i\<rparr>)
                   (upd_proc i (\<lambda>r. r\<lparr>p_state := RUNNING\<rparr>) (acq (Proc_lock i) s))
     else \<not> b \<and> release (Proc_lock i) (acq (Proc_lock i) s) = Ret () t)"
  using assms
  by (auto simp: scheduler_dispatch_def thenK_eq_Ret_iff bindK_eq_Ret_iff dest!: acquire_Ret split: if_splits)

lemma take_inv:
  assumes c: "c < NCPU" and idle: "m c = Idle" and inv: "inv_on c m s"
    and "scheduler_dispatch i s = Ret True t"
  shows "sched_inv (m(c := Starting i)) t"
proof -
  note d = dispatch_Ret [OF assms(4)]
  then have rdy: "p_state (procs s i) = RUNNABLE" by (auto split: if_splits)
  then have nohold: "\<not> holds (Proc_lock i) e s" for e using d by (simp add: holds_def)
  have free: "c_proc (cpus s e) \<noteq> Some i" if "e < NCPU" for e
  proof
    assume "c_proc (cpus s e) = Some i"
    moreover have "hart_agrees (m e) e s" using inv that by (simp add: sched_inv_def)
    ultimately show False using rdy nohold by (auto simp: hart_agrees_def split: hmode.splits)
  qed
  have procs: "procs t = (procs s)(i := (procs s i)\<lparr>p_state := RUNNING\<rparr>)"
    and cpr: "c_proc (cpus t e) = (if e = c then Some i else c_proc (cpus s e))" for e
    using d rdy inv by (simp_all add: upd_cpu_def upd_proc_def)
  have hold: "holds l e t \<longleftrightarrow> (if l = Proc_lock i then e = c else holds l e s)" for l e
    using d rdy inv by (simp add: holds_acq)
  have agr: "hart_agrees ((m(c := Starting i)) e) e t" if "e < NCPU" for e
  proof (cases "e = c")
    case True
    then show ?thesis by (simp add: hart_agrees_def procs cpr)
  next
    case False
    moreover have "hart_agrees (m e) e s" using inv that by (simp add: sched_inv_def)
    ultimately show ?thesis using free [OF that]
      by (auto simp: hart_agrees_def procs cpr hold split: hmode.splits)
  qed
  have some: "\<exists>e < NCPU. c_proc (cpus t e) = Some j" if rn: "p_state (procs t j) = RUNNING" for j
  proof (cases "j = i")
    case True
    then show ?thesis using c cpr by auto
  next
    case False
    then obtain e where "e < NCPU" "c_proc (cpus s e) = Some j"
      using inv rn by (auto simp: sched_inv_def procs)
    moreover from this have "e \<noteq> c" using inv idle by (auto simp: sched_inv_def hart_agrees_def)
    ultimately show ?thesis using cpr by auto
  qed
  have uniq: "e = e'" if "e < NCPU" "e' < NCPU" "c_proc (cpus t e) = Some j" "c_proc (cpus t e') = Some j" for e e' j
    using that free inv by (auto simp: cpr sched_inv_def split: if_splits)
  show ?thesis unfolding sched_inv_def using agr some uniq by blast
qed

lemma retire_inv:
  assumes c: "c < NCPU" and bk: "m c = Back i" and inv: "inv_on c m s"
    and "scheduler_retire i s = Ret () t"
  shows "sched_inv (m(c := Idle)) t"
proof -
  have t: "t = rel (Proc_lock i) (upd_cpu c (\<lambda>r. r\<lparr>c_proc := None\<rparr>) s)"
    using assms(4) inv by (auto simp: scheduler_retire_def dest!: release_Ret)
  have self: "c_proc (cpus s c) = Some i" "p_state (procs s i) \<noteq> RUNNING"
    using inv c bk by (auto simp: sched_inv_def hart_agrees_def split: hmode.splits)
  have procs: "procs t = procs s"
    and cpr: "c_proc (cpus t e) = (if e = c then None else c_proc (cpus s e))" for e
    using inv by (simp_all add: t upd_cpu_def)
  have hold: "holds l e t \<longleftrightarrow> l \<noteq> Proc_lock i \<and> holds l e s" for l e
    by (simp add: t holds_rel)
  have agr: "hart_agrees ((m(c := Idle)) e) e t" if "e < NCPU" for e
  proof (cases "e = c")
    case True
    then show ?thesis by (simp add: hart_agrees_def cpr)
  next
    case False
    then have "c_proc (cpus s e) \<noteq> Some i" using inv c that self(1) by (auto simp: sched_inv_def)
    moreover have "hart_agrees (m e) e s" using inv that by (simp add: sched_inv_def)
    ultimately show ?thesis using False by (auto simp: hart_agrees_def procs cpr hold split: hmode.splits)
  qed
  have some: "\<exists>e < NCPU. c_proc (cpus t e) = Some j" if rn: "p_state (procs t j) = RUNNING" for j
  proof -
    have "j \<noteq> i" using rn self(2) by (auto simp: procs)
    moreover obtain e where "e < NCPU" "c_proc (cpus s e) = Some j"
      using inv rn by (auto simp: sched_inv_def procs)
    ultimately show ?thesis using self(1) cpr by (metis option.inject)
  qed
  have uniq: "e = e'" if "e < NCPU" "e' < NCPU" "c_proc (cpus t e) = Some j" "c_proc (cpus t e') = Some j" for e e' j
    using that inv by (auto simp: cpr sched_inv_def split: if_splits)
  show ?thesis unfolding sched_inv_def using agr some uniq by blast
qed

lemma same_view_intena: "same_view s (upd_cpu e (\<lambda>r. r\<lparr>c_intena := b\<rparr>) s)"
  by (simp add: same_view_def upd_cpu_def)

lemma keeps_sched_resume_inv: "keeps (inv_on c m) (sched_resume b)"
proof -
  have "keeps (inv_on c m) (modK (upd_cpu e (\<lambda>r. r\<lparr>c_intena := b\<rparr>)))" for e
    by (rule keeps_modK) (erule same_view_inv [OF same_view_intena])
  moreover have "keeps (inv_on c m) mycpu" by (simp add: keeps_def)
  ultimately show ?thesis unfolding sched_resume_def by (intro keeps_bindK)
qed

lemma started_inv: "c < NCPU \<Longrightarrow> m c = Starting i \<Longrightarrow> sched_inv m s \<Longrightarrow> sched_inv (m(c := Running i)) s"
  by (auto simp: sched_inv_def hart_agrees_def)

lemma hart_keeps:
  assumes "c < NCPU" and "sched_inv m s" and "keeps (inv_on c m) op" and "op (at_hart c s) = Ret r t"
  shows "sched_inv m t"
  using keepsD [OF assms(3,4) inv_on_at_hart [OF assms(1,2)]] by simp

lemma hart_leaves:
  assumes "c < NCPU" and "sched_inv m s" and "leaves (inv_on c m) ch Q op" and "op (at_hart c s) = Block ch t"
  shows "Q t"
  using leavesD [OF assms(3) inv_on_at_hart [OF assms(1,2)] assms(4)] .

lemma step_inv: "sched_step x y \<Longrightarrow> sched_inv (fst x) (snd x) \<Longrightarrow> sched_inv (fst y) (snd y)"
proof (induction rule: sched_step.induct)
  case (take c m i s t)
  show ?case unfolding fst_conv snd_conv
    by (rule take_inv [where s = "at_hart c s"]) (use take inv_on_at_hart in simp_all)
next
  case (pass c m i s t)
  have "keeps (inv_on c m) (thenK (acquire (Proc_lock i)) (release (Proc_lock i)))"
    using pass by (intro keeps_rules keeps_acquire_inv keeps_release_inv) simp_all
  moreover have "thenK (acquire (Proc_lock i)) (release (Proc_lock i)) (at_hart c s) = Ret () t"
    using dispatch_Ret [OF pass(4)] by (simp add: acquire_eq holds_def split: if_splits)
  ultimately show ?case using pass hart_keeps by simp
next
  case (resume c m i b s t)
  have "keeps (inv_on c m) (yield_resume i b)" unfolding yield_resume_def
    using resume by (intro keeps_rules keeps_sched_resume_inv keeps_release_inv) simp_all
  with resume have "sched_inv m t" by (auto intro: hart_keeps)
  with resume show ?case unfolding fst_conv snd_conv by (intro started_inv)
next
  case (awake c m i lk b s t)
  have "keeps (inv_on c m) (sleep_resume i lk b)" unfolding sleep_resume_def using awake
    by (intro keeps_rules keeps_sched_resume_inv keeps_release_inv keeps_acquire_inv keeps_upd_inv) simp_all
  with awake have "sched_inv m t" by (auto intro: hart_keeps)
  with awake show ?case unfolding fst_conv snd_conv by (intro started_inv)
next
  case (yield c m i s t)
  have inv: "sched_inv m s" using yield by simp
  show ?case unfolding fst_conv snd_conv
    by (rule hart_leaves [OF yield(1) inv yield_inv [where m = m, OF yield(1,2)] yield(3)])
next
  case (sleep c m i ch lk s t)
  have inv: "sched_inv m s" using sleep by simp
  show ?case unfolding fst_conv snd_conv
    by (rule hart_leaves [OF sleep(1) inv sleep_inv [where m = m, OF sleep(1,2,3)] sleep(4)])
next
  case (exit c m i status s t)
  have inv: "sched_inv m s" using exit by simp
  show ?case unfolding fst_conv snd_conv
    by (rule hart_leaves [OF exit(1) inv exit_inv [where m = m, OF exit(1,2)] exit(3)])
next
  case (retire c m i s t)
  show ?case unfolding fst_conv snd_conv
    by (rule retire_inv [where s = "at_hart c s"]) (use retire inv_on_at_hart in simp_all)
next
  case (wake c m ch s t)
  have inv: "sched_inv m s" using wake by simp
  show ?case unfolding fst_conv snd_conv
    by (rule hart_keeps [OF wake(1) inv keeps_wakeup_inv [where m = m, OF wake(1,2)] wake(3)])
next
  case (kill c m pid s r t)
  have inv: "sched_inv m s" using kill by simp
  show ?case unfolding fst_conv snd_conv
    by (rule hart_keeps [OF kill(1) inv keeps_kill_inv [where m = m, OF kill(1,2)] kill(3)])
next
  case (lock c m i l s t)
  have inv: "sched_inv m s" using lock by simp
  show ?case unfolding fst_conv snd_conv
    by (rule hart_keeps [OF lock(1) inv keeps_acquire_inv lock(3)])
next
  case (unlock c m i l s t)
  have inv: "sched_inv m s" using unlock by simp
  show ?case unfolding fst_conv snd_conv
    by (rule hart_keeps [OF unlock(1) inv keeps_release_inv [where m = m, OF unlock(1)] unlock(3)]) (use unlock in simp)
qed

definition sched_boot :: "ptable \<Rightarrow> bool" where
  "sched_boot s \<longleftrightarrow> (\<forall>c < NCPU. c_proc (cpus s c) = None) \<and> (\<forall>i. p_state (procs s i) \<noteq> RUNNING)"

definition reachable :: "ptable \<Rightarrow> (nat \<Rightarrow> hmode) \<Rightarrow> ptable \<Rightarrow> bool" where
  "reachable s0 m s \<longleftrightarrow> sched_boot s0 \<and> sched_step\<^sup>*\<^sup>* (\<lambda>_. Idle, s0) (m, s)"

lemma reachable_inv: "reachable s0 m s \<Longrightarrow> sched_inv m s"
proof -
  assume r: "reachable s0 m s"
  have "sched_step\<^sup>*\<^sup>* x y \<Longrightarrow> sched_inv (fst x) (snd x) \<Longrightarrow> sched_inv (fst y) (snd y)" for x y
    by (induction rule: rtranclp_induct) (blast intro: step_inv)+
  moreover have "sched_inv (\<lambda>_. Idle) s0"
    using r by (simp add: reachable_def sched_boot_def sched_inv_def hart_agrees_def)
  ultimately show ?thesis using r unfolding reachable_def by fastforce
qed

subsection \<open>Sleep and wakeup\<close>

text \<open>The effect of a \<open>wakeup\<close> that returns, whatever the locks were.\<close>

lemma wakeup_body_Ret:
  "thenK (acquire (Proc_lock i)) (thenK (modK (upd_proc i f)) (release (Proc_lock i))) s = Ret () t \<Longrightarrow>
   procs t = (procs s)(i := f (procs s i))"
  by (auto simp: thenK_eq_Ret_iff upd_proc_def dest!: acquire_Ret release_Ret)

lemma wakeup_Ret:
  assumes "wakeup ch s = Ret () t" and "i < NPROC"
  shows "procs t i = wake_one ch (procs s i)"
proof -
  let ?b = "\<lambda>i. thenK (acquire (Proc_lock i)) (thenK (modK (upd_proc i (wake_one ch))) (release (Proc_lock i)))"
  have "eachK ?b xs s = Ret () t \<Longrightarrow> distinct xs \<Longrightarrow>
      procs t = (\<lambda>i. if i \<in> set xs then wake_one ch (procs s i) else procs s i)" for xs s
  proof (induction xs arbitrary: s)
    case Nil
    then show ?case by simp
  next
    case (Cons j xs)
    then obtain u where u: "?b j s = Ret () u" "eachK ?b xs u = Ret () t"
      unfolding eachK_Cons_Ret by blast
    show ?case using Cons.IH [OF u(2)] Cons.prems(2) wakeup_body_Ret [OF u(1)] by (auto simp: fun_eq_iff)
  qed
  then have "procs t = (\<lambda>i. if i \<in> set [0..<NPROC] then wake_one ch (procs s i) else procs s i)"
    using assms(1) unfolding wakeup_def by simp
  then show ?thesis using assms(2) by simp
qed

text \<open>A \<open>wakeup\<close> does not get past a process whose lock another hart holds.\<close>

lemma wakeup_waits:
  assumes "holds (Proc_lock i) c s" and "cid s \<noteq> c" and "i < NPROC"
  shows "wakeup ch s \<noteq> Ret () t"
proof
  let ?P = "\<lambda>s. holds (Proc_lock i) c s \<and> cid s \<noteq> c"
  let ?b = "\<lambda>i. thenK (acquire (Proc_lock i)) (thenK (modK (upd_proc i (wake_one ch))) (release (Proc_lock i)))"
  assume w: "wakeup ch s = Ret () t"
  have "[0..<NPROC] = [0..<i] @ i # [Suc i..<NPROC]"
    using assms(3) by (metis less_imp_le_nat upt_add_eq_append upt_conv_Cons le_add_diff_inverse zero_le)
  then obtain u v where ex: "eachK ?b [0..<i] s = Ret () u" "?b i u = Ret () v"
    using w by (auto simp only: wakeup_def eachK_append_Ret eachK_Cons_Ret)
  have "keeps ?P (acquire l)" for l
    by (auto simp: keeps_def holds_acq dest!: acquire_Ret) (simp add: holds_def)
  moreover have "keeps ?P (release l)" for l
    by (auto simp: keeps_def holds_rel dest!: release_Ret dest: holds_unique)
  moreover have "keeps ?P (modK (upd_proc j f))" for j f
    by (simp add: keeps_def) (simp add: upd_proc_def)
  ultimately have k: "keeps ?P (eachK ?b [0..<i])" by (intro keeps_rules)
  have "holds (Proc_lock i) c u" using keepsD [OF k ex(1)] assms(1,2) by blast
  then show False using ex(2) by (auto simp: thenK_eq_Ret_iff holds_def dest!: acquire_Ret)
qed

text \<open>A process that has switched away in \<open>sleep\<close> is asleep on the channel and its lock is held.\<close>

lemma sleep_asleep:
  assumes "c < NCPU" and "m c = Running i" and "\<And>l. ch \<noteq> Spin l"
  shows "leaves (inv_on c m) ch (\<lambda>t. p_state (procs t i) = SLEEPING \<and> p_chan (procs t i) = Some ch)
    (sleep ch lk :: (unit, 'z ptable_scheme) kop)"
proof -
  have nb: "\<And>j. m c \<noteq> Back j" using assms(2) by simp
  have fin: "leaves (inv_on c m) ch (\<lambda>t. p_state (procs t i) = SLEEPING \<and> p_chan (procs t i) = Some ch)
      (thenK (modK (upd_proc i (\<lambda>r. r\<lparr>p_chan := Some ch, p_state := SLEEPING\<rparr>)))
        (sched ch :: (unit, 'z ptable_scheme) kop))"
    unfolding leaves_def
  proof (intro allI impI)
    fix s t
    assume inv: "inv_on c m s" and "thenK (modK (upd_proc i (\<lambda>r. r\<lparr>p_chan := Some ch, p_state := SLEEPING\<rparr>)))
        (sched ch) s = (Block ch t :: (unit, 'z ptable_scheme) outcome)"
    then have blk: "sched ch (upd_proc i (\<lambda>r. r\<lparr>p_chan := Some ch, p_state := SLEEPING\<rparr>) s) =
        (Block ch t :: (unit, 'z ptable_scheme) outcome)" by simp
    have "c_proc (cpus s (cid s)) = Some i"
      using inv assms(1,2) by (auto simp: sched_inv_def hart_agrees_def split: hmode.splits)
    then have "same_view (upd_proc i (\<lambda>r. r\<lparr>p_chan := Some ch, p_state := SLEEPING\<rparr>) s) t"
      using sched_Block [OF blk, of i] by (simp add: upd_proc_def)
    then show "p_state (procs t i) = SLEEPING \<and> p_chan (procs t i) = Some ch"
      by (simp add: same_view_def upd_proc_def)
  qed
  show ?thesis unfolding sleep_def
    by (intro myproc_leaves [where m = m and c = c and i = i] leaves_thenK [OF _ _ _ fin] keeps_rules keeps_acquire_inv
        keeps_release_inv only_spins_rules only_spins_acquire only_spins_release assms nb)
qed

section \<open>Properties\<close>

text \<open>A booted machine with one runnable process, and a run in which hart 0 takes it up.\<close>

definition no_proc :: proc where
  "no_proc = \<lparr>p_state = UNUSED, p_parent = None, p_chan = None, p_killed = False, p_xstate = 0, p_pid = 0,
     p_kstack = 0, p_sz = 0, p_pagetable = 0, p_trapframe = 0,
     p_context = \<lparr>ctx_ra = 0, ctx_sp = 0, ctx_s = []\<rparr>, p_ofile = (\<lambda>_. None), p_cwd = None, p_name = []\<rparr>"

definition boot_ptable :: ptable where
  "boot_ptable = \<lparr>tp = 0, sstatus = (\<lambda>_. SSTATUS_SIE),
     cpus = (\<lambda>_. \<lparr>c_proc = None, c_context = \<lparr>ctx_ra = 0, ctx_sp = 0, ctx_s = []\<rparr>, c_noff = 0,
       c_intena = True\<rparr>),
     locks = (\<lambda>_. \<lparr>lk_locked = 0, lk_name = [], lk_cpu = None\<rparr>),
     procs = (\<lambda>_. no_proc)(0 := no_proc\<lparr>p_state := RUNNABLE, p_pid := 1\<rparr>),
     initproc = Some 0, nextpid = 2\<rparr>"

lemma boot_ptable_boot: "sched_boot boot_ptable"
  by (simp add: sched_boot_def boot_ptable_def no_proc_def)

lemma boot_run:
  "\<exists>t1 t2 t3 t4.
     scheduler_dispatch 0 (at_hart 0 boot_ptable) = Ret True t1 \<and>
     yield_resume 0 True (at_hart 0 t1) = Ret () t2 \<and>
     acquire Tickslock (at_hart 0 t2) = Ret () t3 \<and>
     sleep Ch_ticks Tickslock (at_hart 0 t3) = (Block Ch_ticks t4 :: (unit, ptable) outcome) \<and>
     p_state (procs t2 0) = RUNNING"
  by (simp add: scheduler_dispatch_def yield_resume_def sched_resume_def sleep_def sched_def acquire_eq
      release_eq myproc_eq cpu_ok_def boot_ptable_def no_proc_def acq_def rel_def upd_lock_def upd_cpu_def
      upd_proc_def pushed_def holds_def cid_def intr_enabled_def at_hart_def SSTATUS_SIE_def)


text \<open>
  C4: However the harts schedule, yield, sleep, wake, kill and exit after boot, no process is
  the current process of two harts, and a process whose state is \<open>RUNNING\<close> is the current process
  of exactly one hart.
\<close>

theorem process_on_one_hart:
  assumes "reachable s0 m s"
  shows "(\<forall>c < NCPU. \<forall>d < NCPU. \<forall>i. c_proc (cpus s c) = Some i \<longrightarrow> c_proc (cpus s d) = Some i \<longrightarrow> c = d) \<and>
    (\<forall>i. p_state (procs s i) = RUNNING \<longrightarrow> (\<exists>!c. c < NCPU \<and> c_proc (cpus s c) = Some i))"
proof -
  note inv = reachable_inv [OF assms, unfolded sched_inv_def]
  have "\<exists>!c. c < NCPU \<and> c_proc (cpus s c) = Some i" if rn: "p_state (procs s i) = RUNNING" for i
  proof -
    obtain c where "c < NCPU" "c_proc (cpus s c) = Some i" using inv rn by blast
    then show ?thesis using inv by (intro ex1I [of _ c]) blast+
  qed
  then show ?thesis using inv by blast
qed

theorem process_on_one_hart_witness:
  "\<exists>m s. reachable boot_ptable m s \<and> p_state (procs s 0) = RUNNING \<and>
     (\<exists>!c. c < NCPU \<and> c_proc (cpus s c) = Some 0)"
proof -
  obtain t1 t2 where d: "scheduler_dispatch 0 (at_hart 0 boot_ptable) = Ret True t1"
      and r: "yield_resume 0 True (at_hart 0 t1) = Ret () t2" and st: "p_state (procs t2 0) = RUNNING"
    using boot_run by blast
  have "reachable boot_ptable ((\<lambda>_. Idle)(0 := Starting 0, 0 := Running 0)) t2"
    using boot_ptable_boot sched_step.take [OF _ _ _ d, of "\<lambda>_. Idle"]
      sched_step.resume [OF _ _ r, of "(\<lambda>_. Idle)(0 := Starting 0)"]
    by (auto simp: reachable_def NCPU_def NPROC_def intro: converse_rtranclp_into_rtranclp)
  then show ?thesis using process_on_one_hart [of boot_ptable _ t2] st by blast
qed



end
