(* ===== verification/Sleeplock.thy ===== *)
theory Sleeplock
  imports Sched
begin

text \<open>
  \<^verbatim>\<open>kernel/sleeplock.c\<close>: the long-term locks of buffers and inodes. The loop of \<open>acquiresleep\<close>
  is one operation, entered with the inner spinlock held, so that it is also what runs when
  \<^verbatim>\<open>sleep()\<close> returns. With the check of \<open>holdingsleep\<close> that every caller of \<open>releasesleep\<close> makes
  (\<^verbatim>\<open>brelse\<close>, \<^verbatim>\<open>iunlock\<close>) the locks keep the contract of a mutual-exclusion lock.
\<close>

section \<open>Definitions\<close>

record sleeplock =
  sl_locked :: u32
  sl_name :: string
  sl_pid :: u32

record sleeplocks = ptable +
  slocks :: "slockid \<Rightarrow> sleeplock"

definition upd_slock :: "slockid \<Rightarrow> (sleeplock \<Rightarrow> sleeplock) \<Rightarrow> 'z sleeplocks_scheme \<Rightarrow> 'z sleeplocks_scheme" where
  "upd_slock i f s = s\<lparr>slocks := (slocks s)(i := f (slocks s i))\<rparr>"

definition initsleeplock :: "slockid \<Rightarrow> string \<Rightarrow> (unit, 'z sleeplocks_scheme) kop" where
  "initsleeplock i name =
     thenK (initlock (Sleeplk i) ''sleep lock'')
           (modK (upd_slock i (\<lambda>_. \<lparr>sl_locked = 0, sl_name = name, sl_pid = 0\<rparr>)))"

definition myproc_pid :: "(u32, 'z sleeplocks_scheme) kop" where
  "myproc_pid = bindK myproc (\<lambda>p. derefK p (\<lambda>p. getK (\<lambda>s. p_pid (procs s p))))"

definition acquiresleep_loop :: "slockid \<Rightarrow> (unit, 'z sleeplocks_scheme) kop" where
  "acquiresleep_loop i =
     bindK (getK (\<lambda>s. sl_locked (slocks s i))) (\<lambda>locked.
     if locked \<noteq> 0 then sleep (Ch_sleeplock i) (Sleeplk i)
     else thenK (modK (upd_slock i (\<lambda>r. r\<lparr>sl_locked := 1\<rparr>))) (
          bindK myproc_pid (\<lambda>pid.
          thenK (modK (upd_slock i (\<lambda>r. r\<lparr>sl_pid := pid\<rparr>)))
                (release (Sleeplk i)))))"

definition acquiresleep :: "slockid \<Rightarrow> (unit, 'z sleeplocks_scheme) kop" where
  "acquiresleep i = thenK (acquire (Sleeplk i)) (acquiresleep_loop i)"

definition releasesleep :: "slockid \<Rightarrow> (unit, 'z sleeplocks_scheme) kop" where
  "releasesleep i =
     thenK (acquire (Sleeplk i)) (
     thenK (modK (upd_slock i (\<lambda>r. r\<lparr>sl_locked := 0, sl_pid := 0\<rparr>))) (
     thenK (wakeup (Ch_sleeplock i))
           (release (Sleeplk i))))"

definition holdingsleep :: "slockid \<Rightarrow> (bool, 'z sleeplocks_scheme) kop" where
  "holdingsleep i =
     thenK (acquire (Sleeplk i)) (
     bindK (getK (\<lambda>s. slocks s i)) (\<lambda>k.
     bindK (if sl_locked k \<noteq> 0 then bindK myproc_pid (\<lambda>pid. retK (sl_pid k = pid)) else retK False) (\<lambda>r.
     thenK (release (Sleeplk i)) (
     retK r))))"

section \<open>Closed forms\<close>

lemma slocks_acq [simp]:
  "slocks (acq l s) = slocks s"
  "(acq l s)\<lparr>slocks := x\<rparr> = acq l (s\<lparr>slocks := x\<rparr>)"
  by (simp_all add: acq_def upd_lock_def pushed_def cid_def intr_enabled_def)

lemma slocks_upd [simp]:
  "cid (s\<lparr>slocks := x\<rparr>) = cid s"
  "cpu_ok (s\<lparr>slocks := x\<rparr>) = cpu_ok s"
  "lock_free l (s\<lparr>slocks := x\<rparr>) = lock_free l s"
  "proc_locks_free (s\<lparr>slocks := x\<rparr>) = proc_locks_free s"
  by (simp_all add: cpu_ok_def cid_def lock_free_def intr_enabled_def proc_locks_free_def)

lemma proc_locks_free_acq [simp]:
  "(\<And>i. Proc_lock i \<noteq> l) \<Longrightarrow> proc_locks_free (acq l s) = proc_locks_free s"
  by (simp add: proc_locks_free_def)

text \<open>The table after \<open>wakeup(ch)\<close>.\<close>

definition woken :: "chan \<Rightarrow> (nat \<Rightarrow> proc) \<Rightarrow> nat \<Rightarrow> proc" where
  "woken ch ps = (\<lambda>i. if i < NPROC then wake_one ch (ps i) else ps i)"

lemma wakeup_woken:
  "cpu_ok s \<Longrightarrow> proc_locks_free s \<Longrightarrow> wakeup ch s = Ret () (s\<lparr>procs := woken ch (procs s)\<rparr>)"
  by (simp add: wakeup_eq woken_def)

lemma woken_pid [simp]: "p_pid (woken ch ps i) = p_pid (ps i)"
  by (simp add: woken_def wake_one_def)

abbreviation (input) current :: "nat \<Rightarrow> 'z machine_scheme \<Rightarrow> bool" where
  "current p s \<equiv> c_proc (cpus s (cid s)) = Some p"

lemma myproc_pid_eq:
  "cpu_ok s \<Longrightarrow> current p s \<Longrightarrow> myproc_pid s = Ret (p_pid (procs s p)) s"
  by (simp add: myproc_pid_def myproc_eq)

text \<open>Taking a free sleep-lock, giving one back, and asking who holds it.\<close>

lemma acquiresleep_eq:
  assumes "cpu_ok s" and "lock_free (Sleeplk i) s" and "current p s" and "sl_locked (slocks s i) = 0"
  shows "acquiresleep i s =
    Ret () (upd_slock i (\<lambda>r. r\<lparr>sl_locked := 1, sl_pid := p_pid (procs s p)\<rparr>) s)"
  using assms
  by (simp add: acquiresleep_def acquiresleep_loop_def lock_steps upd_slock_def myproc_pid_eq)

lemma releasesleep_eq:
  assumes "cpu_ok s" and "lock_free (Sleeplk i) s" and "proc_locks_free s"
  shows "releasesleep i s =
    Ret () ((upd_slock i (\<lambda>r. r\<lparr>sl_locked := 0, sl_pid := 0\<rparr>) s)\<lparr>procs := woken (Ch_sleeplock i) (procs s)\<rparr>)"
  using assms by (simp add: releasesleep_def lock_steps upd_slock_def wakeup_woken)

lemma holdingsleep_eq:
  assumes "cpu_ok s" and "lock_free (Sleeplk i) s" and "current p s"
  shows "holdingsleep i s =
    Ret (sl_locked (slocks s i) \<noteq> 0 \<and> sl_pid (slocks s i) = p_pid (procs s p)) s"
  using assms by (simp add: holdingsleep_def lock_steps myproc_pid_eq bindK_def)

lemma sched_not_Ret [simp]: "sched ch s \<noteq> Ret a t"
  by (cases "myproc s") (auto simp: sched_def derefK_def bindK_def split: option.splits if_splits outcome.splits)

lemma sleep_not_Ret [simp]: "sleep ch lk s \<noteq> Ret a t"
  by (auto simp: sleep_def bindK_eq_Ret_iff thenK_eq_Ret_iff derefK_def split: option.splits)

text \<open>A taken sleep-lock is not taken again.\<close>

lemma acquiresleep_taken:
  "lock_free (Sleeplk i) s \<Longrightarrow> sl_locked (slocks s i) \<noteq> 0 \<Longrightarrow> acquiresleep i s \<noteq> Ret () t"
  by (simp add: acquiresleep_def acquiresleep_loop_def acquire_free sleep_not_Ret)

section \<open>Sleep-locks as mutual exclusion\<close>

text \<open>A process, named by its pid, runs a lock operation on the executing hart.\<close>

definition proc_of :: "u32 \<Rightarrow> 'z sleeplocks_scheme \<Rightarrow> nat option" where
  "proc_of pid s = find (\<lambda>i. p_pid (procs s i) = pid) [0..<NPROC]"

definition run_as :: "nat \<Rightarrow> 'z sleeplocks_scheme \<Rightarrow> 'z sleeplocks_scheme" where
  "run_as p s = upd_cpu (cid s) (\<lambda>r. r\<lparr>c_proc := Some p\<rparr>) s"

definition as_proc :: "u32 \<Rightarrow> (unit, sleeplocks) kop \<Rightarrow> sleeplocks \<Rightarrow> sleeplocks option" where
  "as_proc pid m s =
     (case proc_of pid s of None \<Rightarrow> None
      | Some p \<Rightarrow> (case m (run_as p s) of Ret _ t \<Rightarrow> Some t | _ \<Rightarrow> None))"

definition proc_acquiresleep :: "slockid \<Rightarrow> u32 \<Rightarrow> sleeplocks \<Rightarrow> sleeplocks option" where
  "proc_acquiresleep i pid = as_proc pid (acquiresleep i)"

text \<open>\<^verbatim>\<open>if(!holdingsleep(&b->lock)) panic(...); releasesleep(&b->lock)\<close>, as \<^verbatim>\<open>brelse\<close> and \<^verbatim>\<open>iunlock\<close> have it.\<close>

definition proc_releasesleep :: "slockid \<Rightarrow> u32 \<Rightarrow> sleeplocks \<Rightarrow> sleeplocks option" where
  "proc_releasesleep i pid =
     as_proc pid (bindK (holdingsleep i) (\<lambda>h. if \<not> h then panicK ''brelse'' else releasesleep i))"

definition sleep_owner :: "sleeplocks \<Rightarrow> slockid \<Rightarrow> u32 option" where
  "sleep_owner s i = (if sl_locked (slocks s i) = 0 then None else Some (sl_pid (slocks s i)))"

definition quiet :: "'z machine_scheme \<Rightarrow> bool" where
  "quiet s \<longleftrightarrow> cpu_ok s \<and> (\<forall>l. lock_free l s)"

lemma quietD: "quiet s \<Longrightarrow> cpu_ok s" "quiet s \<Longrightarrow> lock_free l s"
  by (simp_all add: quiet_def)

lemma quiet_proc_locks [simp]: "quiet s \<Longrightarrow> proc_locks_free s"
  by (simp add: quiet_def proc_locks_free_def)

lemma run_as_simps [simp]:
  "quiet (run_as p s) = quiet s"
  "c_proc (cpus (run_as p s) (cid s)) = Some p"
  "slocks (run_as p s) = slocks s"
  "procs (run_as p s) = procs s"
  "cid (run_as p s) = cid s"
  by (auto simp add: run_as_def upd_cpu_def quiet_def cpu_ok_def lock_free_def intr_enabled_def)

lemma upd_slock_simps [simp]:
  "slocks (upd_slock i f s) = (slocks s)(i := f (slocks s i))"
  "procs (upd_slock i f s) = procs s"
  by (simp_all add: upd_slock_def)

lemma proc_of_pid: "proc_of pid s = Some p \<Longrightarrow> p_pid (procs s p) = pid"
  by (auto simp: proc_of_def find_Some_iff)

lemma proc_acquiresleep_eq:
  assumes "quiet s" and "proc_of pid s = Some p" and "sl_locked (slocks s i) = 0"
  shows "proc_acquiresleep i pid s = Some (upd_slock i (\<lambda>r. r\<lparr>sl_locked := 1, sl_pid := pid\<rparr>) (run_as p s))"
  using acquiresleep_eq [of "run_as p s" i p] quietD [of "run_as p s"] assms proc_of_pid [OF assms(2)]
  by (simp add: proc_acquiresleep_def as_proc_def)

lemma proc_releasesleep_eq:
  assumes "quiet s" and "proc_of pid s = Some p" and "sl_locked (slocks s i) \<noteq> 0" and "sl_pid (slocks s i) = pid"
  shows "proc_releasesleep i pid s =
    Some ((upd_slock i (\<lambda>r. r\<lparr>sl_locked := 0, sl_pid := 0\<rparr>) (run_as p s))\<lparr>procs := woken (Ch_sleeplock i) (procs s)\<rparr>)"
  using releasesleep_eq [of "run_as p s" i] holdingsleep_eq [of "run_as p s" i p] quietD [of "run_as p s"]
    assms proc_of_pid [OF assms(2)]
  by (simp add: proc_releasesleep_def as_proc_def bindK_def)

lemma proc_acquiresleep_Some:
  assumes "quiet s" and "proc_acquiresleep i pid s = Some t"
  shows "\<exists>p. sl_locked (slocks s i) = 0 \<and> t = upd_slock i (\<lambda>r. r\<lparr>sl_locked := 1, sl_pid := pid\<rparr>) (run_as p s)"
proof -
  obtain p where p: "proc_of pid s = Some p" "acquiresleep i (run_as p s) = Ret () t"
    using assms(2) by (auto simp: proc_acquiresleep_def as_proc_def split: option.splits outcome.splits)
  have free: "sl_locked (slocks s i) = 0"
    using acquiresleep_taken [of i "run_as p s" t] p(2) quietD(2) [of "run_as p s"] assms(1) by auto
  then show ?thesis using proc_acquiresleep_eq [OF assms(1) p(1)] assms(2) by auto
qed

lemma proc_releasesleep_Some:
  assumes "quiet s" and "proc_releasesleep i pid s = Some t"
  shows "\<exists>p. sl_locked (slocks s i) \<noteq> 0 \<and> sl_pid (slocks s i) = pid \<and>
    t = (upd_slock i (\<lambda>r. r\<lparr>sl_locked := 0, sl_pid := 0\<rparr>) (run_as p s))\<lparr>procs := woken (Ch_sleeplock i) (procs s)\<rparr>"
proof -
  obtain p where p: "proc_of pid s = Some p"
      "bindK (holdingsleep i) (\<lambda>h. if \<not> h then panicK ''brelse'' else releasesleep i) (run_as p s) = Ret () t"
    using assms(2) by (auto simp: proc_releasesleep_def as_proc_def split: option.splits outcome.splits)
  have q: "cpu_ok (run_as p s)" "lock_free (Sleeplk i) (run_as p s)" "proc_locks_free (run_as p s)"
    using assms(1) quietD [of "run_as p s"] by simp_all
  have "holdingsleep i (run_as p s) =
      Ret (sl_locked (slocks s i) \<noteq> 0 \<and> sl_pid (slocks s i) = pid) (run_as p s)"
    using holdingsleep_eq [OF q(1,2), of p] proc_of_pid [OF p(1)] by simp
  then show ?thesis
    using p(2) releasesleep_eq [OF q] by (auto simp: bindK_def split: if_splits)
qed

lemma quiet_upd [simp]:
  "quiet (upd_slock i f s) = quiet s"
  "quiet (x\<lparr>procs := y\<rparr>) = quiet x"
  by (simp_all add: quiet_def upd_slock_def)

interpretation slp: mutex proc_acquiresleep proc_releasesleep sleep_owner quiet
proof
  fix s t :: sleeplocks and l c
  assume q: "quiet s"
  {
    assume a: "proc_acquiresleep l c s = Some t"
    obtain p where p: "sl_locked (slocks s l) = 0"
        "t = upd_slock l (\<lambda>r. r\<lparr>sl_locked := 1, sl_pid := c\<rparr>) (run_as p s)"
      using proc_acquiresleep_Some [OF q a] by blast
    show "sleep_owner s l = None" using p by (simp add: sleep_owner_def)
    show "sleep_owner t = (sleep_owner s)(l \<mapsto> c)"
      using p by (simp add: sleep_owner_def upd_slock_def fun_eq_iff)
    show "quiet t" using p q by simp
  next
    assume r: "proc_releasesleep l c s = Some t"
    obtain p where p: "sl_locked (slocks s l) \<noteq> 0" "sl_pid (slocks s l) = c"
        "t = (upd_slock l (\<lambda>r. r\<lparr>sl_locked := 0, sl_pid := 0\<rparr>) (run_as p s))
          \<lparr>procs := woken (Ch_sleeplock l) (procs s)\<rparr>"
      using proc_releasesleep_Some [OF q r] by blast
    show "sleep_owner s l = Some c" using p by (simp add: sleep_owner_def)
    show "sleep_owner t = (sleep_owner s)(l := None)"
      using p by (simp add: sleep_owner_def upd_slock_def fun_eq_iff)
    show "quiet t" using p q by simp
  }
qed

section \<open>Properties\<close>


definition boot_sleeplocks :: sleeplocks where
  "boot_sleeplocks = \<lparr>tp = 0, sstatus = (\<lambda>_. SSTATUS_SIE),
     cpus = (\<lambda>_. \<lparr>c_proc = None, c_context = \<lparr>ctx_ra = 0, ctx_sp = 0, ctx_s = []\<rparr>, c_noff = 0,
       c_intena = True\<rparr>),
     locks = (\<lambda>_. \<lparr>lk_locked = 0, lk_name = [], lk_cpu = None\<rparr>),
     procs = (\<lambda>_. no_proc)(0 := no_proc\<lparr>p_state := RUNNABLE, p_pid := 1\<rparr>,
       1 := no_proc\<lparr>p_state := RUNNABLE, p_pid := 2\<rparr>),
     initproc = Some 0, nextpid = 3,
     slocks = (\<lambda>_. \<lparr>sl_locked = 0, sl_name = ''buffer'', sl_pid = 0\<rparr>)\<rparr>"

lemma boot_sleeplocks_quiet: "quiet boot_sleeplocks"
  by (simp add: quiet_def boot_sleeplocks_def cpu_ok_def lock_free_def intr_enabled_def cid_def SSTATUS_SIE_def)


end
