(* ===== verification/Alloc_Spec.thy ===== *)
theory Alloc_Spec
  imports Prelude
begin

text \<open>
  The contract of an allocator, as a locale: \<open>alloc\<close> hands out an available item or reports that
  there is none, \<open>free\<close> makes an item available again. The client lemma follows once for every
  allocator that keeps the contract: in any sequence of allocations and releases of live items,
  no item is handed out while it is live, and live and available items never overlap. The
  physical page allocator and the descriptors of the disk driver are its instances.
\<close>

datatype 'a alloc_event = Took 'a | Gave 'a

text \<open>The items a client holds, read off the history; a release of an item not held ends it.\<close>

primrec live :: "'a alloc_event list \<Rightarrow> 'a set \<Rightarrow> 'a set option" where
  "live [] L = Some L"
| "live (e # es) L =
     (case e of Took a \<Rightarrow> live es (insert a L)
              | Gave a \<Rightarrow> (if a \<in> L then live es (L - {a}) else None))"

text \<open>The history of allocations and releases an execution makes.\<close>

inductive alloc_run ::
  "('s \<Rightarrow> ('a option \<times> 's) option) \<Rightarrow> ('a \<Rightarrow> 's \<Rightarrow> 's option) \<Rightarrow> 's \<Rightarrow> 'a alloc_event list \<Rightarrow> 's \<Rightarrow> bool"
  for alloc free where
  run_stop: "alloc_run alloc free s [] s"
| run_took: "alloc s = Some (Some a, t) \<Longrightarrow> alloc_run alloc free t es u \<Longrightarrow> alloc_run alloc free s (Took a # es) u"
| run_full: "alloc s = Some (None, t) \<Longrightarrow> alloc_run alloc free t es u \<Longrightarrow> alloc_run alloc free s es u"
| run_gave: "free a s = Some t \<Longrightarrow> alloc_run alloc free t es u \<Longrightarrow> alloc_run alloc free s (Gave a # es) u"

text \<open>Every allocation of the history hands out an item that is not live at that point.\<close>

primrec never_twice :: "'a alloc_event list \<Rightarrow> 'a set \<Rightarrow> bool" where
  "never_twice [] L \<longleftrightarrow> True"
| "never_twice (e # es) L \<longleftrightarrow>
     (case e of Took a \<Rightarrow> a \<notin> L \<and> never_twice es (insert a L) | Gave a \<Rightarrow> never_twice es (L - {a}))"

locale allocator =
  fixes alloc :: "'s \<Rightarrow> ('a option \<times> 's) option"
    and free :: "'a \<Rightarrow> 's \<Rightarrow> 's option"
    and avail :: "'s \<Rightarrow> 'a set"
    and inv :: "'s \<Rightarrow> bool"
  assumes alloc_some: "inv s \<Longrightarrow> alloc s = Some (Some a, t) \<Longrightarrow> a \<in> avail s \<and> avail t = avail s - {a} \<and> inv t"
    and alloc_none: "inv s \<Longrightarrow> alloc s = Some (None, t) \<Longrightarrow> avail s = {} \<and> avail t = {} \<and> inv t"
    and free_some: "inv s \<Longrightarrow> a \<notin> avail s \<Longrightarrow> free a s = Some t \<Longrightarrow> avail t = insert a (avail s) \<and> inv t"
begin

lemma run_never_twice:
  assumes "alloc_run alloc free s es u" and "inv s" and "L \<inter> avail s = {}" and "live es L = Some L'"
  shows "never_twice es L \<and> L' \<inter> avail u = {} \<and> inv u"
  using assms
proof (induction arbitrary: L rule: alloc_run.induct)
  case (run_stop s)
  then show ?case by simp
next
  case (run_took s a t es u)
  have t: "a \<in> avail s" "avail t = avail s - {a}" "inv t"
    using alloc_some [OF run_took.prems(1) run_took.hyps(1)] by simp_all
  have "insert a L \<inter> avail t = {}" using t(2) run_took.prems(2) by blast
  moreover have "live es (insert a L) = Some L'" using run_took.prems(3) by simp
  ultimately have "never_twice es (insert a L) \<and> L' \<inter> avail u = {} \<and> inv u"
    by (rule run_took.IH [OF t(3)])
  moreover have "a \<notin> L" using t(1) run_took.prems(2) by blast
  ultimately show ?case by simp
next
  case (run_full s t es u)
  have t: "avail t = {}" "inv t" using alloc_none [OF run_full.prems(1) run_full.hyps(1)] by simp_all
  show ?case by (rule run_full.IH [OF t(2) _ run_full.prems(3)]) (simp add: t)
next
  case (run_gave a s t es u)
  have a: "a \<in> L" "live es (L - {a}) = Some L'" using run_gave.prems(3) by (simp_all split: if_splits)
  then have "a \<notin> avail s" using run_gave.prems(2) by blast
  then have t: "avail t = insert a (avail s)" "inv t"
    using free_some [OF run_gave.prems(1) _ run_gave.hyps(1)] by simp_all
  have "(L - {a}) \<inter> avail t = {}" using t(1) run_gave.prems(2) by blast
  then have "never_twice es (L - {a}) \<and> L' \<inter> avail u = {} \<and> inv u"
    by (rule run_gave.IH [OF t(2) _ a(2)])
  then show ?case by simp
qed

end

end
