(* ===== verification/Kalloc.thy ===== *)
theory Kalloc
  imports Sleeplock Kstring Alloc_Spec
begin

text \<open>
  \<^verbatim>\<open>kernel/kalloc.c\<close>: the allocator of physical pages. The free list is threaded through the
  free pages themselves, in RAM. The linker symbol \<^verbatim>\<open>end\<close> (the first address after the kernel) is a
  constant field of the state. The lemmas show that the list in memory always is a chain of
  distinct, aligned pages between \<^verbatim>\<open>end\<close> and \<open>PHYSTOP\<close>, and that allocation and release refine
  taking from and putting on that list.
\<close>

section \<open>Definitions\<close>

definition PGSIZE :: u64 where
  "PGSIZE = 4096"

definition KERNBASE :: u64 where
  "KERNBASE = 0x80000000"

definition PHYSTOP :: u64 where
  "PHYSTOP = KERNBASE + 128 * 1024 * 1024"

definition PGROUNDUP :: "u64 \<Rightarrow> u64" where
  "PGROUNDUP sz = (sz + PGSIZE - 1) AND NOT (PGSIZE - 1)"

definition PGROUNDDOWN :: "u64 \<Rightarrow> u64" where
  "PGROUNDDOWN a = a AND NOT (PGSIZE - 1)"

record kmem = sleeplocks +
  mem :: ram
  freelist :: u64
  kend :: u64

definition kfree :: "u64 \<Rightarrow> (unit, 'z kmem_scheme) kop" where
  "kfree pa =
     bindK (getK kend) (\<lambda>e.
     if pa mod PGSIZE \<noteq> 0 \<or> pa < e \<or> pa \<ge> PHYSTOP then panicK ''kfree''
     else thenK (modK (\<lambda>s. s\<lparr>mem := memset (mem s) pa 1 (ucast PGSIZE)\<rparr>)) (
          thenK (acquire Kmem_lock) (
          thenK (modK (\<lambda>s. s\<lparr>mem := st64 (mem s) pa (freelist s)\<rparr>)) (
          thenK (modK (\<lambda>s. s\<lparr>freelist := pa\<rparr>))
                (release Kmem_lock)))))"

definition kalloc :: "(u64, 'z kmem_scheme) kop" where
  "kalloc =
     thenK (acquire Kmem_lock) (
     bindK (getK freelist) (\<lambda>r.
     thenK (whenK (r \<noteq> 0) (modK (\<lambda>s. s\<lparr>freelist := ld64 (mem s) r\<rparr>))) (
     thenK (release Kmem_lock) (
     thenK (whenK (r \<noteq> 0) (modK (\<lambda>s. s\<lparr>mem := memset (mem s) r 5 (ucast PGSIZE)\<rparr>)))
           (retK r)))))"

text \<open>
  The loop of \<open>freerange\<close>. When the pointer would wrap around the address space \<open>kfree\<close> has already
  panicked, since such a page is above \<open>PHYSTOP\<close>; the guard only makes the recursion terminate.
\<close>

function freerange_loop :: "u64 \<Rightarrow> u64 \<Rightarrow> (unit, 'z kmem_scheme) kop" where
  "freerange_loop p pa_end =
     (if p + PGSIZE \<le> pa_end
      then thenK (kfree p) (if p < p + PGSIZE then freerange_loop (p + PGSIZE) pa_end else divergeK)
      else retK ())"
  by pat_completeness auto
termination
proof (relation "measure (\<lambda>(p, e). unat e - unat p)")
  fix p e :: u64
  assume "p + PGSIZE \<le> e" and "p < p + PGSIZE"
  then show "((p + PGSIZE, e), p, e) \<in> measure (\<lambda>(p, e). unat e - unat p)"
    by (simp add: word_le_nat_alt word_less_nat_alt)
qed simp

declare freerange_loop.simps [simp del]

definition freerange :: "u64 \<Rightarrow> u64 \<Rightarrow> (unit, 'z kmem_scheme) kop" where
  "freerange pa_start pa_end = freerange_loop (PGROUNDUP pa_start) pa_end"

definition kinit :: "(unit, 'z kmem_scheme) kop" where
  "kinit =
     thenK (initlock Kmem_lock ''kmem'') (
     bindK (getK kend) (\<lambda>e. freerange e PHYSTOP))"

section \<open>The chain of free pages\<close>

primrec chain :: "ram \<Rightarrow> u64 \<Rightarrow> u64 list \<Rightarrow> bool" where
  "chain m a [] \<longleftrightarrow> a = 0"
| "chain m a (x # xs) \<longleftrightarrow> a = x \<and> x \<noteq> 0 \<and> chain m (ld64 m x) xs"

definition page_ok :: "u64 \<Rightarrow> u64 \<Rightarrow> bool" where
  "page_ok e p \<longleftrightarrow> p mod PGSIZE = 0 \<and> e \<le> p \<and> p < PHYSTOP \<and> p \<noteq> 0"

definition free_list :: "'z kmem_scheme \<Rightarrow> u64 list \<Rightarrow> bool" where
  "free_list s xs \<longleftrightarrow> chain (mem s) (freelist s) xs \<and> distinct xs \<and> (\<forall>x \<in> set xs. page_ok (kend s) x)"

lemma kmem_acq [simp]:
  "mem (acq l s) = mem s"
  "freelist (acq l s) = freelist s"
  "kend (acq l s) = kend s"
  "(acq l s)\<lparr>mem := x\<rparr> = acq l (s\<lparr>mem := x\<rparr>)"
  "(acq l s)\<lparr>freelist := y\<rparr> = acq l (s\<lparr>freelist := y\<rparr>)"
  by (simp_all add: acq_def upd_lock_def pushed_def cid_def intr_enabled_def)

lemma kmem_upd [simp]:
  "cid (s\<lparr>mem := x\<rparr>) = cid s"
  "cpu_ok (s\<lparr>mem := x\<rparr>) = cpu_ok s"
  "lock_free l (s\<lparr>mem := x\<rparr>) = lock_free l s"
  "cid (s\<lparr>freelist := y\<rparr>) = cid s"
  "cpu_ok (s\<lparr>freelist := y\<rparr>) = cpu_ok s"
  "lock_free l (s\<lparr>freelist := y\<rparr>) = lock_free l s"
  by (simp_all add: cpu_ok_def cid_def lock_free_def intr_enabled_def)

lemma chain_unique: "chain m a xs \<Longrightarrow> chain m a ys \<Longrightarrow> xs = ys"
proof (induction xs arbitrary: a ys)
  case Nil
  then show ?case by (cases ys) auto
next
  case (Cons x xs)
  then show ?case by (cases ys) auto
qed

lemma chain_cong:
  "chain m a xs \<Longrightarrow> (\<And>x. x \<in> set xs \<Longrightarrow> ld64 m' x = ld64 m x) \<Longrightarrow> chain m' a xs"
  by (induction xs arbitrary: a) auto

text \<open>Distinct aligned pages do not overlap.\<close>

lemma page_unat: "p mod PGSIZE = 0 \<longleftrightarrow> unat p mod 4096 = 0"
proof -
  have "p mod PGSIZE = 0 \<longleftrightarrow> unat (p mod PGSIZE) = 0" by (simp add: unat_eq_0)
  also have "unat (p mod PGSIZE) = unat p mod 4096" by (simp add: unat_mod PGSIZE_def)
  finally show ?thesis .
qed

lemma page_end: "p mod PGSIZE = 0 \<Longrightarrow> unat p + 4096 \<le> 2 ^ 64"
proof -
  assume "p mod PGSIZE = 0"
  then obtain k where k: "unat p = 4096 * k" unfolding page_unat by (metis mod_0_imp_dvd dvdE)
  then have "4096 * k < 4096 * 4503599627370496" using unat_less_2_64 [of p] by simp
  then have "k + 1 \<le> 4503599627370496" by simp
  then show ?thesis using k by simp
qed

lemma in_page: "p mod PGSIZE = 0 \<Longrightarrow> in_region p 4096 a \<longleftrightarrow> unat a div 4096 = unat p div 4096"
proof -
  assume p: "p mod PGSIZE = 0"
  then have "in_region p 4096 a \<longleftrightarrow> unat p \<le> unat a \<and> unat a < unat p + 4096"
    by (intro in_region_no_wrap page_end)
  also have "\<dots> \<longleftrightarrow> unat a div 4096 = unat p div 4096"
    using p unfolding page_unat by (simp add: div_eq_iff_between mod_0_imp_dvd)
  finally show ?thesis .
qed

lemma page_disjoint:
  assumes "p mod PGSIZE = 0" and "q mod PGSIZE = 0" and "p \<noteq> q" and "in_region p 4096 a"
  shows "\<not> in_region q 4096 a"
proof
  assume "in_region q 4096 a"
  then have "unat p div 4096 = unat q div 4096" using assms by (simp add: in_page)
  moreover have "unat p mod 4096 = unat q mod 4096" using assms(1,2) by (simp add: page_unat)
  ultimately have "unat p = unat q" by (metis div_mult_mod_eq)
  then show False using assms(3) by (simp add: word_unat_eq_iff)
qed

lemma in_region_mono: "in_region p k a \<Longrightarrow> k \<le> n \<Longrightarrow> in_region p n a"
  by (simp add: in_region_def)

lemma ld64_page_frame:
  assumes "p mod PGSIZE = 0" and "q mod PGSIZE = 0" and "p \<noteq> q"
    and "\<And>a. \<not> in_region p 4096 a \<Longrightarrow> m' a = m a"
  shows "ld64 m' q = ld64 m q"
proof (rule ld64_cong)
  fix a assume "in_region q 8 a"
  then have "in_region q 4096 a" by (rule in_region_mono) simp
  then have "\<not> in_region p 4096 a" using page_disjoint [of q p a] assms(1-3) by simp
  then show "m' a = m a" by (rule assms(4))
qed

lemma PGSIZE_u32 [simp]: "unat (ucast PGSIZE :: u32) = 4096"
  by (simp add: PGSIZE_def)

lemma st64_page_frame: "\<not> in_region p 4096 a \<Longrightarrow> st64 m p v a = m a"
  by (rule st64_frame) (auto dest: in_region_mono [of p 8 a 4096])

section \<open>What the operations do\<close>

abbreviation (input) kmem_ready :: "'z kmem_scheme \<Rightarrow> bool" where
  "kmem_ready s \<equiv> cpu_ok s \<and> lock_free Kmem_lock s"

lemma kfree_eq:
  assumes "kmem_ready s"
  shows "kfree pa s =
    (if pa mod PGSIZE \<noteq> 0 \<or> pa < kend s \<or> pa \<ge> PHYSTOP then Panic ''kfree''
     else Ret () (s\<lparr>mem := st64 (memset (mem s) pa 1 (ucast PGSIZE)) pa (freelist s), freelist := pa\<rparr>))"
  using assms by (simp add: kfree_def lock_steps)

lemma kalloc_eq:
  assumes "kmem_ready s"
  shows "kalloc s = Ret (freelist s)
    (if freelist s = 0 then s
     else s\<lparr>freelist := ld64 (mem s) (freelist s), mem := memset (mem s) (freelist s) 5 (ucast PGSIZE)\<rparr>)"
  using assms by (simp add: kalloc_def lock_steps)

lemma kfree_free_list:
  assumes "kmem_ready s" and "free_list s xs" and "kfree pa s = Ret () t" and "pa \<notin> set xs" and "pa \<noteq> 0"
  shows "free_list t (pa # xs)" and "kmem_ready t" and "kend t = kend s"
    and "\<And>a. \<not> in_region pa 4096 a \<Longrightarrow> mem t a = mem s a"
proof -
  let ?m = "st64 (memset (mem s) pa 1 (ucast PGSIZE)) pa (freelist s)"
  have ok: "pa mod PGSIZE = 0" "kend s \<le> pa" "pa < PHYSTOP"
    and t: "t = s\<lparr>mem := ?m, freelist := pa\<rparr>"
    using assms(3) kfree_eq [OF assms(1), of pa] by (auto split: if_splits)
  have fr: "?m a = mem s a" if "\<not> in_region pa 4096 a" for a
    using that by (simp add: st64_page_frame memset_eq)
  then show "\<And>a. \<not> in_region pa 4096 a \<Longrightarrow> mem t a = mem s a" by (simp add: t)
  have "ld64 ?m x = ld64 (mem s) x" if x: "x \<in> set xs" for x
  proof (rule ld64_page_frame [OF ok(1) _ _ fr])
    show "x mod PGSIZE = 0" using assms(2) x by (simp add: free_list_def page_ok_def)
    show "pa \<noteq> x" using assms(4) x by blast
  qed
  moreover have "chain (mem s) (freelist s) xs" using assms(2) by (simp add: free_list_def)
  ultimately have "chain ?m (freelist s) xs" using chain_cong by blast
  then show "free_list t (pa # xs)"
    using assms(2,4,5) ok by (simp add: free_list_def t page_ok_def)
  show "kmem_ready t" "kend t = kend s" using assms(1) by (simp_all add: t)
qed

lemma kalloc_free_list:
  assumes "kmem_ready s" and "free_list s (x # xs)"
  shows "\<exists>t. kalloc s = Ret x t \<and> free_list t xs \<and> kmem_ready t \<and> kend t = kend s \<and> x \<noteq> 0 \<and>
    (\<forall>a. mem t a = (if in_region x 4096 a then 5 else mem s a))"
proof -
  let ?m = "memset (mem s) x 5 (ucast PGSIZE)"
  let ?t = "s\<lparr>freelist := ld64 (mem s) x, mem := ?m\<rparr>"
  have x: "freelist s = x" "x \<noteq> 0" "page_ok (kend s) x" "x \<notin> set xs" "chain (mem s) (ld64 (mem s) x) xs"
    using assms(2) by (auto simp: free_list_def)
  have k: "kalloc s = Ret x ?t" using kalloc_eq [OF assms(1)] x(1,2) by simp
  have fr: "?m a = mem s a" if "\<not> in_region x 4096 a" for a
    using that by (simp add: memset_eq)
  have "ld64 ?m y = ld64 (mem s) y" if y: "y \<in> set xs" for y
  proof (rule ld64_page_frame [OF _ _ _ fr])
    show "x mod PGSIZE = 0" using x(3) by (simp add: page_ok_def)
    show "y mod PGSIZE = 0" using assms(2) y by (simp add: free_list_def page_ok_def)
    show "x \<noteq> y" using x(4) y by blast
  qed
  then have "chain ?m (ld64 (mem s) x) xs" using chain_cong [OF x(5)] by blast
  then have "free_list ?t xs" using assms(2) by (simp add: free_list_def)
  moreover have "\<forall>a. mem ?t a = (if in_region x 4096 a then 5 else mem s a)" by (simp add: memset_eq)
  moreover have "kmem_ready ?t" "kend ?t = kend s" using assms(1) by simp_all
  ultimately show ?thesis using k x(2) by (intro exI [of _ ?t] conjI) (assumption | simp only:)+
qed

lemma kalloc_empty: "kmem_ready s \<Longrightarrow> free_list s [] \<Longrightarrow> kalloc s = Ret 0 s"
  by (simp add: kalloc_eq free_list_def)

section \<open>Pages as an allocator\<close>

definition kernel_alloc :: "kmem \<Rightarrow> (u64 option \<times> kmem) option" where
  "kernel_alloc s = (case kalloc s of Ret p t \<Rightarrow> Some (if p = 0 then None else Some p, t) | _ \<Rightarrow> None)"

definition kernel_free :: "u64 \<Rightarrow> kmem \<Rightarrow> kmem option" where
  "kernel_free p s = (case kfree p s of Ret _ t \<Rightarrow> Some t | _ \<Rightarrow> None)"

definition free_set :: "'z kmem_scheme \<Rightarrow> u64 set" where
  "free_set s = {a. \<exists>xs. free_list s xs \<and> a \<in> set xs}"

definition kmem_inv :: "kmem \<Rightarrow> bool" where
  "kmem_inv s \<longleftrightarrow> kmem_ready s \<and> 0 < kend s \<and> (\<exists>xs. free_list s xs)"

lemma free_list_unique: "free_list s xs \<Longrightarrow> free_list s ys \<Longrightarrow> xs = ys"
  using chain_unique by (auto simp: free_list_def)

lemma free_set_eq: "free_list s xs \<Longrightarrow> free_set s = set xs"
  using free_list_unique by (auto simp: free_set_def)

lemma kmem_invI: "kmem_ready s \<Longrightarrow> 0 < kend s \<Longrightarrow> free_list s xs \<Longrightarrow> kmem_inv s"
  by (auto simp: kmem_inv_def)

interpretation pages: allocator kernel_alloc kernel_free free_set kmem_inv
proof
  fix s t :: kmem and a
  assume inv: "kmem_inv s"
  then obtain xs where r: "kmem_ready s" and e: "0 < kend s" and fl: "free_list s xs"
    by (auto simp: kmem_inv_def)
  {
    assume k: "kernel_alloc s = Some (Some a, t)"
    have "xs \<noteq> []" using k kalloc_empty [OF r] fl by (auto simp: kernel_alloc_def)
    then obtain y ys where xs: "xs = y # ys" by (cases xs) auto
    obtain u where u: "kalloc s = Ret y u" "free_list u ys" "kmem_ready u" "kend u = kend s" "y \<noteq> 0"
      using kalloc_free_list [OF r] fl unfolding xs by blast
    then have "a = y" "t = u" using k by (simp_all add: kernel_alloc_def)
    moreover have "y \<notin> set ys" using fl by (simp add: xs free_list_def)
    moreover have "kmem_inv u" using u(2-4) e by (intro kmem_invI) simp_all
    ultimately show "a \<in> free_set s \<and> free_set t = free_set s - {a} \<and> kmem_inv t"
      using free_set_eq [OF fl] free_set_eq [OF u(2)] xs by auto
  next
    assume k: "kernel_alloc s = Some (None, t)"
    have "xs = []"
    proof (rule ccontr)
      assume "xs \<noteq> []"
      then obtain y ys where xs: "xs = y # ys" by (cases xs) auto
      obtain u where "kalloc s = Ret y u" "y \<noteq> 0"
        using kalloc_free_list [OF r] fl unfolding xs by blast
      then show False using k by (simp add: kernel_alloc_def)
    qed
    then have "t = s" using k kalloc_empty [OF r] fl by (simp add: kernel_alloc_def)
    then show "free_set s = {} \<and> free_set t = {} \<and> kmem_inv t"
      using free_set_eq [OF fl] \<open>xs = []\<close> inv by simp
  next
    assume na: "a \<notin> free_set s" and k: "kernel_free a s = Some t"
    then have kf: "kfree a s = Ret () t"
      by (auto simp: kernel_free_def split: outcome.splits)
    then have "kend s \<le> a" using kfree_eq [OF r, of a] by (auto split: if_splits)
    then have a0: "a \<noteq> 0" using e by auto
    have nx: "a \<notin> set xs" using na free_set_eq [OF fl] by simp
    note f = kfree_free_list [OF r fl kf nx a0]
    have "kmem_inv t" using f(1-3) e by (intro kmem_invI) simp_all
    then show "free_set t = insert a (free_set s) \<and> kmem_inv t"
      using free_set_eq [OF fl] free_set_eq [OF f(1)] by simp
  }
qed

text \<open>What \<open>kinit\<close> leaves: every whole page between \<^verbatim>\<open>end\<close> and \<open>PHYSTOP\<close> is free.\<close>

lemma PHYSTOP_unat: "unat PHYSTOP = 2281701376"
  by (simp add: PHYSTOP_def KERNBASE_def)

lemma next_page:
  assumes "p mod PGSIZE = 0" and "q mod PGSIZE = 0" and "unat (p + PGSIZE) = unat p + 4096"
  shows "p \<le> q \<longleftrightarrow> q = p \<or> p + PGSIZE \<le> q"
proof -
  obtain a b where ab: "unat p = 4096 * a" "unat q = 4096 * b"
    using assms(1,2) unfolding page_unat by (metis mod_0_imp_dvd dvdE)
  have "p \<le> q \<longleftrightarrow> a \<le> b" "q = p \<longleftrightarrow> b = a" "p + PGSIZE \<le> q \<longleftrightarrow> a + 1 \<le> b"
    using ab assms(3) by (simp_all add: word_le_nat_alt word_unat_eq_iff) arith
  then show ?thesis by auto
qed

lemma freerange_free_list:
  assumes "p mod PGSIZE = 0" and "kend s \<le> p" and "p \<noteq> 0" and "p \<le> PHYSTOP" and "pa_end = PHYSTOP"
    and "kmem_ready s" and "free_list s xs" and "\<forall>x \<in> set xs. x < p"
  shows "\<exists>t ys. freerange_loop p pa_end s = Ret () t \<and> free_list t ys \<and> kmem_ready t \<and> kend t = kend s \<and>
    set ys = set xs \<union> {q. q mod PGSIZE = 0 \<and> p \<le> q \<and> q < PHYSTOP}"
  using assms
proof (induction p pa_end arbitrary: s xs rule: freerange_loop.induct)
  case (1 p pa_end)
  have pm: "unat p mod 4096 = 0" using 1 by (simp add: page_unat)
  have pl: "unat p \<le> 2281701376" using 1 by (simp add: word_le_nat_alt PHYSTOP_unat)
  have pg: "unat (p + PGSIZE) = unat p + 4096"
    using pl by (subst unat_add_no_wrap) (simp_all add: PGSIZE_def)
  show ?case
  proof (cases "p = PHYSTOP")
    case True
    have "\<not> p + PGSIZE \<le> PHYSTOP" using pg True by (simp add: word_le_nat_alt)
    moreover have "{q. q mod PGSIZE = 0 \<and> p \<le> q \<and> q < PHYSTOP} = {}" using True by auto
    moreover have "freerange_loop p pa_end s = Ret () s"
      using calculation(1) 1(6) by (subst freerange_loop.simps) simp
    ultimately show ?thesis using 1(7,8) by (intro exI [of _ s] exI [of _ xs]) (simp only: simp_thms Un_empty_right)
  next
    case False
    then have lt: "unat p < 2281701376" using 1(5) by (simp add: word_le_nat_alt PHYSTOP_unat word_unat_eq_iff)
    obtain k where k: "unat p = 4096 * k" using pm by (metis mod_0_imp_dvd dvdE)
    then have "k < 557056" using lt by simp
    then have "unat p + 4096 \<le> 2281701376" using k by simp
    then have le: "p + PGSIZE \<le> PHYSTOP" by (simp add: word_le_nat_alt pg PHYSTOP_unat)
    have up: "p < p + PGSIZE" by (simp add: word_less_nat_alt pg)
    have nx: "p \<notin> set xs" using 1 by auto
    have pp: "p < PHYSTOP" using False 1(5) by simp
    have "\<exists>u. kfree p s = Ret () u"
      using kfree_eq [OF 1(7), of p] 1(2,3) pp by (simp add: leD not_le)
    then obtain u where u: "kfree p s = Ret () u" ..
    note f = kfree_free_list [OF 1(7) 1(8) u nx 1(4)]
    have "\<exists>t ys. freerange_loop (p + PGSIZE) pa_end u = Ret () t \<and> free_list t ys \<and> kmem_ready t \<and> kend t = kend u \<and>
        set ys = set (p # xs) \<union> {q. q mod PGSIZE = 0 \<and> p + PGSIZE \<le> q \<and> q < PHYSTOP}"
    proof (rule 1(1))
      show "p + PGSIZE \<le> pa_end" "p < p + PGSIZE" "p + PGSIZE \<le> PHYSTOP" "pa_end = PHYSTOP"
        using le up 1(6) by simp_all
      show "(p + PGSIZE) mod PGSIZE = 0" using pm pg by (simp add: page_unat)
      show "kend u \<le> p + PGSIZE" using f(3) 1(3) up by simp
      show "p + PGSIZE \<noteq> 0" using up by auto
      show "kmem_ready u" "free_list u (p # xs)" using f by blast+
      show "\<forall>x \<in> set (p # xs). x < p + PGSIZE" using 1(9) up by auto
    qed
    then obtain t ys where t: "freerange_loop (p + PGSIZE) pa_end u = Ret () t" "free_list t ys" "kmem_ready t"
        "kend t = kend u" "set ys = set (p # xs) \<union> {q. q mod PGSIZE = 0 \<and> p + PGSIZE \<le> q \<and> q < PHYSTOP}"
      by auto
    have "{q. q mod PGSIZE = 0 \<and> p \<le> q \<and> q < PHYSTOP} =
        insert p {q. q mod PGSIZE = 0 \<and> p + PGSIZE \<le> q \<and> q < PHYSTOP}"
    proof (rule set_eqI)
      fix q
      have "q < PHYSTOP \<and> p \<le> q" if "p + PGSIZE \<le> q" "q < PHYSTOP" using that up by simp
      then show "q \<in> {q. q mod PGSIZE = 0 \<and> p \<le> q \<and> q < PHYSTOP} \<longleftrightarrow>
          q \<in> insert p {q. q mod PGSIZE = 0 \<and> p + PGSIZE \<le> q \<and> q < PHYSTOP}"
        using next_page [OF 1(2) _ pg, of q] pp 1(2) unfolding mem_Collect_eq insert_iff by metis
    qed
    then have "set ys = set xs \<union> {q. q mod PGSIZE = 0 \<and> p \<le> q \<and> q < PHYSTOP}" using t(5) by simp
    moreover have "freerange_loop p pa_end s = Ret () t"
      using u t(1) le up 1(6) by (subst freerange_loop.simps) simp
    ultimately show ?thesis using t f(3) by auto
  qed
qed

lemma PGROUNDUP_unat:
  assumes "unat a + 4096 < 2 ^ 64"
  shows "unat (PGROUNDUP a) = (unat a + 4095) div 4096 * 4096"
proof -
  have "a + PGSIZE - 1 = a + 4095" by (simp add: PGSIZE_def)
  moreover have "unat (a + 4095) = unat a + 4095"
    using assms by (subst unat_add_no_wrap) simp_all
  moreover have "PGSIZE - 1 = mask 12" by (simp add: PGSIZE_def mask_eq_exp_minus_1)
  ultimately show ?thesis unfolding PGROUNDUP_def by (simp only: unat_and_not_mask) simp
qed

lemma PGROUNDUP_aligned: "PGROUNDUP a mod PGSIZE = 0"
proof -
  have "PGSIZE - 1 = mask 12" by (simp add: PGSIZE_def mask_eq_exp_minus_1)
  then have "unat (PGROUNDUP a) mod 4096 = 0"
    unfolding PGROUNDUP_def by (simp only: unat_and_not_mask) simp
  then show ?thesis by (simp add: page_unat)
qed

text \<open>Rounding up is the least page boundary that is not below.\<close>

lemma PGROUNDUP_le_iff:
  assumes "unat a + 4096 < 2 ^ 64" and "q mod PGSIZE = 0"
  shows "PGROUNDUP a \<le> q \<longleftrightarrow> a \<le> q"
proof -
  obtain b where b: "unat q = 4096 * b" using assms(2) unfolding page_unat by (metis mod_0_imp_dvd dvdE)
  have "(unat a + 4095) div 4096 * 4096 \<le> 4096 * b \<longleftrightarrow> (unat a + 4095) div 4096 < Suc b" by auto
  also have "\<dots> \<longleftrightarrow> unat a + 4095 < Suc b * 4096" by (rule div_less_iff_less_mult) simp
  also have "\<dots> \<longleftrightarrow> unat a \<le> 4096 * b" by auto
  finally show ?thesis using b PGROUNDUP_unat [OF assms(1)] by (simp add: word_le_nat_alt)
qed

section \<open>Properties\<close>

definition boot_kmem :: "ram \<Rightarrow> u64 \<Rightarrow> u64 \<Rightarrow> kmem" where
  "boot_kmem m f e = sleeplocks.extend boot_sleeplocks (kmem.fields m f e)"

lemma boot_kmem_simps [simp]:
  "mem (boot_kmem m f e) = m"
  "freelist (boot_kmem m f e) = f"
  "kend (boot_kmem m f e) = e"
  "cpu_ok (boot_kmem m f e)"
  "lock_free l (boot_kmem m f e)"
  by (simp_all add: boot_kmem_def boot_sleeplocks_def sleeplocks.defs kmem.defs cpu_ok_def lock_free_def
      intr_enabled_def cid_def SSTATUS_SIE_def)


lemma ld64_zero: "ld64 (\<lambda>_. 0) a = 0"
proof -
  have "le_word (get_bytes (\<lambda>_. 0) a n) = (0 :: u64)" for n :: nat by (induction n arbitrary: a) simp_all
  then show ?thesis by (simp add: ld64_def)
qed

lemma kernel_alloc_head:
  assumes "kmem_ready s" and "free_list s (x # xs)"
  shows "\<exists>t. kernel_alloc s = Some (Some x, t) \<and> free_list t xs \<and> kmem_ready t \<and> kend t = kend s"
proof -
  obtain t where "kalloc s = Ret x t" "free_list t xs" "kmem_ready t" "kend t = kend s" "x \<noteq> 0"
    using kalloc_free_list [OF assms] by (elim exE conjE) simp
  then show ?thesis by (intro exI [of _ t]) (simp add: kernel_alloc_def)
qed


text \<open>
  C8: After \<open>kinit\<close> exactly the whole pages between the end of the kernel and \<open>PHYSTOP\<close> are free; the
  loop returns.
\<close>

theorem kinit_frees_all_pages:
  assumes "cpu_ok s" and "freelist s = 0" and "0 < kend s" and "kend s \<le> PHYSTOP"
  shows "\<exists>t xs. kinit s = Ret () t \<and> free_list t xs \<and>
    set xs = {q. q mod PGSIZE = 0 \<and> kend s \<le> q \<and> q < PHYSTOP}"
proof -
  let ?s = "upd_lock Kmem_lock (\<lambda>_. \<lparr>lk_locked = 0, lk_name = ''kmem'', lk_cpu = None\<rparr>) s"
  let ?p = "PGROUNDUP (kend s)"
  have e: "unat (kend s) + 4096 < 2 ^ 64" using assms(4) by (simp add: word_le_nat_alt PHYSTOP_unat)
  have al: "?p mod PGSIZE = 0" "PHYSTOP mod PGSIZE = 0"
    by (rule PGROUNDUP_aligned) (simp add: page_unat PHYSTOP_unat)
  have p: "?p \<le> PHYSTOP" "kend s \<le> ?p"
    using PGROUNDUP_le_iff [OF e al(2)] PGROUNDUP_le_iff [OF e al(1)] assms(4) by simp_all
  have "?p \<noteq> 0" using p(2) assms(3) by auto
  moreover have "kend ?s \<le> ?p" "kmem_ready ?s" "free_list ?s []"
    using p(2) assms(1,2)
    by (auto simp: upd_lock_def cpu_ok_def lock_free_def intr_enabled_def free_list_def)
  ultimately have "\<exists>t ys. freerange_loop ?p PHYSTOP ?s = Ret () t \<and> free_list t ys \<and> kmem_ready t \<and>
      kend t = kend ?s \<and> set ys = set [] \<union> {q. q mod PGSIZE = 0 \<and> ?p \<le> q \<and> q < PHYSTOP}"
    using al(1) p(1) by (intro freerange_free_list) simp_all
  then obtain t ys where t: "freerange_loop ?p PHYSTOP ?s = Ret () t" "free_list t ys"
      "set ys = {q. q mod PGSIZE = 0 \<and> ?p \<le> q \<and> q < PHYSTOP}"
    by (elim exE conjE) (simp only: list.set Un_empty_left)
  have "kinit s = Ret () t"
    using t(1) by (simp add: kinit_def initlock_def freerange_def) (simp add: upd_lock_def)
  moreover have "set ys = {q. q mod PGSIZE = 0 \<and> kend s \<le> q \<and> q < PHYSTOP}"
    unfolding t(3) by (rule Collect_cong) (intro conj_cong refl PGROUNDUP_le_iff [OF e])
  ultimately show ?thesis using t(2) by (intro exI conjI)
qed

theorem kinit_frees_all_pages_witness:
  "\<exists>t xs. kinit (boot_kmem (\<lambda>_. 0) 0 0x80021000) = Ret () t \<and> free_list t xs \<and> 0x87fff000 \<in> set xs"
proof -
  let ?s = "boot_kmem (\<lambda>_. 0) 0 0x80021000"
  have s: "cpu_ok ?s" "freelist ?s = 0" "0 < kend ?s" "kend ?s \<le> PHYSTOP"
    by (simp_all add: PHYSTOP_def KERNBASE_def)
  obtain t xs where k: "kinit ?s = Ret () t" "free_list t xs"
      "set xs = {q. q mod PGSIZE = 0 \<and> kend ?s \<le> q \<and> q < PHYSTOP}"
    using kinit_frees_all_pages [OF s] by (elim exE conjE)
  have "(0x87fff000 :: u64) \<in> set xs"
    unfolding k(3) mem_Collect_eq boot_kmem_simps by (simp add: PGSIZE_def PHYSTOP_def KERNBASE_def)
  then show ?thesis using k(1,2) by (intro exI [of _ t] exI [of _ xs] conjI)
qed

end
