(* ===== verification/Vm.thy ===== *)
theory Vm
  imports Kalloc
begin

text \<open>
  \<^verbatim>\<open>kernel/vm.c\<close>: Sv39 page tables as bytes in RAM. Page-table entries are read and written with
  64-bit loads and stores at the addresses the C code computes. Objects of the kernel that are
  not pages (globals, the stack, buffers) live outside \<open>mem\<close>: a copy to or from one of them is a
  list of bytes. The linker symbols \<^verbatim>\<open>etext\<close> and \<^verbatim>\<open>trampoline\<close> are constant fields of the state.
\<close>

section \<open>Constants\<close>

definition PTE_V :: u64 where "PTE_V = 1"

definition PTE_R :: u64 where "PTE_R = 2"

definition PTE_W :: u64 where "PTE_W = 4"

definition PTE_X :: u64 where "PTE_X = 8"

definition PTE_U :: u64 where "PTE_U = 16"

definition PA2PTE :: "u64 \<Rightarrow> u64" where
  "PA2PTE pa = push_bit 10 (drop_bit 12 pa)"

definition PTE2PA :: "u64 \<Rightarrow> u64" where
  "PTE2PA pte = push_bit 12 (drop_bit 10 pte)"

definition PTE_FLAGS :: "u64 \<Rightarrow> u64" where
  "PTE_FLAGS pte = pte AND 0x3FF"

definition PXSHIFT :: "nat \<Rightarrow> nat" where
  "PXSHIFT level = 12 + 9 * level"

definition PX :: "nat \<Rightarrow> u64 \<Rightarrow> u64" where
  "PX level va = drop_bit (PXSHIFT level) va AND 0x1FF"

definition MAXVA :: u64 where
  "MAXVA = push_bit (9 + 9 + 9 + 12 - 1) 1"

definition TRAMPOLINE :: u64 where
  "TRAMPOLINE = MAXVA - PGSIZE"

definition TRAPFRAME :: u64 where
  "TRAPFRAME = TRAMPOLINE - PGSIZE"

definition KSTACK :: "nat \<Rightarrow> u64" where
  "KSTACK p = TRAMPOLINE - of_nat (p + 1) * 2 * PGSIZE"

definition UART0 :: u64 where "UART0 = 0x10000000"

definition VIRTIO0 :: u64 where "VIRTIO0 = 0x10001000"

definition CLINT :: u64 where "CLINT = 0x2000000"

definition PLIC :: u64 where "PLIC = 0x0c000000"

definition SATP_SV39 :: u64 where
  "SATP_SV39 = push_bit 60 8"

definition MAKE_SATP :: "u64 \<Rightarrow> u64" where
  "MAKE_SATP pagetable = SATP_SV39 OR drop_bit 12 pagetable"

section \<open>State\<close>

record vm = kmem +
  kernel_pagetable :: u64
  satp :: "nat \<Rightarrow> u64"
  etext :: u64
  trampoline :: u64

text \<open>\<^verbatim>\<open>*pte\<close> and \<^verbatim>\<open>*pte = v\<close>, and the filling of a page.\<close>

definition rd_pte :: "u64 \<Rightarrow> (u64, 'z kmem_scheme) kop" where
  "rd_pte a = getK (\<lambda>s. ld64 (mem s) a)"

definition wr_pte :: "u64 \<Rightarrow> u64 \<Rightarrow> (unit, 'z kmem_scheme) kop" where
  "wr_pte a v = modK (\<lambda>s. s\<lparr>mem := st64 (mem s) a v\<rparr>)"

definition zero_page :: "u64 \<Rightarrow> (unit, 'z kmem_scheme) kop" where
  "zero_page p = modK (\<lambda>s. s\<lparr>mem := memset (mem s) p 0 (ucast PGSIZE)\<rparr>)"

section \<open>Walking and mapping\<close>

definition pte_at :: "u64 \<Rightarrow> nat \<Rightarrow> u64 \<Rightarrow> u64" where
  "pte_at pagetable level va = pagetable + 8 * PX level va"

primrec walk_loop :: "nat \<Rightarrow> u64 \<Rightarrow> u64 \<Rightarrow> bool \<Rightarrow> (u64, 'z kmem_scheme) kop" where
  "walk_loop 0 pagetable va al = retK (pte_at pagetable 0 va)"
| "walk_loop (Suc l) pagetable va al =
     bindK (rd_pte (pte_at pagetable (Suc l) va)) (\<lambda>pte.
     if pte AND PTE_V \<noteq> 0 then walk_loop l (PTE2PA pte) va al
     else if \<not> al then retK 0
     else bindK kalloc (\<lambda>p.
          if p = 0 then retK 0
          else thenK (zero_page p) (
               thenK (wr_pte (pte_at pagetable (Suc l) va) (PA2PTE p OR PTE_V))
                     (walk_loop l p va al))))"

definition walk :: "u64 \<Rightarrow> u64 \<Rightarrow> bool \<Rightarrow> (u64, 'z kmem_scheme) kop" where
  "walk pagetable va al = (if va \<ge> MAXVA then panicK ''walk'' else walk_loop 2 pagetable va al)"

definition walkaddr :: "u64 \<Rightarrow> u64 \<Rightarrow> (u64, 'z kmem_scheme) kop" where
  "walkaddr pagetable va =
     (if va \<ge> MAXVA then retK 0
      else bindK (walk pagetable va False) (\<lambda>pte.
           if pte = 0 then retK 0
           else bindK (rd_pte pte) (\<lambda>v.
                if v AND PTE_V = 0 then retK 0
                else if v AND PTE_U = 0 then retK 0
                else retK (PTE2PA v))))"

text \<open>
  The loop of \<open>mappages\<close>. An address at which \<^verbatim>\<open>a += PGSIZE\<close> would wrap is above \<open>MAXVA\<close>, so \<open>walk\<close>
  has panicked before; the guard only makes the recursion terminate.
\<close>

function mappages_loop :: "u64 \<Rightarrow> u64 \<Rightarrow> u64 \<Rightarrow> u64 \<Rightarrow> u64 \<Rightarrow> (int, 'z kmem_scheme) kop" where
  "mappages_loop pagetable a lst pa perm =
     bindK (walk pagetable a True) (\<lambda>pte.
     if pte = 0 then retK (-1)
     else bindK (rd_pte pte) (\<lambda>v.
          if v AND PTE_V \<noteq> 0 then panicK ''remap''
          else thenK (wr_pte pte (PA2PTE pa OR perm OR PTE_V)) (
               if a = lst then retK 0
               else if a < a + PGSIZE
               then mappages_loop pagetable (a + PGSIZE) lst (pa + PGSIZE) perm
               else divergeK)))"
  by pat_completeness auto
termination
  by (relation "measure (\<lambda>(pt, a, l, pa, perm). room_above a)") (simp_all add: room_above_less)

declare mappages_loop.simps [simp del]

definition mappages :: "u64 \<Rightarrow> u64 \<Rightarrow> u64 \<Rightarrow> u64 \<Rightarrow> u64 \<Rightarrow> (int, 'z kmem_scheme) kop" where
  "mappages pagetable va sz pa perm =
     mappages_loop pagetable (PGROUNDDOWN va) (PGROUNDDOWN (va + sz - 1)) pa perm"

text \<open>The loop of \<open>uvmunmap\<close>, with the bound \<^verbatim>\<open>va + npages*PGSIZE\<close>.\<close>

function uvmunmap_loop :: "u64 \<Rightarrow> u64 \<Rightarrow> u64 \<Rightarrow> bool \<Rightarrow> (unit, 'z kmem_scheme) kop" where
  "uvmunmap_loop pagetable a bound do_free =
     (if a < bound
      then bindK (walk pagetable a False) (\<lambda>pte.
           if pte = 0 then panicK ''uvmunmap: walk''
           else bindK (rd_pte pte) (\<lambda>v.
                if v AND PTE_V = 0 then panicK ''uvmunmap: not mapped''
                else if PTE_FLAGS v = PTE_V then panicK ''uvmunmap: not a leaf''
                else thenK (whenK do_free (kfree (PTE2PA v))) (
                     thenK (wr_pte pte 0) (
                     if a < a + PGSIZE then uvmunmap_loop pagetable (a + PGSIZE) bound do_free
                     else divergeK))))
      else retK ())"
  by pat_completeness auto
termination
  by (relation "measure (\<lambda>(pt, a, b, d). room_above a)") (simp_all add: room_above_less)

declare uvmunmap_loop.simps [simp del]

definition uvmunmap :: "u64 \<Rightarrow> u64 \<Rightarrow> u64 \<Rightarrow> bool \<Rightarrow> (unit, 'z kmem_scheme) kop" where
  "uvmunmap pagetable va npages do_free =
     (if va mod PGSIZE \<noteq> 0 then panicK ''uvmunmap: not aligned''
      else uvmunmap_loop pagetable va (va + npages * PGSIZE) do_free)"

section \<open>The kernel's page table\<close>

definition kvmmap :: "u64 \<Rightarrow> u64 \<Rightarrow> u64 \<Rightarrow> u64 \<Rightarrow> (unit, 'z vm_scheme) kop" where
  "kvmmap va pa sz perm =
     bindK (getK kernel_pagetable) (\<lambda>kpt.
     bindK (mappages kpt va sz pa perm) (\<lambda>r.
     if r \<noteq> 0 then panicK ''kvmmap'' else retK ()))"

definition kvminit :: "(unit, 'z vm_scheme) kop" where
  "kvminit =
     bindK kalloc (\<lambda>p.
     thenK (modK (\<lambda>s. s\<lparr>kernel_pagetable := p\<rparr>)) (
     thenK (zero_page p) (
     thenK (kvmmap UART0 UART0 PGSIZE (PTE_R OR PTE_W)) (
     thenK (kvmmap VIRTIO0 VIRTIO0 PGSIZE (PTE_R OR PTE_W)) (
     thenK (kvmmap CLINT CLINT 0x10000 (PTE_R OR PTE_W)) (
     thenK (kvmmap PLIC PLIC 0x400000 (PTE_R OR PTE_W)) (
     bindK (getK etext) (\<lambda>et.
     thenK (kvmmap KERNBASE KERNBASE (et - KERNBASE) (PTE_R OR PTE_X)) (
     thenK (kvmmap et et (PHYSTOP - et) (PTE_R OR PTE_W)) (
     bindK (getK trampoline) (\<lambda>tr.
     kvmmap TRAMPOLINE tr PGSIZE (PTE_R OR PTE_X))))))))))))"

definition kvminithart :: "(unit, 'z vm_scheme) kop" where
  "kvminithart =
     bindK mycpu (\<lambda>c. modK (\<lambda>s. s\<lparr>satp := (satp s)(c := MAKE_SATP (kernel_pagetable s))\<rparr>))"

definition kvmpa :: "u64 \<Rightarrow> (u64, 'z vm_scheme) kop" where
  "kvmpa va =
     bindK (getK kernel_pagetable) (\<lambda>kpt.
     bindK (walk kpt va False) (\<lambda>pte.
     if pte = 0 then panicK ''kvmpa''
     else bindK (rd_pte pte) (\<lambda>v.
          if v AND PTE_V = 0 then panicK ''kvmpa''
          else retK (PTE2PA v + va mod PGSIZE))))"

section \<open>User address spaces\<close>

definition uvmcreate :: "(u64, 'z kmem_scheme) kop" where
  "uvmcreate =
     bindK kalloc (\<lambda>p. if p = 0 then retK 0 else thenK (zero_page p) (retK p))"

definition uvminit :: "u64 \<Rightarrow> byte list \<Rightarrow> (unit, 'z kmem_scheme) kop" where
  "uvminit pagetable src =
     (if of_nat (length src) \<ge> PGSIZE then panicK ''inituvm: more than a page''
      else bindK kalloc (\<lambda>p.
           thenK (zero_page p) (
           bindK (mappages pagetable 0 PGSIZE p (PTE_W OR PTE_R OR PTE_X OR PTE_U)) (\<lambda>_.
           modK (\<lambda>s. s\<lparr>mem := put_bytes (mem s) p src\<rparr>)))))"

definition uvmdealloc :: "u64 \<Rightarrow> u64 \<Rightarrow> u64 \<Rightarrow> (u64, 'z kmem_scheme) kop" where
  "uvmdealloc pagetable oldsz newsz =
     (if newsz \<ge> oldsz then retK oldsz
      else thenK (whenK (PGROUNDUP newsz < PGROUNDUP oldsz)
             (let npages = (ucast ((PGROUNDUP oldsz - PGROUNDUP newsz) div PGSIZE) :: u32) in
              uvmunmap pagetable (PGROUNDUP newsz) (scast npages) True))
           (retK newsz))"

text \<open>
  The loop of \<open>uvmalloc\<close>; \<open>oldsz\<close> is the rounded size at its start. A wrap of \<open>a\<close> is guarded as in
  \<open>mappages_loop\<close>.
\<close>

function uvmalloc_loop :: "u64 \<Rightarrow> u64 \<Rightarrow> u64 \<Rightarrow> u64 \<Rightarrow> (u64, 'z kmem_scheme) kop" where
  "uvmalloc_loop pagetable oldsz a newsz =
     (if a < newsz
      then bindK kalloc (\<lambda>p.
           if p = 0 then thenK (bindK (uvmdealloc pagetable a oldsz) (\<lambda>_. retK ())) (retK 0)
           else thenK (zero_page p) (
                bindK (mappages pagetable a PGSIZE p (PTE_W OR PTE_X OR PTE_R OR PTE_U)) (\<lambda>r.
                if r \<noteq> 0
                then thenK (kfree p) (thenK (bindK (uvmdealloc pagetable a oldsz) (\<lambda>_. retK ())) (retK 0))
                else if a < a + PGSIZE then uvmalloc_loop pagetable oldsz (a + PGSIZE) newsz
                else divergeK)))
      else retK newsz)"
  by pat_completeness auto
termination
  by (relation "measure (\<lambda>(pt, od, a, n). room_above a)") (simp_all add: room_above_less)

declare uvmalloc_loop.simps [simp del]

definition uvmalloc :: "u64 \<Rightarrow> u64 \<Rightarrow> u64 \<Rightarrow> (u64, 'z kmem_scheme) kop" where
  "uvmalloc pagetable oldsz newsz =
     (if newsz < oldsz then retK oldsz
      else uvmalloc_loop pagetable (PGROUNDUP oldsz) (PGROUNDUP oldsz) newsz)"

text \<open>
  \<open>freewalk\<close> descends as long as it finds valid entries that are not leaves. The depth bounds the
  recursion; a tree as \<open>walk\<close> builds it has three levels, and a table deeper than the bound gives
  \<open>Diverge\<close>.
\<close>

primrec freewalk :: "nat \<Rightarrow> u64 \<Rightarrow> (unit, 'z kmem_scheme) kop" where
  "freewalk 0 pagetable = divergeK"
| "freewalk (Suc d) pagetable =
     thenK (eachK (\<lambda>i.
       bindK (rd_pte (pagetable + 8 * of_nat i)) (\<lambda>pte.
       if pte AND PTE_V \<noteq> 0 \<and> pte AND (PTE_R OR PTE_W OR PTE_X) = 0
       then thenK (freewalk d (PTE2PA pte)) (wr_pte (pagetable + 8 * of_nat i) 0)
       else if pte AND PTE_V \<noteq> 0 then panicK ''freewalk: leaf''
       else retK ())) [0..<512])
     (kfree pagetable)"

definition uvmfree :: "u64 \<Rightarrow> u64 \<Rightarrow> (unit, 'z kmem_scheme) kop" where
  "uvmfree pagetable sz =
     thenK (whenK (sz > 0) (uvmunmap pagetable 0 (PGROUNDUP sz div PGSIZE) True))
           (freewalk 4 pagetable)"

text \<open>The loop of \<open>uvmcopy\<close>, and its exit at \<^verbatim>\<open>err\<close>.\<close>

function uvmcopy_loop :: "u64 \<Rightarrow> u64 \<Rightarrow> u64 \<Rightarrow> u64 \<Rightarrow> (int, 'z kmem_scheme) kop" where
  "uvmcopy_loop old new i sz =
     (if i < sz
      then bindK (walk old i False) (\<lambda>pte.
           if pte = 0 then panicK ''uvmcopy: pte should exist''
           else bindK (rd_pte pte) (\<lambda>v.
           if v AND PTE_V = 0 then panicK ''uvmcopy: page not present''
           else bindK kalloc (\<lambda>p.
                if p = 0 then thenK (uvmunmap new 0 (i div PGSIZE) True) (retK (-1))
                else thenK (modK (\<lambda>s. s\<lparr>mem := memmove (mem s) p (PTE2PA v) (ucast PGSIZE)\<rparr>)) (
                     bindK (mappages new i PGSIZE p (PTE_FLAGS v)) (\<lambda>r.
                     if r \<noteq> 0
                     then thenK (kfree p) (thenK (uvmunmap new 0 (i div PGSIZE) True) (retK (-1)))
                     else if i < i + PGSIZE then uvmcopy_loop old new (i + PGSIZE) sz
                     else divergeK)))))
      else retK 0)"
  by pat_completeness auto
termination
  by (relation "measure (\<lambda>(od, n, i, s). room_above i)") (simp_all add: room_above_less)

declare uvmcopy_loop.simps [simp del]

definition uvmcopy :: "u64 \<Rightarrow> u64 \<Rightarrow> u64 \<Rightarrow> (int, 'z kmem_scheme) kop" where
  "uvmcopy old new sz = uvmcopy_loop old new 0 sz"

definition uvmclear :: "u64 \<Rightarrow> u64 \<Rightarrow> (unit, 'z kmem_scheme) kop" where
  "uvmclear pagetable va =
     bindK (walk pagetable va False) (\<lambda>pte.
     if pte = 0 then panicK ''uvmclear''
     else bindK (rd_pte pte) (\<lambda>v. wr_pte pte (v AND NOT PTE_U)))"

section \<open>Copies between user and kernel\<close>

text \<open>The number of bytes of the first page: \<^verbatim>\<open>n = PGSIZE - (va - va0); if(n > len) n = len\<close>.\<close>

definition first_chunk :: "u64 \<Rightarrow> nat \<Rightarrow> nat" where
  "first_chunk va len = min (4096 - unat (va - PGROUNDDOWN va)) len"

lemma page_offset_bound: "unat (va - PGROUNDDOWN va) < 4096"
proof -
  have m: "PGSIZE - 1 = mask 12" by (simp add: PGSIZE_def mask_eq_exp_minus_1)
  have u: "unat (PGROUNDDOWN va) = unat va div 4096 * 4096"
    unfolding PGROUNDDOWN_def m by (simp only: unat_and_not_mask) simp
  then have "PGROUNDDOWN va \<le> va" by (simp add: word_le_nat_alt)
  then have "unat (va - PGROUNDDOWN va) = unat va - unat va div 4096 * 4096" by (simp add: unat_diff_u64 u)
  also have "\<dots> = unat va mod 4096" by (simp add: minus_div_mult_eq_mod)
  finally show ?thesis by simp
qed

lemma first_chunk_pos: "0 < len \<Longrightarrow> 0 < first_chunk va len"
  using page_offset_bound [of va] by (simp add: first_chunk_def)

function copyout :: "u64 \<Rightarrow> u64 \<Rightarrow> byte list \<Rightarrow> (int, 'z kmem_scheme) kop" where
  "copyout pagetable dstva src =
     (if src = [] then retK 0
      else let va0 = PGROUNDDOWN dstva; n = first_chunk dstva (length src) in
           bindK (walkaddr pagetable va0) (\<lambda>pa0.
           if pa0 = 0 then retK (-1)
           else thenK (modK (\<lambda>s. s\<lparr>mem := put_bytes (mem s) (pa0 + (dstva - va0)) (take n src)\<rparr>))
                      (copyout pagetable (va0 + PGSIZE) (drop n src))))"
  by pat_completeness auto
termination
  by (relation "measure (\<lambda>(pt, d, src). length src)") (simp_all add: first_chunk_pos)

declare copyout.simps [simp del]

text \<open>\<open>copyin\<close> gives the bytes it has copied to \<^verbatim>\<open>dst\<close>, or \<open>None\<close> for its return value -1.\<close>

function copyin_loop :: "u64 \<Rightarrow> u64 \<Rightarrow> nat \<Rightarrow> (byte list option, 'z kmem_scheme) kop" where
  "copyin_loop pagetable srcva len =
     (if len = 0 then retK (Some [])
      else let va0 = PGROUNDDOWN srcva; n = first_chunk srcva len in
           bindK (walkaddr pagetable va0) (\<lambda>pa0.
           if pa0 = 0 then retK None
           else bindK (getK (\<lambda>s. get_bytes (mem s) (pa0 + (srcva - va0)) n)) (\<lambda>bs.
                bindK (copyin_loop pagetable (va0 + PGSIZE) (len - n)) (\<lambda>r.
                retK (map_option (\<lambda>bs'. bs @ bs') r)))))"
  by pat_completeness auto
termination
  by (relation "measure (\<lambda>(pt, d, len). len)") (simp_all add: first_chunk_pos)

declare copyin_loop.simps [simp del]

definition copyin :: "u64 \<Rightarrow> u64 \<Rightarrow> u64 \<Rightarrow> (byte list option, 'z kmem_scheme) kop" where
  "copyin pagetable srcva len = copyin_loop pagetable srcva (unat len)"

text \<open>
  \<open>copyinstr\<close> gives the string with its NUL, or \<open>None\<close> for -1. The inner loop copies up to a NUL:
  of the \<open>n\<close> bytes it looks at, those before the NUL, and whether there was one.
\<close>

function copyinstr_loop :: "u64 \<Rightarrow> u64 \<Rightarrow> nat \<Rightarrow> (byte list option, 'z kmem_scheme) kop" where
  "copyinstr_loop pagetable srcva mx =
     (if mx = 0 then retK None
      else let va0 = PGROUNDDOWN srcva; n = first_chunk srcva mx in
           bindK (walkaddr pagetable va0) (\<lambda>pa0.
           if pa0 = 0 then retK None
           else bindK (getK (\<lambda>s. get_bytes (mem s) (pa0 + (srcva - va0)) n)) (\<lambda>bs.
                let pre = takeWhile (\<lambda>b. b \<noteq> 0) bs in
                if length pre < n then retK (Some (pre @ [0]))
                else bindK (copyinstr_loop pagetable (va0 + PGSIZE) (mx - n)) (\<lambda>r.
                     retK (map_option (\<lambda>bs'. bs @ bs') r)))))"
  by pat_completeness auto
termination
  by (relation "measure (\<lambda>(pt, d, mx). mx)") (simp_all add: first_chunk_pos)

declare copyinstr_loop.simps [simp del]

definition copyinstr :: "u64 \<Rightarrow> u64 \<Rightarrow> u64 \<Rightarrow> (byte list option, 'z kmem_scheme) kop" where
  "copyinstr pagetable srcva mx = copyinstr_loop pagetable srcva (unat mx)"

end
