(* ===== verification/Pagetable.thy ===== *)
theory Pagetable
  imports Vm
begin

text \<open>
  The page table in memory as a tree, and what the operations of \<^verbatim>\<open>vm.c\<close> do to the map from virtual
  pages to entries that it stands for: \<open>node\<close> follows a path of indices from the root, \<open>pval\<close> is the
  leaf entry of a virtual address. A well-formed table does not share table pages, so a walk that
  allocates changes no entry and a store to a leaf changes the entry of one page only.
\<close>

section \<open>Entries of table pages\<close>

definition ent :: "u64 \<Rightarrow> u64 \<Rightarrow> u64" where
  "ent p i = p + 8 * i"

lemma ent_unat:
  assumes "p mod PGSIZE = 0" and "unat i < 512"
  shows "unat (ent p i) = unat p + 8 * unat i"
proof -
  have p: "unat p + 4096 \<le> 2 ^ 64" using assms(1) by (rule page_end)
  have "unat (8 * i) = 8 * unat i"
    using assms(2) by (simp add: unat_word_ariths)
  then show ?thesis unfolding ent_def using p assms(2) by (subst unat_add_no_wrap) simp_all
qed

lemma ent_in_page:
  assumes "p mod PGSIZE = 0" and "unat i < 512" and "in_region (ent p i) 8 a"
  shows "in_region p 4096 a"
proof -
  have "unat (ent p i) + 8 \<le> 2 ^ 64" using ent_unat [OF assms(1,2)] page_end [OF assms(1)] assms(2) by simp
  then have "unat p + 8 * unat i \<le> unat a" "unat a < unat p + 8 * unat i + 8"
    using assms(3) in_region_no_wrap [of "ent p i" 8 a] ent_unat [OF assms(1,2)] by simp_all
  then show ?thesis using in_region_no_wrap [OF page_end [OF assms(1)], of a] assms(2) by simp
qed

lemma ent_disjoint:
  assumes "p mod PGSIZE = 0" and "q mod PGSIZE = 0" and "unat i < 512" and "unat j < 512"
    and "(p, i) \<noteq> (q, j)" and "in_region (ent p i) 8 a"
  shows "\<not> in_region (ent q j) 8 a"
proof
  assume b: "in_region (ent q j) 8 a"
  have "in_region p 4096 a" "in_region q 4096 a"
    using ent_in_page [OF assms(1,3,6)] ent_in_page [OF assms(2,4) b] by simp_all
  then have pq: "p = q" using page_disjoint [OF assms(1,2)] by blast
  have wrap: "unat (ent p k) + 8 \<le> 2 ^ 64" if "unat k < 512" for k
    using ent_unat [OF assms(1) that] page_end [OF assms(1)] that by simp
  have "unat p + 8 * unat i \<le> unat a" "unat a < unat p + 8 * unat i + 8"
    using assms(6) in_region_no_wrap [OF wrap [OF assms(3)], of a] ent_unat [OF assms(1,3)] by simp_all
  moreover have "unat p + 8 * unat j \<le> unat a" "unat a < unat p + 8 * unat j + 8"
    using b in_region_no_wrap [OF wrap [OF assms(4)], of a] ent_unat [OF assms(1,4)] pq by simp_all
  ultimately have "unat i = unat j" by linarith
  then show False using assms(5) pq by (simp add: word_unat_eq_iff)
qed

lemma ld64_st64_ent:
  assumes "p mod PGSIZE = 0" and "q mod PGSIZE = 0" and "unat i < 512" and "unat j < 512"
  shows "ld64 (st64 m (ent p i) v) (ent q j) = (if p = q \<and> i = j then v else ld64 m (ent q j))"
proof (cases "p = q \<and> i = j")
  case True
  then show ?thesis by simp
next
  case False
  then have ne: "(q, j) \<noteq> (p, i)" by auto
  have "ld64 (st64 m (ent p i) v) (ent q j) = ld64 m (ent q j)"
  proof (rule ld64_cong)
    fix a assume "in_region (ent q j) 8 a"
    then have "\<not> in_region (ent p i) 8 a" by (rule ent_disjoint [OF assms(2,1,4,3) ne])
    then show "st64 m (ent p i) v a = m a" by (rule st64_frame)
  qed
  then show ?thesis using False by auto
qed

section \<open>Page-table entries\<close>

lemma PTE2PA_aligned: "PTE2PA v mod PGSIZE = 0"
proof -
  have "PTE2PA v AND mask 12 = 0"
    by (rule bit_word_eqI) (auto simp: PTE2PA_def bit_simps)
  then have "take_bit 12 (PTE2PA v) = 0" by (simp add: take_bit_eq_mask)
  then show ?thesis by (simp add: take_bit_eq_mod PGSIZE_def)
qed

text \<open>An entry carries the page and, below bit 10, its flags.\<close>

lemma PTE2PA_entry:
  assumes "p mod PGSIZE = 0" and "p < 2 ^ 56" and "f < 2 ^ 10"
  shows "PTE2PA (PA2PTE p OR f) = p"
proof (rule bit_word_eqI)
  fix n assume n: "n < LENGTH(64)"
  have "take_bit 12 p = 0" using assms(1) by (simp add: take_bit_eq_mod PGSIZE_def)
  then have lo: "\<not> bit p k" if "k < 12" for k using that by (metis bit_take_bit_iff bit_0_eq bot_apply bot_bool_def)
  have hi: "\<not> bit p k" if "56 \<le> k" for k
    using assms(2) that by (intro not_bit_above [of p 56]) (simp_all add: word_less_nat_alt)
  have fl: "\<not> bit f k" if "10 \<le> k" for k
    using assms(3) that by (intro not_bit_above [of f 10]) (simp_all add: word_less_nat_alt)
  show "bit (PTE2PA (PA2PTE p OR f)) n = bit p n"
  proof (cases "n < 12")
    case True
    then show ?thesis using lo by (simp add: PTE2PA_def bit_simps)
  next
    case False
    then obtain k where k: "n = 12 + k" using le_Suc_ex by (metis not_less)
    then show ?thesis using n hi [of n] fl [of "10 + k"]
      by (auto simp: PTE2PA_def PA2PTE_def bit_simps)
  qed
qed

lemma PX_bound: "unat (PX l va) < 512"
proof -
  have "PX l va \<le> 0x1FF" unfolding PX_def by (rule word_and_le1)
  then show ?thesis by (simp add: word_le_nat_alt)
qed

lemma pte_at_ent: "pte_at p l va = ent p (PX l va)"
  by (simp add: pte_at_def ent_def)

text \<open>Below \<open>MAXVA\<close> the three indices determine the virtual page.\<close>

lemma bit_PX: "k < 9 \<Longrightarrow> bit (PX l va) k = bit va (12 + 9 * l + k)"
proof -
  assume k: "k < 9"
  have m: "(0x1FF :: u64) = mask 9" by (simp add: mask_eq_exp_minus_1)
  show ?thesis unfolding PX_def PXSHIFT_def m using k by (auto simp: bit_simps)
qed

lemma same_page_iff:
  assumes "va < MAXVA" and "vb < MAXVA"
  shows "PX 2 va = PX 2 vb \<and> PX 1 va = PX 1 vb \<and> PX 0 va = PX 0 vb \<longleftrightarrow> PGROUNDDOWN va = PGROUNDDOWN vb"
proof -
  have m: "PGSIZE - 1 = mask 12" by (simp add: PGSIZE_def mask_eq_exp_minus_1)
  have gd: "bit (PGROUNDDOWN v) n \<longleftrightarrow> n \<ge> 12 \<and> bit v n" for v n
    unfolding PGROUNDDOWN_def m by (auto simp: bit_simps dest: bit_imp_possible_bit)
  have hi: "\<not> bit v n" if "v < MAXVA" "38 \<le> n" for v n
    using that by (intro not_bit_above [of v 38]) (simp_all add: MAXVA_def word_less_nat_alt)
  show ?thesis
  proof
    assume px: "PX 2 va = PX 2 vb \<and> PX 1 va = PX 1 vb \<and> PX 0 va = PX 0 vb"
    show "PGROUNDDOWN va = PGROUNDDOWN vb"
    proof (rule bit_word_eqI)
      fix n :: nat
      consider "n < 12" | "12 \<le> n" "n < 21" | "21 \<le> n" "n < 30" | "30 \<le> n" "n < 39" | "39 \<le> n" by linarith
      then show "bit (PGROUNDDOWN va) n = bit (PGROUNDDOWN vb) n"
      proof cases
        case 1
        then show ?thesis by (simp add: gd)
      next
        case 2
        then show ?thesis using bit_PX [of "n - 12" 0 va] bit_PX [of "n - 12" 0 vb] px by (simp add: gd)
      next
        case 3
        then show ?thesis using bit_PX [of "n - 21" 1 va] bit_PX [of "n - 21" 1 vb] px by (simp add: gd)
      next
        case 4
        then show ?thesis using bit_PX [of "n - 30" 2 va] bit_PX [of "n - 30" 2 vb] px by (simp add: gd)
      next
        case 5
        then show ?thesis using hi [OF assms(1), of n] hi [OF assms(2), of n] by (simp add: gd)
      qed
    qed
  next
    assume eq: "PGROUNDDOWN va = PGROUNDDOWN vb"
    then have b: "bit va n = bit vb n" if "12 \<le> n" for n using that gd by metis
    have "PX l va = PX l vb" for l
    proof (rule bit_word_eqI)
      fix n
      have "\<not> bit (PX l v) n" if "9 \<le> n" for v
        using that PX_bound [of l v] by (intro not_bit_above [of _ 9]) simp_all
      then show "bit (PX l va) n = bit (PX l vb) n"
        by (cases "n < 9") (simp_all add: bit_PX b)
    qed
    then show "PX 2 va = PX 2 vb \<and> PX 1 va = PX 1 vb \<and> PX 0 va = PX 0 vb" by simp
  qed
qed

section \<open>The tree\<close>

definition tbl :: "ram \<Rightarrow> u64 \<Rightarrow> u64 \<Rightarrow> u64 option" where
  "tbl m p i = (let v = ld64 m (ent p i) in if v AND PTE_V \<noteq> 0 then Some (PTE2PA v) else None)"

primrec node_from :: "ram \<Rightarrow> u64 \<Rightarrow> u64 list \<Rightarrow> u64 option" where
  "node_from m p [] = Some p"
| "node_from m p (i # is) = (case tbl m p i of None \<Rightarrow> None | Some q \<Rightarrow> node_from m q is)"

definition idx :: "u64 list \<Rightarrow> bool" where
  "idx xs \<longleftrightarrow> length xs \<le> 2 \<and> (\<forall>i \<in> set xs. unat i < 512)"

definition tables :: "ram \<Rightarrow> u64 \<Rightarrow> u64 set" where
  "tables m pt = {p. \<exists>xs. idx xs \<and> node_from m pt xs = Some p}"

definition wf_pt :: "ram \<Rightarrow> u64 \<Rightarrow> bool" where
  "wf_pt m pt \<longleftrightarrow>
     (\<forall>p \<in> tables m pt. p mod PGSIZE = 0 \<and> p \<noteq> 0) \<and>
     (\<forall>xs ys p. idx xs \<longrightarrow> idx ys \<longrightarrow> node_from m pt xs = Some p \<longrightarrow> node_from m pt ys = Some p \<longrightarrow> xs = ys)"

definition pval :: "ram \<Rightarrow> u64 \<Rightarrow> u64 \<Rightarrow> u64" where
  "pval m pt va = (case node_from m pt [PX 2 va, PX 1 va] of None \<Rightarrow> 0 | Some p \<Rightarrow> ld64 m (ent p (PX 0 va)))"

lemma idx_simps [simp]:
  "idx []"
  "idx [i] \<longleftrightarrow> unat i < 512"
  "idx [i, j] \<longleftrightarrow> unat i < 512 \<and> unat j < 512"
  by (simp_all add: idx_def)

lemma node_snoc: "node_from m p (xs @ [i]) = (case node_from m p xs of None \<Rightarrow> None | Some q \<Rightarrow> tbl m q i)"
  by (induction xs arbitrary: p) (simp_all split: option.split)

declare node_from.simps(2) [simp del]

lemma node_in_tables: "idx xs \<Longrightarrow> node_from m pt xs = Some p \<Longrightarrow> p \<in> tables m pt"
  unfolding tables_def by blast

lemma tables_aligned: "wf_pt m pt \<Longrightarrow> idx xs \<Longrightarrow> node_from m pt xs = Some p \<Longrightarrow> p mod PGSIZE = 0 \<and> p \<noteq> 0"
  unfolding wf_pt_def tables_def by blast

lemma node_inj:
  "wf_pt m pt \<Longrightarrow> idx xs \<Longrightarrow> idx ys \<Longrightarrow> node_from m pt xs = Some p \<Longrightarrow> node_from m pt ys = Some p \<Longrightarrow> xs = ys"
  unfolding wf_pt_def by blast

text \<open>Only the inner table pages matter for the tree, only the tables for the entries.\<close>

lemma node_cong:
  assumes "\<And>xs p i. idx (xs @ [i]) \<Longrightarrow> node_from m pt xs = Some p \<Longrightarrow> tbl m' p i = tbl m p i" and "idx ys"
  shows "node_from m' pt ys = node_from m pt ys"
  using assms(2)
proof (induction ys rule: rev_induct)
  case Nil
  then show ?case by simp
next
  case (snoc i ys)
  then have "idx ys" by (simp add: idx_def)
  then have ih: "node_from m' pt ys = node_from m pt ys" by (rule snoc.IH)
  show ?case
  proof (cases "node_from m pt ys")
    case None
    then show ?thesis using ih by (simp add: node_snoc)
  next
    case (Some p)
    then show ?thesis using ih assms(1) [OF snoc.prems Some] by (simp add: node_snoc)
  qed
qed

text \<open>A store to a leaf entry.\<close>

lemma PTE_V_pte: "(PA2PTE p OR f OR PTE_V) AND PTE_V \<noteq> 0"
proof -
  have "bit ((PA2PTE p OR f OR PTE_V) AND PTE_V) 0" by (simp add: PTE_V_def bit_simps)
  then show ?thesis by (metis bit_0_eq bot_apply bot_bool_def)
qed

lemma leaf_store_node:
  assumes wf: "wf_pt m pt" and "unat i2 < 512" and "unat i1 < 512" and "unat i0 < 512"
    and "node_from m pt [i2, i1] = Some p0" and "idx ys"
  shows "node_from (st64 m (ent p0 i0) v) pt ys = node_from m pt ys"
proof (rule node_cong [OF _ assms(6)])
  fix xs p i
  assume xi: "idx (xs @ [i])" and p: "node_from m pt xs = Some p"
  then have ix: "idx xs" "unat i < 512" by (simp_all add: idx_def)
  have "p \<noteq> p0"
  proof
    assume "p = p0"
    then have "xs = [i2, i1]" using node_inj [OF wf ix(1) _ p] assms(2,3,5) by simp
    then show False using xi by (simp add: idx_def)
  qed
  moreover have "p mod PGSIZE = 0" "p0 mod PGSIZE = 0"
    using tables_aligned [OF wf ix(1) p] tables_aligned [OF wf _ assms(5)] assms(2,3) by simp_all
  ultimately show "tbl (st64 m (ent p0 i0) v) p i = tbl m p i"
    using ix(2) assms(4) by (simp add: tbl_def ld64_st64_ent)
qed

lemma tables_cong:
  assumes "\<And>ys. idx ys \<Longrightarrow> node_from m' pt ys = node_from m pt ys"
  shows "tables m' pt = tables m pt"
  unfolding tables_def using assms by (intro Collect_cong ex_cong1 conj_cong) simp_all

lemma wf_pt_cong:
  assumes "\<And>ys. idx ys \<Longrightarrow> node_from m' pt ys = node_from m pt ys" and wf: "wf_pt m pt"
  shows "wf_pt m' pt"
proof -
  have "\<forall>p \<in> tables m' pt. p mod PGSIZE = 0 \<and> p \<noteq> 0"
    using wf tables_cong [of m' pt m, OF assms(1)] by (simp add: wf_pt_def)
  moreover have "xs = ys"
    if "idx xs" "idx ys" "node_from m' pt xs = Some p" "node_from m' pt ys = Some p" for xs ys p
    using that assms(1) by (intro node_inj [OF wf, of xs ys p]) simp_all
  ultimately show ?thesis unfolding wf_pt_def by (intro conjI allI impI)
qed

lemma leaf_store:
  assumes wf: "wf_pt m pt" and "va < MAXVA" and p0: "node_from m pt [PX 2 va, PX 1 va] = Some p0"
    and m'_def: "m' = st64 m (ent p0 (PX 0 va)) v"
  shows "wf_pt m' pt" and "tables m' pt = tables m pt"
    and "vb < MAXVA \<Longrightarrow> pval m' pt vb = (if PGROUNDDOWN vb = PGROUNDDOWN va then v else pval m pt vb)"
proof -
  have node: "node_from m' pt ys = node_from m pt ys" if "idx ys" for ys
    unfolding m'_def using leaf_store_node [OF wf PX_bound PX_bound PX_bound p0 that] .
  show "wf_pt m' pt" by (rule wf_pt_cong [OF node wf])
  show "tables m' pt = tables m pt" by (rule tables_cong [OF node])
  assume vb: "vb < MAXVA"
  let ?ys = "[PX 2 vb, PX 1 vb]"
  have ix: "idx ?ys" "idx [PX 2 va, PX 1 va]" by (simp_all add: PX_bound)
  show "pval m' pt vb = (if PGROUNDDOWN vb = PGROUNDDOWN va then v else pval m pt vb)"
  proof (cases "node_from m pt ?ys")
    case None
    then have "PGROUNDDOWN vb \<noteq> PGROUNDDOWN va" using same_page_iff [OF vb assms(2)] p0 by (metis option.distinct(1))
    then show ?thesis using None node [OF ix(1)] by (simp add: pval_def)
  next
    case (Some q)
    have al: "p0 mod PGSIZE = 0" "q mod PGSIZE = 0"
      using tables_aligned [OF wf ix(2) p0] tables_aligned [OF wf ix(1) Some] by simp_all
    have "p0 = q \<and> PX 0 va = PX 0 vb \<longleftrightarrow> PGROUNDDOWN vb = PGROUNDDOWN va"
      using same_page_iff [OF vb assms(2)] node_inj [OF wf ix(1) ix(2) Some] p0 Some by auto
    then show ?thesis using Some node [OF ix(1)]
      by (simp add: pval_def m'_def ld64_st64_ent [OF al PX_bound PX_bound])
  qed
qed

text \<open>A fresh, zeroed table page hung into the tree.\<close>

lemma hang_node:
  assumes wf: "wf_pt m pt" and xi: "idx (xs @ [i])" and p: "node_from m pt xs = Some p" and free: "tbl m p i = None"
    and q: "q mod PGSIZE = 0" "q < PHYSTOP" "q \<notin> tables m pt"
    and m1: "m1 = (\<lambda>a. if in_region q 4096 a then 0 else m a)"
    and m': "m' = st64 m1 (ent p i) (PA2PTE q OR PTE_V)"
  shows "idx ys \<Longrightarrow> node_from m' pt ys = (if ys = xs @ [i] then Some q else node_from m pt ys)"
    and "\<And>r k. r \<in> tables m pt \<Longrightarrow> unat k < 512 \<Longrightarrow> (r, k) \<noteq> (p, i) \<Longrightarrow> ld64 m' (ent r k) = ld64 m (ent r k)"
    and "\<And>k. unat k < 512 \<Longrightarrow> ld64 m' (ent q k) = 0"
proof -
  have ix: "idx xs" "unat i < 512" using xi by (simp_all add: idx_def)
  then have pt: "p \<in> tables m pt" using p by (auto simp: tables_def)
  have al: "r mod PGSIZE = 0" if "r \<in> tables m pt" for r using wf that by (simp add: wf_pt_def)
  have pq: "p \<noteq> q" using pt q(3) by auto
  have m1_other: "ld64 m1 (ent r k) = ld64 m (ent r k)" if "r \<in> tables m pt" "unat k < 512" for r k
  proof (rule ld64_cong)
    fix a assume "in_region (ent r k) 8 a"
    then have "in_region r 4096 a" by (rule ent_in_page [OF al [OF that(1)] that(2)])
    then have "\<not> in_region q 4096 a" using page_disjoint [OF al [OF that(1)] q(1)] q(3) that(1) by blast
    then show "m1 a = m a" by (simp add: m1)
  qed
  have "ld64 m1 (ent q k) = ld64 (\<lambda>_. 0) (ent q k)" if "unat k < 512" for k
    by (rule ld64_cong) (use ent_in_page [OF q(1) that] in \<open>simp add: m1\<close>)
  then show zero: "ld64 m' (ent q k) = 0" if "unat k < 512" for k
    using that pq by (simp add: m' ld64_st64_ent [OF al [OF pt] q(1) ix(2)] ld64_zero)
  show other: "ld64 m' (ent r k) = ld64 m (ent r k)"
    if "r \<in> tables m pt" "unat k < 512" "(r, k) \<noteq> (p, i)" for r k
    using that m1_other by (auto simp: m' ld64_st64_ent [OF al [OF pt] al [OF that(1)] ix(2)])
  have new: "tbl m' p i = Some q"
  proof -
    have "q < 2 ^ 56" using q(2) by (simp add: word_less_nat_alt PHYSTOP_unat)
    then have "PTE2PA (PA2PTE q OR PTE_V) = q" by (intro PTE2PA_entry q(1)) (simp_all add: PTE_V_def)
    moreover have "(PA2PTE q OR PTE_V) AND PTE_V \<noteq> 0" using PTE_V_pte [of q 0] by simp
    ultimately show ?thesis by (simp add: tbl_def m')
  qed
  have empty: "tbl m' q k = None" if "unat k < 512" for k using zero [OF that] by (simp add: tbl_def)
  show "node_from m' pt ys = (if ys = xs @ [i] then Some q else node_from m pt ys)" if "idx ys"
    using that
  proof (induction ys rule: rev_induct)
    case Nil
    then show ?case by simp
  next
    case (snoc k ys)
    have iy: "idx ys" "unat k < 512" using snoc.prems by (simp_all add: idx_def)
    note ih = snoc.IH [OF iy(1)]
    show ?case
    proof (cases "ys = xs @ [i]")
      case True
      then have "node_from m' pt ys = Some q" using ih by simp
      then have "node_from m' pt (ys @ [k]) = None" using empty [OF iy(2)] by (simp add: node_snoc)
      moreover have "node_from m pt ys = None" using True p free by (simp add: node_snoc)
      then have "node_from m pt (ys @ [k]) = None" by (simp add: node_snoc)
      ultimately show ?thesis using True by simp
    next
      case False
      show ?thesis
      proof (cases "node_from m pt ys")
        case None
        then have "ys \<noteq> xs" using p by auto
        then show ?thesis using False ih None by (simp add: node_snoc)
      next
        case (Some r)
        then have rt: "r \<in> tables m pt" using iy(1) by (auto simp: tables_def)
        have "tbl m' r k = (if ys @ [k] = xs @ [i] then Some q else tbl m r k)"
        proof (cases "r = p \<and> k = i")
          case True
          then have "ys = xs" using node_inj [OF wf iy(1) ix(1) Some] p by simp
          then show ?thesis using True new by simp
        next
          case False
          moreover from this have "ys @ [k] \<noteq> xs @ [i]" using Some p by auto
          ultimately show ?thesis using other [OF rt iy(2)] by (auto simp: tbl_def)
        qed
        then show ?thesis using False ih Some by (auto simp: node_snoc)
      qed
    qed
  qed
qed

lemma hang_table:
  assumes wf: "wf_pt m pt" and xi: "idx (xs @ [i])" and p: "node_from m pt xs = Some p" and free: "tbl m p i = None"
    and q: "q mod PGSIZE = 0" "q < PHYSTOP" "q \<notin> tables m pt" "q \<noteq> 0"
    and m1: "m1 = (\<lambda>a. if in_region q 4096 a then 0 else m a)"
    and m': "m' = st64 m1 (ent p i) (PA2PTE q OR PTE_V)"
  shows "wf_pt m' pt" and "tables m' pt = insert q (tables m pt)" and "pval m' pt va = pval m pt va"
    and "node_from m' pt (xs @ [i]) = Some q"
proof -
  note node = hang_node(1) [OF wf xi p free q(1-3) m1 m'] and other = hang_node(2) [OF wf xi p free q(1-3) m1 m']
    and zero = hang_node(3) [OF wf xi p free q(1-3) m1 m']
  have none: "node_from m pt (xs @ [i]) = None" using p free by (simp add: node_snoc)
  show "node_from m' pt (xs @ [i]) = Some q" using node [OF xi] by simp
  have "r \<in> tables m' pt \<longleftrightarrow> r \<in> insert q (tables m pt)" for r
  proof
    assume "r \<in> tables m' pt"
    then obtain ys where "idx ys" "node_from m' pt ys = Some r" by (auto simp: tables_def)
    then show "r \<in> insert q (tables m pt)" using node [of ys] by (auto simp: tables_def split: if_splits)
  next
    assume "r \<in> insert q (tables m pt)"
    then show "r \<in> tables m' pt"
    proof
      assume "r = q"
      then show ?thesis using xi node [OF xi] by (auto simp: tables_def)
    next
      assume "r \<in> tables m pt"
      then obtain ys where ys: "idx ys" "node_from m pt ys = Some r" by (auto simp: tables_def)
      then have "node_from m' pt ys = Some r" using node [OF ys(1)] none by auto
      then show ?thesis using ys(1) by (auto simp: tables_def)
    qed
  qed
  then show tb: "tables m' pt = insert q (tables m pt)" by blast
  have "x = y" if xy: "idx x" "idx y" "node_from m' pt x = Some r" "node_from m' pt y = Some r" for x y r
  proof (cases "r = q")
    case True
    have "z = xs @ [i]" if "idx z" "node_from m' pt z = Some q" for z
    proof (rule ccontr)
      assume "z \<noteq> xs @ [i]"
      then have "node_from m pt z = Some q" using node [OF that(1)] that(2) by simp
      then show False using q(3) that(1) by (auto simp: tables_def)
    qed
    then show ?thesis using xy True by blast
  next
    case False
    then have "node_from m pt x = Some r" "node_from m pt y = Some r"
      using xy node [of x] node [of y] by (auto split: if_splits)
    then show ?thesis using node_inj [OF wf xy(1,2)] by blast
  qed
  moreover have "\<forall>r \<in> tables m' pt. r mod PGSIZE = 0 \<and> r \<noteq> 0"
    unfolding tb using wf q(1,4) by (simp add: wf_pt_def)
  ultimately show "wf_pt m' pt" unfolding wf_pt_def by (intro conjI allI impI)
  let ?ys = "[PX 2 va, PX 1 va]"
  have iy: "idx ?ys" by (simp add: PX_bound)
  show "pval m' pt va = pval m pt va"
  proof (cases "?ys = xs @ [i]")
    case True
    then have "node_from m pt ?ys = None" "node_from m' pt ?ys = Some q"
      using none node [OF iy] by (simp_all only: simp_thms if_True)
    then show ?thesis using zero [OF PX_bound] by (simp add: pval_def)
  next
    case False
    then have same: "node_from m' pt ?ys = node_from m pt ?ys" using node [OF iy] by (simp only: if_False)
    show ?thesis
    proof (cases "node_from m pt ?ys")
      case None
      then show ?thesis using same by (simp add: pval_def)
    next
      case (Some r)
      have "r \<in> tables m pt" by (rule node_in_tables [OF iy Some])
      moreover have "r \<noteq> p"
      proof
        assume "r = p"
        then have "?ys = xs" using node_inj [OF wf iy _ Some] p xi by (simp add: idx_def)
        then show False using xi by (auto simp: idx_def)
      qed
      ultimately show ?thesis using same Some other [OF _ PX_bound] by (simp add: pval_def)
    qed
  qed
qed

section \<open>Walks\<close>

definition path :: "nat \<Rightarrow> u64 \<Rightarrow> u64 list" where
  "path l va = take (2 - l) [PX 2 va, PX 1 va]"

lemma path_simps: "path 0 va = [PX 2 va, PX 1 va]" "path 2 va = []" "path (Suc 0) va = [PX 2 va]"
  by (simp_all add: path_def)

lemma path_step: "l < 2 \<Longrightarrow> path l va = path (Suc l) va @ [PX (Suc l) va]"
  by (cases l) (auto simp: path_def numeral_2_eq_2 less_Suc_eq)

lemma path_idx: "idx (path l va)"
  using set_take_subset [of "2 - l" "[PX 2 va, PX 1 va]"] by (auto simp: path_def idx_def PX_bound)

text \<open>A walk that does not allocate reads the tree.\<close>

lemma walk_loop_read:
  assumes "l \<le> 2" and "node_from (mem s) pt (path l va) = Some p"
  shows "walk_loop l p va False s =
    Ret (case node_from (mem s) pt (path 0 va) of None \<Rightarrow> 0 | Some p0 \<Rightarrow> ent p0 (PX 0 va)) s"
  using assms
proof (induction l arbitrary: p)
  case 0
  then show ?case by (simp add: pte_at_ent)
next
  case (Suc l)
  have l: "l < 2" using Suc.prems by simp
  have nx: "node_from (mem s) pt (path l va) = tbl (mem s) p (PX (Suc l) va)"
    using Suc.prems(2) by (simp add: path_step [OF l] node_snoc)
  show ?case
  proof (cases "tbl (mem s) p (PX (Suc l) va)")
    case None
    have "node_from (mem s) pt (path 0 va) = None"
    proof (cases l)
      case 0
      then show ?thesis using nx None by simp
    next
      case (Suc k)
      then have "l = 1" using l by simp
      then show ?thesis using nx None path_step [of 0 va] by (simp add: node_snoc)
    qed
    then show ?thesis using None by (auto simp: rd_pte_def pte_at_ent tbl_def Let_def split: if_splits)
  next
    case (Some q)
    then have "node_from (mem s) pt (path l va) = Some q" using nx by simp
    then show ?thesis using Suc.IH [of q] Some Suc.prems(1)
      by (auto simp: rd_pte_def pte_at_ent tbl_def Let_def split: if_splits)
  qed
qed

lemma walk_read:
  assumes "va < MAXVA"
  shows "walk pt va False s =
    Ret (case node_from (mem s) pt [PX 2 va, PX 1 va] of None \<Rightarrow> 0 | Some p0 \<Rightarrow> ent p0 (PX 0 va)) s"
  using walk_loop_read [of 2 s pt va pt] assms by (simp add: walk_def path_simps)

text \<open>A walk that finds its entry does not depend on \<^verbatim>\<open>alloc\<close>.\<close>

lemma walk_loop_found: "walk_loop l p va False s = Ret a s \<Longrightarrow> a \<noteq> 0 \<Longrightarrow> walk_loop l p va True s = Ret a s"
  by (induction l arbitrary: p) (auto simp: rd_pte_def split: if_splits)

lemma walk_found: "walk pt va False s = Ret a s \<Longrightarrow> a \<noteq> 0 \<Longrightarrow> walk pt va True s = Ret a s"
  by (auto simp: walk_def walk_loop_found split: if_splits)

text \<open>
  The invariant of an address space, and what an operation that may add table pages does: it
  keeps every entry, takes its new tables from the free pages and writes to tables only.
\<close>

definition pt_inv :: "'z kmem_scheme \<Rightarrow> u64 \<Rightarrow> bool" where
  "pt_inv s pt \<longleftrightarrow> kmem_ready s \<and> wf_pt (mem s) pt \<and> (\<exists>xs. free_list s xs) \<and> free_set s \<inter> tables (mem s) pt = {}"

definition spread :: "u64 \<Rightarrow> 'z kmem_scheme \<Rightarrow> 'z kmem_scheme \<Rightarrow> bool" where
  "spread pt s t \<longleftrightarrow> pt_inv t pt \<and> kend t = kend s \<and>
     tables (mem s) pt \<subseteq> tables (mem t) pt \<and> tables (mem t) pt \<subseteq> tables (mem s) pt \<union> free_set s \<and>
     free_set t \<subseteq> free_set s \<and>
     (\<forall>b. (\<forall>p \<in> tables (mem t) pt. \<not> in_region p 4096 b) \<longrightarrow> mem t b = mem s b)"

definition grown :: "u64 \<Rightarrow> 'z kmem_scheme \<Rightarrow> 'z kmem_scheme \<Rightarrow> bool" where
  "grown pt s t \<longleftrightarrow> spread pt s t \<and> (\<forall>va. pval (mem t) pt va = pval (mem s) pt va)"

lemma spread_refl: "pt_inv s pt \<Longrightarrow> spread pt s s"
  by (simp add: spread_def)

lemma spread_trans: "spread pt s t \<Longrightarrow> spread pt t u \<Longrightarrow> spread pt s u"
proof -
  assume a: "spread pt s t" and b: "spread pt t u"
  have sub: "tables (mem s) pt \<subseteq> tables (mem t) pt" "tables (mem t) pt \<subseteq> tables (mem u) pt"
      "tables (mem u) pt \<subseteq> tables (mem t) pt \<union> free_set t" "tables (mem t) pt \<subseteq> tables (mem s) pt \<union> free_set s"
      "free_set t \<subseteq> free_set s" "free_set u \<subseteq> free_set t"
    using a b unfolding spread_def by simp_all
  have "mem u b = mem s b" if out: "\<forall>p \<in> tables (mem u) pt. \<not> in_region p 4096 b" for b
  proof -
    have "mem u b = mem t b" using b out unfolding spread_def by simp
    moreover have "\<forall>p \<in> tables (mem t) pt. \<not> in_region p 4096 b" using out sub(2) by blast
    then have "mem t b = mem s b" using a unfolding spread_def by simp
    ultimately show ?thesis by simp
  qed
  moreover have "pt_inv u pt" "kend u = kend s" using a b unfolding spread_def by simp_all
  ultimately show ?thesis using sub unfolding spread_def by (intro conjI) (assumption | blast)+
qed

lemma grown_refl: "pt_inv s pt \<Longrightarrow> grown pt s s"
  by (simp add: grown_def spread_refl)

lemma grown_trans: "grown pt s t \<Longrightarrow> grown pt t u \<Longrightarrow> grown pt s u"
  using spread_trans by (auto simp: grown_def)

lemma kalloc_hang:
  assumes inv: "pt_inv s pt" and xi: "idx (xs @ [i])" and p: "node_from (mem s) pt xs = Some p"
    and none: "tbl (mem s) p i = None" and k: "kalloc s = Ret q t" and q0: "q \<noteq> 0"
    and u: "u = t\<lparr>mem := st64 (memset (mem t) q 0 (ucast PGSIZE)) (ent p i) (PA2PTE q OR PTE_V)\<rparr>"
  shows "grown pt s u \<and> node_from (mem u) pt (xs @ [i]) = Some q"
proof -
  obtain fl where r: "kmem_ready s" and wf: "wf_pt (mem s) pt" and fl: "free_list s fl"
      and dj: "free_set s \<inter> tables (mem s) pt = {}"
    using inv by (auto simp: pt_inv_def)
  have "fl \<noteq> []" using kalloc_empty [OF r] fl k q0 by auto
  then obtain y ys where fy: "fl = y # ys" by (cases fl) auto
  obtain t' where "kalloc s = Ret y t'" "free_list t' ys" "kmem_ready t'" "kend t' = kend s"
      "\<forall>a. mem t' a = (if in_region y 4096 a then 5 else mem s a)"
    using kalloc_free_list [OF r fl [unfolded fy]] by (elim exE conjE) simp
  then have yt: "y = q" "free_list t ys" "kmem_ready t" "kend t = kend s"
      "\<And>a. mem t a = (if in_region q 4096 a then 5 else mem s a)"
    using k by simp_all
  have fq: "q \<in> free_set s" "free_set s = insert q (set ys)" "q \<notin> set ys" "page_ok (kend s) q"
    using free_set_eq [OF fl] fl fy yt(1) by (simp_all add: free_list_def)
  then have q: "q mod PGSIZE = 0" "q < PHYSTOP" "q \<notin> tables (mem s) pt"
    using dj by (auto simp: page_ok_def)
  define m1 where "m1 = (\<lambda>a. if in_region q 4096 a then 0 else mem s a)"
  have "memset (mem t) q 0 (ucast PGSIZE) = m1" by (simp add: memset_eq m1_def yt(5) fun_eq_iff)
  then have mu: "mem u = st64 m1 (ent p i) (PA2PTE q OR PTE_V)" by (simp add: u)
  note h = hang_table [OF wf xi p none q q0 m1_def mu]
  have ix: "idx xs" "unat i < 512" using xi by (simp_all add: idx_def)
  have pt: "p \<in> tables (mem s) pt" by (rule node_in_tables [OF ix(1) p])
  have pal: "p mod PGSIZE = 0" using wf pt by (simp add: wf_pt_def)
  have outside: "mem u b = mem s b" if "\<forall>r \<in> tables (mem u) pt. \<not> in_region r 4096 b" for b
  proof -
    have "\<not> in_region q 4096 b" "\<not> in_region p 4096 b" using that h(2) pt by auto
    then have "\<not> in_region (ent p i) 8 b" using ent_in_page [OF pal ix(2)] by blast
    then show ?thesis using \<open>\<not> in_region q 4096 b\<close> by (simp add: mu st64_frame m1_def)
  qed
  have "free_list u ys"
  proof -
    have "mem u b = mem t b" if "in_region x 8 b" "x \<in> set ys" for x b
    proof -
      have xp: "x mod PGSIZE = 0" "x \<noteq> q" "x \<noteq> p"
        using yt(2) that(2) fq dj pt by (auto simp: free_list_def page_ok_def)
      have "in_region x 4096 b" using that(1) by (rule in_region_mono) simp
      then have nb: "\<not> in_region q 4096 b" "\<not> in_region p 4096 b"
        using page_disjoint [OF xp(1) q(1)] page_disjoint [OF xp(1) pal] xp by blast+
      then have "\<not> in_region (ent p i) 8 b" using ent_in_page [OF pal ix(2)] by blast
      then show ?thesis using nb by (simp add: mu st64_frame m1_def yt(5))
    qed
    then have eq: "ld64 (mem u) x = ld64 (mem t) x" if "x \<in> set ys" for x
      using that by (intro ld64_cong) blast
    have "chain (mem t) (freelist t) ys" using yt(2) by (simp add: free_list_def)
    then have "chain (mem u) (freelist t) ys" by (rule chain_cong) (rule eq)
    then show ?thesis using yt(2) by (simp add: free_list_def u)
  qed
  then have fu: "free_set u = set ys" by (rule free_set_eq)
  have ku: "kmem_ready u" "kend u = kend s" using yt(3,4) by (simp_all add: u)
  have "free_set u \<inter> tables (mem u) pt = {}" using fu h(2) fq dj by auto
  then have "pt_inv u pt" using ku(1) h(1) \<open>free_list u ys\<close> by (auto simp: pt_inv_def)
  moreover have "tables (mem s) pt \<subseteq> tables (mem u) pt" "tables (mem u) pt \<subseteq> tables (mem s) pt \<union> free_set s"
      "free_set u \<subseteq> free_set s"
    using h(2) fu fq(1,2) by auto
  ultimately have "grown pt s u"
    using ku(2) h(3) outside unfolding grown_def spread_def by (intro conjI allI impI) simp_all
  then show ?thesis using h(4) by simp
qed

text \<open>A walk that allocates always returns: with the leaf entry, or with 0 when memory is used up.\<close>

lemma walk_loop_alloc:
  assumes "l \<le> 2" and "pt_inv s pt" and "node_from (mem s) pt (path l va) = Some p"
  shows "\<exists>a t. walk_loop l p va True s = Ret a t \<and> grown pt s t \<and>
    (a \<noteq> 0 \<longrightarrow> (\<exists>p0. node_from (mem t) pt (path 0 va) = Some p0 \<and> a = ent p0 (PX 0 va)))"
  using assms
proof (induction l arbitrary: p s)
  case 0
  then show ?case using grown_refl by (simp add: pte_at_ent)
next
  case (Suc l)
  have l: "l < 2" "l \<le> 2" using Suc.prems by simp_all
  let ?i = "PX (Suc l) va"
  have nx: "node_from (mem s) pt (path l va) = tbl (mem s) p ?i"
    using Suc.prems(3) by (simp add: path_step [OF l(1)] node_snoc)
  show ?case
  proof (cases "tbl (mem s) p ?i")
    case (Some q)
    then have "walk_loop (Suc l) p va True s = walk_loop l q va True s"
      by (auto simp: rd_pte_def pte_at_ent tbl_def Let_def split: if_splits)
    then show ?thesis using Suc.IH [OF l(2) Suc.prems(2), of q] nx Some by simp
  next
    case None
    have r: "kmem_ready s" using Suc.prems(2) by (simp add: pt_inv_def)
    obtain q t where k: "kalloc s = Ret q t" using kalloc_eq [OF r] by blast
    let ?u = "t\<lparr>mem := st64 (memset (mem t) q 0 (ucast PGSIZE)) (ent p ?i) (PA2PTE q OR PTE_V)\<rparr>"
    have w: "walk_loop (Suc l) p va True s = (if q = 0 then Ret 0 t else walk_loop l q va True ?u)"
      using None k by (auto simp: rd_pte_def wr_pte_def zero_page_def pte_at_ent tbl_def Let_def split: if_splits)
    show ?thesis
    proof (cases "q = 0")
      case True
      then have "t = s" using k kalloc_eq [OF r] by (auto split: if_splits)
      then show ?thesis using w True grown_refl [OF Suc.prems(2)] by simp
    next
      case False
      have pi: "idx (path (Suc l) va @ [?i])" using path_idx [of l va] path_step [OF l(1), of va] by simp
      have h: "grown pt s ?u" "node_from (mem ?u) pt (path l va) = Some q"
        using kalloc_hang [OF Suc.prems(2) pi Suc.prems(3) None k False refl] path_step [OF l(1), of va] by simp_all
      then have "pt_inv ?u pt" by (simp add: grown_def spread_def)
      then obtain a v where "walk_loop l q va True ?u = Ret a v" "grown pt ?u v"
          "a \<noteq> 0 \<longrightarrow> (\<exists>p0. node_from (mem v) pt (path 0 va) = Some p0 \<and> a = ent p0 (PX 0 va))"
        using Suc.IH [OF l(2) _ h(2)] by blast
      then show ?thesis using w False grown_trans [OF h(1)] by auto
    qed
  qed
qed

lemma walk_alloc:
  assumes "va < MAXVA" and "pt_inv s pt"
  shows "\<exists>a t. walk pt va True s = Ret a t \<and> grown pt s t \<and>
    (a \<noteq> 0 \<longrightarrow> (\<exists>p0. node_from (mem t) pt [PX 2 va, PX 1 va] = Some p0 \<and> a = ent p0 (PX 0 va)))"
  using walk_loop_alloc [of 2 s pt va pt] assms by (simp add: walk_def path_simps)

section \<open>Mapping and unmapping\<close>

lemma free_list_frame:
  assumes fl: "free_list s xs" and "u = s\<lparr>mem := m'\<rparr>"
    and "\<And>x b. x \<in> set xs \<Longrightarrow> in_region x 4096 b \<Longrightarrow> m' b = mem s b"
  shows "free_list u xs"
proof -
  have eq: "ld64 m' x = ld64 (mem s) x" if "x \<in> set xs" for x
    using that assms(3) in_region_mono [of x 8 _ 4096] by (intro ld64_cong) simp
  have "chain (mem s) (freelist s) xs" using fl by (simp add: free_list_def)
  then have "chain m' (freelist s) xs" by (rule chain_cong) (rule eq)
  then show ?thesis using fl by (simp add: free_list_def assms(2))
qed

lemma store_leaf:
  assumes inv: "pt_inv s pt" and va: "va < MAXVA" and p0: "node_from (mem s) pt [PX 2 va, PX 1 va] = Some p0"
    and u: "u = s\<lparr>mem := st64 (mem s) (ent p0 (PX 0 va)) v\<rparr>"
  shows "spread pt s u" and "free_set u = free_set s"
    and "vb < MAXVA \<Longrightarrow> pval (mem u) pt vb = (if PGROUNDDOWN vb = PGROUNDDOWN va then v else pval (mem s) pt vb)"
proof -
  obtain xs where r: "kmem_ready s" and wf: "wf_pt (mem s) pt" and fl: "free_list s xs"
      and dj: "free_set s \<inter> tables (mem s) pt = {}"
    using inv by (auto simp: pt_inv_def)
  have mu: "mem u = st64 (mem s) (ent p0 (PX 0 va)) v" by (simp add: u)
  note ls = leaf_store [OF wf va p0 mu]
  then show "vb < MAXVA \<Longrightarrow> pval (mem u) pt vb = (if PGROUNDDOWN vb = PGROUNDDOWN va then v else pval (mem s) pt vb)"
    by blast
  have ix: "idx [PX 2 va, PX 1 va]" by (simp add: PX_bound)
  have pt0: "p0 \<in> tables (mem s) pt" by (rule node_in_tables [OF ix p0])
  have al: "p0 mod PGSIZE = 0" using tables_aligned [OF wf ix p0] by simp
  have out: "mem u b = mem s b" if "\<not> in_region p0 4096 b" for b
    using that ent_in_page [OF al PX_bound] unfolding mu by (intro st64_frame) blast
  have "free_list u xs"
  proof (rule free_list_frame [OF fl u])
    fix x b assume x: "x \<in> set xs" and b: "in_region x 4096 b"
    have "x \<noteq> p0" using x pt0 dj free_set_eq [OF fl] by auto
    moreover have "x mod PGSIZE = 0" using fl x by (simp add: free_list_def page_ok_def)
    ultimately have "\<not> in_region p0 4096 b" using page_disjoint [of x p0 b] al b by simp
    then show "st64 (mem s) (ent p0 (PX 0 va)) v b = mem s b" using out by (simp add: mu)
  qed
  then show fs: "free_set u = free_set s" using free_set_eq fl by metis
  have "pt_inv u pt" using ls(1,2) dj fs \<open>free_list u xs\<close> r by (auto simp: pt_inv_def u)
  then show "spread pt s u" unfolding spread_def using ls(2) fs out pt0 by (auto simp: u)
qed

lemma PGROUNDDOWN_unat: "unat (PGROUNDDOWN a) = unat a div 4096 * 4096"
proof -
  have m: "PGSIZE - 1 = mask 12" by (simp add: PGSIZE_def mask_eq_exp_minus_1)
  show ?thesis unfolding PGROUNDDOWN_def m by (simp only: unat_and_not_mask) simp
qed

lemma PGROUNDDOWN_aligned [simp]: "PGROUNDDOWN a mod PGSIZE = 0"
  by (simp add: page_unat PGROUNDDOWN_unat)

lemma PGROUNDDOWN_id: "a mod PGSIZE = 0 \<Longrightarrow> PGROUNDDOWN a = a"
  unfolding page_unat by (simp add: word_unat_eq_iff PGROUNDDOWN_unat mod_0_imp_dvd)

text \<open>The virtual addresses whose page lies between two page boundaries.\<close>

definition in_pages :: "u64 \<Rightarrow> u64 \<Rightarrow> u64 \<Rightarrow> bool" where
  "in_pages a b v \<longleftrightarrow> a \<le> PGROUNDDOWN v \<and> PGROUNDDOWN v \<le> b"

lemma MAXVA_step: "a < MAXVA \<Longrightarrow> a mod PGSIZE = 0 \<Longrightarrow> unat (a + PGSIZE) = unat a + 4096 \<and> a < a + PGSIZE"
proof -
  assume "a < MAXVA"
  then have "unat a < 2 ^ 38" by (simp add: MAXVA_def word_less_nat_alt)
  then have "unat (a + PGSIZE) = unat a + 4096" by (subst unat_add_no_wrap) (simp_all add: PGSIZE_def)
  then show ?thesis by (simp add: word_less_nat_alt)
qed

lemma in_pages_step:
  assumes "a mod PGSIZE = 0" and "a < MAXVA" and "a \<noteq> b" and "b mod PGSIZE = 0" and "a \<le> b"
  shows "in_pages a b v \<longleftrightarrow> PGROUNDDOWN v = a \<or> in_pages (a + PGSIZE) b v" and "a + PGSIZE \<le> b"
    and "PGROUNDDOWN v = a \<Longrightarrow> \<not> in_pages (a + PGSIZE) b v"
  using MAXVA_step [OF assms(2,1)] next_page [OF assms(1), of "PGROUNDDOWN v"] next_page [OF assms(1,4)] assms
  by (auto simp: in_pages_def)

lemma ent_nonzero: "p mod PGSIZE = 0 \<Longrightarrow> p \<noteq> 0 \<Longrightarrow> unat i < 512 \<Longrightarrow> ent p i \<noteq> 0"
  using ent_unat [of p i] by (auto simp: word_unat_eq_iff)

lemma pval_node: "node_from m pt [PX 2 va, PX 1 va] = Some p0 \<Longrightarrow> ld64 m (ent p0 (PX 0 va)) = pval m pt va"
  by (simp add: pval_def)

lemma pval_page:
  assumes "va < MAXVA" and "vb < MAXVA" and "PGROUNDDOWN va = PGROUNDDOWN vb"
  shows "pval m pt va = pval m pt vb"
proof -
  have px: "PX 2 va = PX 2 vb" "PX 1 va = PX 1 vb" "PX 0 va = PX 0 vb"
    using same_page_iff [OF assms(1,2)] assms(3) by blast+
  show ?thesis unfolding pval_def px ..
qed

lemma mappages_loop_maps:
  assumes "pt_inv s pt" and "a mod PGSIZE = 0" and "b mod PGSIZE = 0" and "a \<le> b"
    and "mappages_loop pt a b pa perm s = Ret 0 t"
  shows "spread pt s t \<and> b < MAXVA \<and> (\<forall>v < MAXVA. in_pages a b v \<longrightarrow> pval (mem s) pt v AND PTE_V = 0) \<and>
    (\<forall>v < MAXVA. pval (mem t) pt v =
       (if in_pages a b v then PA2PTE (pa + (PGROUNDDOWN v - a)) OR perm OR PTE_V else pval (mem s) pt v))"
  using assms
proof (induction pt a b pa perm arbitrary: s rule: mappages_loop.induct)
  case (1 pt a b pa perm)
  have amax: "a < MAXVA"
  proof (rule ccontr)
    assume "\<not> a < MAXVA"
    then have "walk pt a True s = Panic ''walk''" by (simp add: walk_def not_less)
    then show False using 1(6) unfolding mappages_loop.simps [of pt a] by simp
  qed
  obtain p u where w: "walk pt a True s = Ret p u" "grown pt s u"
      "p \<noteq> 0 \<longrightarrow> (\<exists>p0. node_from (mem u) pt [PX 2 a, PX 1 a] = Some p0 \<and> p = ent p0 (PX 0 a))"
    using walk_alloc [OF amax 1(2)] by blast
  note body = 1(6) [unfolded mappages_loop.simps [of pt a]]
  have "p \<noteq> 0" using body w(1) by auto
  then obtain p0 where p0: "node_from (mem u) pt [PX 2 a, PX 1 a] = Some p0" "p = ent p0 (PX 0 a)" using w(3) by blast
  let ?v = "PA2PTE pa OR perm OR PTE_V" and ?x = "u\<lparr>mem := st64 (mem u) p (PA2PTE pa OR perm OR PTE_V)\<rparr>"
  have inv: "pt_inv u pt" "spread pt s u" "\<And>va. pval (mem u) pt va = pval (mem s) pt va"
    using w(2) by (simp_all add: grown_def spread_def)
  have st: "spread pt u ?x" "\<And>vb. vb < MAXVA \<Longrightarrow>
      pval (mem ?x) pt vb = (if PGROUNDDOWN vb = a then ?v else pval (mem s) pt vb)"
    using store_leaf(1,3) [OF inv(1) amax p0(1), of ?x ?v] inv(3) PGROUNDDOWN_id [OF 1(3)] by (simp_all add: p0(2))
  have unmapped: "pval (mem s) pt a AND PTE_V = 0"
    using body w(1) \<open>p \<noteq> 0\<close> pval_node [OF p0(1)] inv(3) by (auto simp: rd_pte_def p0(2) split: if_splits)
  have same: "pval (mem s) pt v = pval (mem s) pt a" if "v < MAXVA" "PGROUNDDOWN v = a" for v
    using pval_page [OF that(1) amax] that(2) PGROUNDDOWN_id [OF 1(3)] by simp
  have run: "(if a = b then Ret 0 ?x
      else if a < a + PGSIZE then mappages_loop pt (a + PGSIZE) b (pa + PGSIZE) perm ?x else Diverge) = Ret 0 t"
    using body w(1) \<open>p \<noteq> 0\<close> by (auto simp: rd_pte_def wr_pte_def split: if_splits)
  show ?case
  proof (cases "a = b")
    case True
    then have "t = ?x" using run by simp
    moreover have "in_pages a b v \<longleftrightarrow> PGROUNDDOWN v = a" for v using True by (auto simp: in_pages_def)
    ultimately show ?thesis using True amax st spread_trans [OF inv(2)] unmapped same by simp
  next
    case False
    note stp = in_pages_step [OF 1(3) amax False 1(4,5)]
    have up: "a < a + PGSIZE" "(a + PGSIZE) mod PGSIZE = 0"
      using MAXVA_step [OF amax 1(3)] 1(3) by (simp_all add: page_unat)
    have "\<exists>v. pt_inv ?x pt" using st(1) by (simp add: spread_def)
    then have ih: "spread pt ?x t \<and> b < MAXVA \<and>
        (\<forall>v < MAXVA. in_pages (a + PGSIZE) b v \<longrightarrow> pval (mem ?x) pt v AND PTE_V = 0) \<and>
        (\<forall>v < MAXVA. pval (mem t) pt v =
          (if in_pages (a + PGSIZE) b v then PA2PTE (pa + PGSIZE + (PGROUNDDOWN v - (a + PGSIZE))) OR perm OR PTE_V
           else pval (mem ?x) pt v))"
      using run False up stp(2) 1(4) by (intro 1(1) [of p "pval (mem s) pt a"]) (simp_all add: unmapped \<open>p \<noteq> 0\<close>)
    have "pval (mem t) pt v =
        (if in_pages a b v then PA2PTE (pa + (PGROUNDDOWN v - a)) OR perm OR PTE_V else pval (mem s) pt v)"
      if v: "v < MAXVA" for v
      using ih st(2) [OF v] stp(1,3) [of v] v by (auto simp: algebra_simps)
    moreover have "pval (mem s) pt v AND PTE_V = 0" if "v < MAXVA" "in_pages a b v" for v
      using ih st(2) [OF that(1)] stp(1,3) [of v] that same [OF that(1)] unmapped by (auto split: if_splits)
    moreover have "spread pt s t" using ih spread_trans st(1) inv(2) by blast
    ultimately show ?thesis using ih by blast
  qed
qed

end
