(* ===== verification/Uaccess.thy ===== *)
theory Uaccess
  imports Pagetable
begin

text \<open>
  User memory through a page table: \<open>uaddr\<close> is the physical address of a user virtual address, and the
  copies of \<^verbatim>\<open>vm.c\<close> between the kernel and user memory, \<open>copyout\<close>, \<open>copyin\<close> and \<open>copyinstr\<close>, read and write
  the bytes it gives, page after page, and fail exactly when one of them has no address.
\<close>

section \<open>User memory\<close>

text \<open>The physical address of a user byte, if the user may access it.\<close>

definition uaddr :: "ram \<Rightarrow> u64 \<Rightarrow> u64 \<Rightarrow> u64 option" where
  "uaddr m pt va =
     (let v = pval m pt va in
      if va < MAXVA \<and> v AND PTE_V \<noteq> 0 \<and> v AND PTE_U \<noteq> 0 \<and> PTE2PA v \<noteq> 0
      then Some (PTE2PA v + (va - PGROUNDDOWN va)) else None)"

text \<open>User pages are not page-table pages, and no two virtual pages share a physical one.\<close>

definition user_sep :: "ram \<Rightarrow> u64 \<Rightarrow> bool" where
  "user_sep m pt \<longleftrightarrow>
     (\<forall>va a. uaddr m pt va = Some a \<longrightarrow> PTE2PA (pval m pt va) \<notin> tables m pt) \<and>
     (\<forall>va vb a b. uaddr m pt va = Some a \<longrightarrow> uaddr m pt vb = Some b \<longrightarrow>
        PTE2PA (pval m pt va) = PTE2PA (pval m pt vb) \<longrightarrow> PGROUNDDOWN va = PGROUNDDOWN vb)"

lemma tables_frame:
  assumes wf: "wf_pt m pt" and "\<And>p b. p \<in> tables m pt \<Longrightarrow> in_region p 4096 b \<Longrightarrow> m' b = m b"
  shows "idx ys \<Longrightarrow> node_from m' pt ys = node_from m pt ys" and "pval m' pt va = pval m pt va"
    and "wf_pt m' pt" and "tables m' pt = tables m pt"
proof -
  have ld: "ld64 m' (ent p i) = ld64 m (ent p i)" if "p \<in> tables m pt" "unat i < 512" for p i
  proof (rule ld64_cong)
    fix b assume "in_region (ent p i) 8 b"
    moreover have "p mod PGSIZE = 0" using wf that(1) by (simp add: wf_pt_def)
    ultimately have "in_region p 4096 b" using ent_in_page [of p i b] that(2) by simp
    then show "m' b = m b" by (rule assms(2) [OF that(1)])
  qed
  show node: "node_from m' pt ys = node_from m pt ys" if "idx ys" for ys
  proof (rule node_cong [OF _ that])
    fix xs p i
    assume xi: "idx (xs @ [i])" and p: "node_from m pt xs = Some p"
    then have "p \<in> tables m pt" by (intro node_in_tables [of xs]) (simp_all add: idx_def)
    moreover have "unat i < 512" using xi by (simp add: idx_def)
    ultimately show "tbl m' p i = tbl m p i" by (simp add: tbl_def ld)
  qed
  show "wf_pt m' pt" by (rule wf_pt_cong [OF node wf])
  show "tables m' pt = tables m pt" by (rule tables_cong [OF node])
  have ix: "idx [PX 2 va, PX 1 va]" by (simp add: PX_bound)
  show "pval m' pt va = pval m pt va"
  proof (cases "node_from m pt [PX 2 va, PX 1 va]")
    case None
    then show ?thesis using node [OF ix] by (simp add: pval_def)
  next
    case (Some p)
    then show ?thesis using node [OF ix] ld [OF node_in_tables [OF ix Some] PX_bound] by (simp add: pval_def)
  qed
qed

lemma walkaddr_eq:
  assumes wf: "wf_pt (mem s) pt"
  shows "walkaddr pt va s =
    Ret (if va < MAXVA \<and> pval (mem s) pt va AND PTE_V \<noteq> 0 \<and> pval (mem s) pt va AND PTE_U \<noteq> 0
         then PTE2PA (pval (mem s) pt va) else 0) s"
proof (cases "va < MAXVA")
  case False
  then show ?thesis by (auto simp: walkaddr_def)
next
  case True
  have ix: "idx [PX 2 va, PX 1 va]" by (simp add: PX_bound)
  show ?thesis
  proof (cases "node_from (mem s) pt [PX 2 va, PX 1 va]")
    case None
    then show ?thesis using True walk_read [OF True, of pt s] by (simp add: walkaddr_def pval_def not_le)
  next
    case (Some p0)
    then have "ent p0 (PX 0 va) \<noteq> 0" using tables_aligned [OF wf ix Some] by (intro ent_nonzero PX_bound) simp_all
    then show ?thesis using True walk_read [OF True, of pt s] Some pval_node [OF Some]
      by (auto simp: walkaddr_def not_le rd_pte_def)
  qed
qed

text \<open>Addresses in the page of \<open>va\<close>.\<close>

lemma page_offset: "unat (va - PGROUNDDOWN va) = unat va mod 4096"
proof -
  have "PGROUNDDOWN va \<le> va" by (simp add: word_le_nat_alt PGROUNDDOWN_unat)
  then have "unat (va - PGROUNDDOWN va) = unat va - unat va div 4096 * 4096"
    by (simp add: unat_diff_u64 PGROUNDDOWN_unat)
  then show ?thesis by (simp add: minus_div_mult_eq_mod)
qed

lemma within_page:
  assumes "i < 4096 - unat (va - PGROUNDDOWN va)"
  shows "PGROUNDDOWN (va + of_nat i) = PGROUNDDOWN va" and "unat (va + of_nat i) = unat va + i"
proof -
  have m: "unat va mod 4096 + i < 4096" using assms by (simp add: page_offset)
  have dm: "unat va = unat va div 4096 * 4096 + unat va mod 4096" by simp
  have "unat (PGROUNDDOWN va) + 4096 \<le> 2 ^ 64" by (rule page_end) simp
  then have "unat va + i < 2 ^ 64" using m dm unfolding PGROUNDDOWN_unat by linarith
  then show u: "unat (va + of_nat i) = unat va + i"
    using m by (subst unat_add_no_wrap) (simp_all add: unat_of_nat_u64)
  have "(unat va + i) div 4096 = unat va div 4096" using m dm by (subst div_eq_iff_between) linarith+
  then show "PGROUNDDOWN (va + of_nat i) = PGROUNDDOWN va"
    by (simp add: word_unat_eq_iff PGROUNDDOWN_unat u)
qed

lemma MAXVA_page: "PGROUNDDOWN va < MAXVA \<longleftrightarrow> va < MAXVA"
proof -
  have "unat va div 4096 * 4096 < 2 ^ 26 * 4096 \<longleftrightarrow> unat va div 4096 < 2 ^ 26" by simp
  also have "\<dots> \<longleftrightarrow> unat va < 2 ^ 26 * 4096" by (rule div_less_iff_less_mult) simp
  finally show ?thesis by (simp add: word_less_nat_alt PGROUNDDOWN_unat MAXVA_def)
qed

lemma uaddr_in_page:
  assumes "i < 4096 - unat (va - PGROUNDDOWN va)"
  shows "uaddr m pt (va + of_nat i) = map_option (\<lambda>a. a + of_nat i) (uaddr m pt va)"
proof -
  note w = within_page [OF assms]
  have mx: "va + of_nat i < MAXVA \<longleftrightarrow> va < MAXVA"
    using MAXVA_page [of "va + of_nat i"] MAXVA_page [of va] w(1) by simp
  show ?thesis
  proof (cases "va < MAXVA")
    case True
    then have "pval m pt (va + of_nat i) = pval m pt va" using mx w(1) by (intro pval_page) simp_all
    then show ?thesis using mx w(1) by (simp add: uaddr_def Let_def algebra_simps)
  next
    case False
    then show ?thesis using mx by (simp add: uaddr_def Let_def)
  qed
qed

lemma uaddr_region:
  assumes "uaddr m pt va = Some a"
  shows "in_region (PTE2PA (pval m pt va)) 4096 a"
  using assms page_offset_bound [of va] by (auto simp: uaddr_def Let_def in_region_def split: if_splits)

lemma uaddr_inj:
  assumes sep: "user_sep m pt" and a: "uaddr m pt va = Some a" and b: "uaddr m pt vb = Some a"
  shows "va = vb"
proof -
  let ?p = "PTE2PA (pval m pt va)" and ?q = "PTE2PA (pval m pt vb)"
  have "?p = ?q"
    using uaddr_region [OF a] uaddr_region [OF b] page_disjoint [OF PTE2PA_aligned PTE2PA_aligned] by blast
  then have "PGROUNDDOWN va = PGROUNDDOWN vb" using sep a b unfolding user_sep_def by blast
  moreover have "?p + (va - PGROUNDDOWN va) = ?q + (vb - PGROUNDDOWN vb)"
    using a b by (auto simp: uaddr_def Let_def split: if_splits)
  ultimately show ?thesis using \<open>?p = ?q\<close> by simp
qed

section \<open>Copies\<close>

text \<open>
  What a copy to user memory leaves: nothing changes but the bytes of the destination; a copy
  that succeeded has put the source there.
\<close>

definition wrote_user :: "ram \<Rightarrow> ram \<Rightarrow> u64 \<Rightarrow> u64 \<Rightarrow> nat \<Rightarrow> bool" where
  "wrote_user m m' pt dst n \<longleftrightarrow> (\<forall>a. (\<forall>i < n. uaddr m pt (dst + of_nat i) \<noteq> Some a) \<longrightarrow> m' a = m a)"

definition holds_bytes :: "ram \<Rightarrow> ram \<Rightarrow> u64 \<Rightarrow> u64 \<Rightarrow> byte list \<Rightarrow> bool" where
  "holds_bytes m m' pt va bs \<longleftrightarrow>
     (\<forall>i < length bs. \<exists>a. uaddr m pt (va + of_nat i) = Some a \<and> m' a = bs ! i)"

lemma wrote_user_tables:
  assumes "user_sep m pt" and "wf_pt m pt" and "wrote_user m m' pt dst n" and "p \<in> tables m pt" and "in_region p 4096 b"
  shows "m' b = m b"
proof -
  have "uaddr m pt va \<noteq> Some b" for va
  proof
    assume u: "uaddr m pt va = Some b"
    have "p mod PGSIZE = 0" using assms(2,4) by (simp add: wf_pt_def)
    then have "PTE2PA (pval m pt va) = p"
      using page_disjoint [OF PTE2PA_aligned, of p "pval m pt va" b] uaddr_region [OF u] assms(5) by (metis (full_types))
    then show False using assms(1,4) u unfolding user_sep_def by blast
  qed
  then show ?thesis using assms(3) unfolding wrote_user_def by blast
qed

lemma uaddr_cong: "(\<And>va. pval m' pt va = pval m pt va) \<Longrightarrow> uaddr m' pt = uaddr m pt"
  by (rule ext) (simp add: uaddr_def)

lemma wrote_user_keeps:
  assumes sep: "user_sep m pt" and wf: "wf_pt m pt" and w: "wrote_user m m' pt dst n"
  shows "wf_pt m' pt" and "user_sep m' pt" and "uaddr m' pt = uaddr m pt" and "tables m' pt = tables m pt"
    and "pval m' pt va = pval m pt va"
proof -
  note fr = tables_frame [OF wf, of m', OF wrote_user_tables [OF sep wf w]]
  show "wf_pt m' pt" by (rule fr(3))
  show ua: "uaddr m' pt = uaddr m pt" by (rule uaddr_cong) (rule fr(2))
  show "tables m' pt = tables m pt" by (rule fr(4))
  show "pval m' pt va = pval m pt va" by (rule fr(2))
  show "user_sep m' pt" using sep by (simp only: user_sep_def ua fr(2,4))
qed

lemma first_page:
  assumes wf: "wf_pt (mem s) pt"
  shows "walkaddr pt (PGROUNDDOWN va) s =
    Ret (case uaddr (mem s) pt va of None \<Rightarrow> 0 | Some a \<Rightarrow> a - (va - PGROUNDDOWN va)) s"
proof (cases "va < MAXVA")
  case True
  then have "PGROUNDDOWN va < MAXVA" by (simp add: MAXVA_page)
  moreover have "PGROUNDDOWN (PGROUNDDOWN va) = PGROUNDDOWN va" by (rule PGROUNDDOWN_id) simp
  ultimately have "pval (mem s) pt (PGROUNDDOWN va) = pval (mem s) pt va" using True by (intro pval_page) simp_all
  then show ?thesis using walkaddr_eq [OF wf, of "PGROUNDDOWN va"] True MAXVA_page [of va]
    by (auto simp: uaddr_def Let_def)
next
  case False
  then show ?thesis using walkaddr_eq [OF wf, of "PGROUNDDOWN va"] MAXVA_page [of va] by (simp add: uaddr_def Let_def)
qed

lemma uaddr_minus_offset: "uaddr m pt va = Some a \<Longrightarrow> a - (va - PGROUNDDOWN va) \<noteq> 0"
  by (auto simp: uaddr_def Let_def split: if_splits)

lemma next_chunk:
  assumes "first_chunk va len < len"
  shows "PGROUNDDOWN va + PGSIZE = va + of_nat (first_chunk va len)"
proof -
  let ?o = "va - PGROUNDDOWN va"
  have n: "first_chunk va len = 4096 - unat ?o" using assms by (auto simp: first_chunk_def min_def split: if_splits)
  have "of_nat (4096 - unat ?o) = (4096 :: u64) - ?o"
    using page_offset_bound [of va] by (simp add: of_nat_diff)
  then show ?thesis unfolding n by (simp add: PGSIZE_def)
qed

lemma first_chunk_le: "first_chunk va len \<le> len" "first_chunk va len \<le> 4096 - unat (va - PGROUNDDOWN va)"
  by (simp_all add: first_chunk_def)

lemma chunk_write:
  assumes u: "uaddr m pt dst = Some a" and n: "n = first_chunk dst (length src)"
    and m1: "m1 = put_bytes m a (take n src)"
  shows "wrote_user m m1 pt dst n" and "\<And>i. i < n \<Longrightarrow> uaddr m pt (dst + of_nat i) = Some (a + of_nat i)"
    and "\<And>i. i < n \<Longrightarrow> m1 (a + of_nat i) = src ! i"
proof -
  have le: "n \<le> length src" "n \<le> 4096 - unat (dst - PGROUNDDOWN dst)" "n \<le> 4096"
    using first_chunk_le [of dst "length src"] by (simp_all add: n)
  show ua: "uaddr m pt (dst + of_nat i) = Some (a + of_nat i)" if "i < n" for i
    using uaddr_in_page [of i dst m pt] that le(2) u by simp
  have pb: "m1 b = (if in_region a n b then src ! unat (b - a) else m b)" for b
    using put_bytes_apply [of "take n src" m a b] le by (auto simp: m1 in_region_def)
  show "m1 (a + of_nat i) = src ! i" if "i < n" for i
    using that le(3) by (simp add: pb in_region_def unat_of_nat_u64)
  show "wrote_user m m1 pt dst n" unfolding wrote_user_def
  proof (intro allI impI)
    fix b assume nb: "\<forall>i < n. uaddr m pt (dst + of_nat i) \<noteq> Some b"
    have "\<not> in_region a n b"
    proof
      assume "in_region a n b"
      then have "unat (b - a) < n" by (simp add: in_region_def)
      then show False using nb ua [of "unat (b - a)"] by auto
    qed
    then show "m1 b = m b" by (simp add: pb)
  qed
qed

lemma wrote_user_append:
  assumes "wrote_user m m1 pt dst n" and "wrote_user m1 m2 pt (dst + of_nat n) k" and "uaddr m1 pt = uaddr m pt"
  shows "wrote_user m m2 pt dst (n + k)"
  unfolding wrote_user_def
proof (intro allI impI)
  fix a assume a: "\<forall>i < n + k. uaddr m pt (dst + of_nat i) \<noteq> Some a"
  have "uaddr m1 pt (dst + of_nat n + of_nat i) \<noteq> Some a" if "i < k" for i
    using a [rule_format, of "n + i"] that assms(3) by (simp add: add.assoc)
  then have "m2 a = m1 a" using assms(2) unfolding wrote_user_def by blast
  also have "m1 a = m a" using assms(1) a unfolding wrote_user_def by simp
  finally show "m2 a = m a" .
qed

lemma add_of_nat_inj:
  assumes "unat (d::u64) + k < 2 ^ 64" and "i < k" and "j < k" and "d + of_nat i = d + of_nat j"
  shows "i = j"
proof -
  have "(of_nat i :: u64) = of_nat j" using assms(4) by simp
  then have "unat (of_nat i :: u64) = unat (of_nat j :: u64)" by simp
  then show ?thesis using assms(1-3) by (simp add: unat_of_nat_u64)
qed

text \<open>The user memory of a range of virtual addresses is mapped.\<close>

definition umapped :: "(u64 \<Rightarrow> byte) \<Rightarrow> u64 \<Rightarrow> u64 \<Rightarrow> nat \<Rightarrow> bool" where
  "umapped m pt va n \<longleftrightarrow> (\<forall>i < n. uaddr m pt (va + of_nat i) \<noteq> None)"

lemma all_less_add: "(\<forall>i < n + k. P i) \<longleftrightarrow> (\<forall>i < n. P i) \<and> (\<forall>i < (k::nat). P (n + i))"
proof
  assume R: "(\<forall>i < n. P i) \<and> (\<forall>i < k. P (n + i))"
  show "\<forall>i < n + k. P i"
  proof (intro allI impI)
    fix i assume "i < n + k"
    then show "P i" using R by (cases "i < n") (auto dest: spec [of _ "i - n"])
  qed
qed auto

lemma umapped_append: "umapped m pt va (n + k) \<longleftrightarrow> umapped m pt va n \<and> umapped m pt (va + of_nat n) k"
  unfolding umapped_def all_less_add by (simp add: add.assoc)

lemma umapped_first: "umapped m pt va n \<Longrightarrow> 0 < n \<Longrightarrow> uaddr m pt va \<noteq> None"
  using spec [of _ 0] by (fastforce simp: umapped_def)

lemma holds_bytes_append:
  "holds_bytes m m' pt va (xs @ ys) \<longleftrightarrow> holds_bytes m m' pt va xs \<and> holds_bytes m m' pt (va + of_nat (length xs)) ys"
  unfolding holds_bytes_def length_append all_less_add by (simp add: nth_append add.assoc)

lemma holds_bytes_later:
  assumes sep: "user_sep m pt" and hb: "holds_bytes m m1 pt va xs"
    and w: "wrote_user m1 m2 pt (va + of_nat (length xs)) k" and ua: "uaddr m1 pt = uaddr m pt"
    and bd: "unat va + (length xs + k) < 2 ^ 64"
  shows "holds_bytes m m2 pt va xs"
  unfolding holds_bytes_def
proof (intro allI impI)
  fix i assume i: "i < length xs"
  obtain a where a: "uaddr m pt (va + of_nat i) = Some a" "m1 a = xs ! i"
    using hb i unfolding holds_bytes_def by blast
  have "uaddr m1 pt (va + of_nat (length xs) + of_nat j) \<noteq> Some a" if j: "j < k" for j
  proof
    assume "uaddr m1 pt (va + of_nat (length xs) + of_nat j) = Some a"
    then have "uaddr m pt (va + of_nat (length xs + j)) = Some a" by (simp add: ua add.assoc)
    then have "va + of_nat (length xs + j) = va + of_nat i" by (rule uaddr_inj [OF sep _ a(1)])
    then have "length xs + j = i" by (rule add_of_nat_inj [OF bd, rotated 2]) (use i j in simp_all)
    then show False using i by simp
  qed
  then have "m2 a = m1 a" using w unfolding wrote_user_def by blast
  then show "\<exists>a. uaddr m pt (va + of_nat i) = Some a \<and> m2 a = xs ! i" using a by auto
qed

lemma holds_bytes_cong: "uaddr m1 pt = uaddr m pt \<Longrightarrow> holds_bytes m1 m' pt va bs = holds_bytes m m' pt va bs"
  by (simp add: holds_bytes_def)

lemma unat_add_of_nat: "unat (d::u64) + n < 2 ^ 64 \<Longrightarrow> unat (d + of_nat n) = unat d + n"
  by (subst unat_add_no_wrap) (simp_all add: unat_of_nat_u64)

definition copied_out :: "ram \<Rightarrow> u64 \<Rightarrow> u64 \<Rightarrow> byte list \<Rightarrow> int \<Rightarrow> ram \<Rightarrow> bool" where
  "copied_out m pt dst src r m' \<longleftrightarrow>
     r = (if umapped m pt dst (length src) then 0 else -1) \<and> wrote_user m m' pt dst (length src) \<and>
     (r = 0 \<longrightarrow> holds_bytes m m' pt dst src)"

lemma copied_out_step:
  assumes sep: "user_sep m pt" and wf: "wf_pt m pt" and u: "uaddr m pt dst = Some a"
    and n: "n = first_chunk dst (length src)" and m1: "m1 = put_bytes m a (take n src)"
    and bd: "unat dst + length src < 2 ^ 64" and r: "copied_out m1 pt (dst + of_nat n) (drop n src) r m'"
  shows "copied_out m pt dst src r m'"
proof -
  note cw = chunk_write [OF u n m1]
  note kp = wrote_user_keeps [OF sep wf cw(1)]
  have nle: "n \<le> length src" using first_chunk_le n by simp
  define k where "k = length (drop n src)"
  have len: "length src = n + k" using nle by (simp add: k_def)
  have um: "umapped m1 pt va j = umapped m pt va j" for va j by (simp add: umapped_def kp(3))
  have fst: "umapped m pt dst n" using cw(2) by (simp add: umapped_def)
  have w: "wrote_user m1 m' pt (dst + of_nat n) k" using r by (simp add: copied_out_def k_def)
  have "holds_bytes m m' pt dst src" if "r = 0"
  proof -
    have 1: "holds_bytes m m1 pt dst (take n src)" using cw(2,3) nle by (simp add: holds_bytes_def)
    have "holds_bytes m m' pt dst (take n src)"
      using holds_bytes_later [OF sep 1 _ kp(3), of m' k] w bd nle by (simp add: len)
    moreover have "holds_bytes m m' pt (dst + of_nat (length (take n src))) (drop n src)"
      using r that nle by (simp add: copied_out_def holds_bytes_cong [OF kp(3)])
    ultimately show ?thesis using holds_bytes_append [of m m' pt dst "take n src" "drop n src"] by simp
  qed
  moreover have "wrote_user m m' pt dst (length src)" unfolding len by (rule wrote_user_append [OF cw(1) w kp(3)])
  moreover have "r = (if umapped m pt dst (length src) then 0 else -1)"
    using r fst umapped_append [of m pt dst n k] unfolding copied_out_def k_def [symmetric] len um by simp
  ultimately show ?thesis by (simp add: copied_out_def)
qed

lemma copyout_Nil: "copyout pt dst [] s = Ret 0 s"
  by (simp add: copyout.simps [of pt dst "[]"])

lemma copyout_spec:
  assumes "wf_pt (mem s) pt" and "user_sep (mem s) pt" and "unat dst + length src < 2 ^ 64"
  shows "\<exists>r m'. copyout pt dst src s = Ret r (s\<lparr>mem := m'\<rparr>) \<and> copied_out (mem s) pt dst src r m'"
  using assms
proof (induction pt dst src arbitrary: s rule: copyout.induct)
  case (1 pt dst src)
  note body = copyout.simps [of pt dst src]
  define n where "n = first_chunk dst (length src)"
  show ?case
  proof (cases "src = []")
    case True
    have "copyout pt dst src s = Ret 0 (s\<lparr>mem := mem s\<rparr>)" by (simp add: True copyout_Nil)
    moreover have "copied_out (mem s) pt dst src 0 (mem s)"
      by (simp add: True copied_out_def umapped_def wrote_user_def holds_bytes_def)
    ultimately show ?thesis by blast
  next
    case ne: False
    show ?thesis
    proof (cases "uaddr (mem s) pt dst")
      case None
      have "copyout pt dst src s = Ret (-1) (s\<lparr>mem := mem s\<rparr>)"
        using ne first_page [OF 1(2), of dst] None by (simp add: body Let_def)
      moreover have "\<not> umapped (mem s) pt dst (length src)" using umapped_first None ne by blast
      then have "copied_out (mem s) pt dst src (-1) (mem s)" by (simp add: copied_out_def wrote_user_def)
      ultimately show ?thesis by blast
    next
      case (Some a)
      define m1 where "m1 = put_bytes (mem s) a (take n src)"
      note cw = chunk_write [OF Some n_def m1_def]
      note kp = wrote_user_keeps [OF 1(3,2) cw(1)]
      have run: "copyout pt dst src s = copyout pt (PGROUNDDOWN dst + PGSIZE) (drop n src) (s\<lparr>mem := m1\<rparr>)"
        using ne first_page [OF 1(2), of dst] Some uaddr_minus_offset [OF Some]
        by (simp add: body Let_def n_def [symmetric] m1_def)
      have "\<exists>r m'. copyout pt dst src s = Ret r (s\<lparr>mem := m'\<rparr>) \<and> copied_out m1 pt (dst + of_nat n) (drop n src) r m'"
      proof (cases "n < length src")
        case True
        have nx: "PGROUNDDOWN dst + PGSIZE = dst + of_nat n" using next_chunk [of dst "length src"] True by (simp add: n_def)
        have "\<exists>r m'. copyout pt (PGROUNDDOWN dst + PGSIZE) (drop n src) (s\<lparr>mem := m1\<rparr>) = Ret r (s\<lparr>mem := m1\<rparr>\<lparr>mem := m'\<rparr>) \<and>
            copied_out (mem (s\<lparr>mem := m1\<rparr>)) pt (PGROUNDDOWN dst + PGSIZE) (drop n src) r m'"
        proof (rule 1(1) [OF ne refl n_def])
          show "a - (dst - PGROUNDDOWN dst) \<noteq> 0" by (rule uaddr_minus_offset [OF Some])
          show "wf_pt (mem (s\<lparr>mem := m1\<rparr>)) pt" "user_sep (mem (s\<lparr>mem := m1\<rparr>)) pt" using kp(1,2) by simp_all
          show "unat (PGROUNDDOWN dst + PGSIZE) + length (drop n src) < 2 ^ 64"
            using unat_add_of_nat [of dst n] nx 1(4) True by simp
        qed
        then show ?thesis unfolding run nx by simp
      next
        case False
        then have nil: "drop n src = []" by simp
        have "copied_out m1 pt (dst + of_nat n) (drop n src) 0 m1"
          by (simp add: nil copied_out_def umapped_def wrote_user_def holds_bytes_def)
        then show ?thesis unfolding run nil copyout_Nil by blast
      qed
      then show ?thesis using copied_out_step [OF 1(3,2) Some n_def m1_def 1(4)] by blast
    qed
  qed
qed

text \<open>The bytes of a range of user memory.\<close>

definition ubytes :: "ram \<Rightarrow> u64 \<Rightarrow> u64 \<Rightarrow> nat \<Rightarrow> byte list" where
  "ubytes m pt va n = map (\<lambda>i. m (the (uaddr m pt (va + of_nat i)))) [0..<n]"

lemma upt_add_shift: "[0..<n + k] = [0..<n] @ map (\<lambda>i. n + i) [0..<k]"
  by (rule nth_equalityI) (auto simp: nth_append)

lemma ubytes_append: "ubytes m pt va (n + k) = ubytes m pt va n @ ubytes m pt (va + of_nat n) k"
  by (simp add: ubytes_def upt_add_shift o_def add.assoc)

lemma chunk_read:
  assumes u: "uaddr m pt va = Some a" and n: "n = first_chunk va len"
  shows "get_bytes m a n = ubytes m pt va n" and "umapped m pt va n"
proof -
  have le: "n \<le> 4096 - unat (va - PGROUNDDOWN va)" using first_chunk_le by (simp add: n)
  have ua: "uaddr m pt (va + of_nat i) = Some (a + of_nat i)" if "i < n" for i
    using uaddr_in_page [of i va m pt] that le u by simp
  show "get_bytes m a n = ubytes m pt va n"
    by (rule nth_equalityI) (simp_all add: nth_get_bytes ubytes_def ua)
  show "umapped m pt va n" by (simp add: umapped_def ua)
qed

lemma copyin_loop_0: "copyin_loop pt va 0 s = Ret (Some []) s"
  by (simp add: copyin_loop.simps [of pt va 0])

lemma copyin_loop_spec:
  assumes "wf_pt (mem s) pt" and "unat va + len < 2 ^ 64"
  shows "copyin_loop pt va len s = Ret (if umapped (mem s) pt va len then Some (ubytes (mem s) pt va len) else None) s"
  using assms
proof (induction pt va len arbitrary: s rule: copyin_loop.induct)
  case (1 pt va len)
  note body = copyin_loop.simps [of pt va len]
  define n where "n = first_chunk va len"
  show ?case
  proof (cases "len = 0")
    case True
    then show ?thesis by (simp add: copyin_loop_0 umapped_def ubytes_def)
  next
    case ne: False
    show ?thesis
    proof (cases "uaddr (mem s) pt va")
      case None
      have "\<not> umapped (mem s) pt va len" using umapped_first None ne by blast
      moreover have "copyin_loop pt va len s = Ret None s"
        using ne first_page [OF 1(2), of va] None by (simp add: body Let_def)
      ultimately show ?thesis by simp
    next
      case (Some a)
      note cr = chunk_read [OF Some n_def]
      have nle: "n \<le> len" using first_chunk_le by (simp add: n_def)
      have len: "umapped (mem s) pt va len \<longleftrightarrow> umapped (mem s) pt (va + of_nat n) (len - n)"
          "ubytes (mem s) pt va len = ubytes (mem s) pt va n @ ubytes (mem s) pt (va + of_nat n) (len - n)"
        using umapped_append [of "mem s" pt va n "len - n"] ubytes_append [of "mem s" pt va n "len - n"] nle cr(2)
        by simp_all
      have "copyin_loop pt (PGROUNDDOWN va + PGSIZE) (len - n) s =
          Ret (if umapped (mem s) pt (va + of_nat n) (len - n)
               then Some (ubytes (mem s) pt (va + of_nat n) (len - n)) else None) s"
      proof (cases "n < len")
        case True
        have nx: "PGROUNDDOWN va + PGSIZE = va + of_nat n" using next_chunk [of va len] True by (simp add: n_def)
        show ?thesis unfolding nx [symmetric]
          using ne uaddr_minus_offset [OF Some] 1(2,3) nx unat_add_of_nat [of va n] True
          by (intro 1(1) [OF ne refl n_def uaddr_minus_offset [OF Some]]) simp_all
      next
        case False
        then have "len - n = 0" by simp
        then show ?thesis by (simp add: copyin_loop_0 umapped_def ubytes_def)
      qed
      then show ?thesis
        using ne first_page [OF 1(2), of va] Some uaddr_minus_offset [OF Some]
        by (simp add: body Let_def n_def [symmetric] cr(1) len)
    qed
  qed
qed

lemma copyin_eq:
  assumes "wf_pt (mem s) pt" and "unat va + unat len < 2 ^ 64"
  shows "copyin pt va len s =
    Ret (if umapped (mem s) pt va (unat len) then Some (ubytes (mem s) pt va (unat len)) else None) s"
  unfolding copyin_def by (rule copyin_loop_spec [OF assms])

lemma holds_bytes_ubytes:
  assumes "holds_bytes m m' pt va bs" and "uaddr m' pt = uaddr m pt"
  shows "umapped m' pt va (length bs)" and "ubytes m' pt va (length bs) = bs"
proof -
  have a: "\<exists>a. uaddr m' pt (va + of_nat i) = Some a \<and> m' a = bs ! i" if "i < length bs" for i
    using assms that by (simp add: holds_bytes_def)
  show "umapped m' pt va (length bs)" unfolding umapped_def using a by fastforce
  show "ubytes m' pt va (length bs) = bs"
  proof (rule nth_equalityI)
    fix i assume "i < length (ubytes m' pt va (length bs))"
    then have "i < length bs" by (simp add: ubytes_def)
    then show "ubytes m' pt va (length bs) ! i = bs ! i" using a [of i] by (auto simp: ubytes_def)
  qed (simp add: ubytes_def)
qed

text \<open>A page table with one user page, at virtual address 0.\<close>

definition demo_pt :: u64 where
  "demo_pt = 0x80100000"

definition demo_ram :: ram where
  "demo_ram =
     (let z = (\<lambda>q m a. if in_region q 4096 a then 0 else m a);
          m1 = st64 (z 0x80101000 (\<lambda>a. 0)) (ent 0x80100000 0) (PA2PTE 0x80101000 OR PTE_V);
          m2 = st64 (z 0x80102000 m1) (ent 0x80101000 0) (PA2PTE 0x80102000 OR PTE_V)
      in st64 m2 (ent 0x80102000 0) (PA2PTE 0x80103000 OR PTE_W OR PTE_R OR PTE_U OR PTE_V))"

lemma zero_ram: "wf_pt (\<lambda>a. 0) demo_pt" "tables (\<lambda>a. 0) demo_pt = {demo_pt}" "tbl (\<lambda>a. 0) p i = None"
  "pval (\<lambda>a. 0) demo_pt va = 0"
proof -
  show t: "tbl (\<lambda>a. 0) p i = None" for p i by (simp add: tbl_def ld64_zero)
  have n: "node_from (\<lambda>a. 0) demo_pt xs = (if xs = [] then Some demo_pt else None)" for xs
    by (cases xs) (simp_all add: node_from.simps t)
  show tb: "tables (\<lambda>a. 0) demo_pt = {demo_pt}" by (auto simp: tables_def n intro: exI [of _ "[]"] split: if_splits)
  show "wf_pt (\<lambda>a. 0) demo_pt" unfolding wf_pt_def tb by (auto simp: n split: if_splits) (simp_all add: demo_pt_def PGSIZE_def)
  show "pval (\<lambda>a. 0) demo_pt va = 0" by (simp add: pval_def n)
qed

lemma demo_table:
  "wf_pt demo_ram demo_pt" "tables demo_ram demo_pt = {0x80100000, 0x80101000, 0x80102000}"
  "vb < MAXVA \<Longrightarrow> pval demo_ram demo_pt vb =
     (if PGROUNDDOWN vb = 0 then PA2PTE 0x80103000 OR PTE_W OR PTE_R OR PTE_U OR PTE_V else 0)"
proof -
  define z where "z = (\<lambda>q m (a::u64). if in_region q 4096 a then (0::byte) else m a)"
  define m1 where "m1 = st64 (z 0x80101000 (\<lambda>a. 0)) (ent demo_pt 0) (PA2PTE 0x80101000 OR PTE_V)"
  define m2 where "m2 = st64 (z 0x80102000 m1) (ent 0x80101000 0) (PA2PTE 0x80102000 OR PTE_V)"
  have q: "(0x80101000 :: u64) mod PGSIZE = 0" "(0x80101000 :: u64) < PHYSTOP" "(0x80102000 :: u64) mod PGSIZE = 0"
      "(0x80102000 :: u64) < PHYSTOP" "0x80101000 \<notin> tables (\<lambda>a. 0) demo_pt"
    by (simp_all add: PGSIZE_def PHYSTOP_def KERNBASE_def zero_ram) (simp add: demo_pt_def)
  have z1: "z 0x80101000 (\<lambda>a. 0) = (\<lambda>a. if in_region 0x80101000 4096 a then 0 else 0)"
      "z 0x80102000 m1 = (\<lambda>a. if in_region 0x80102000 4096 a then 0 else m1 a)" by (simp_all add: z_def)
  have ix: "idx ([] @ [0])" "idx ([0] @ [0])" "node_from (\<lambda>a. 0) demo_pt [] = Some demo_pt" by simp_all
  note h1 = hang_table [OF zero_ram(1) ix(1,3) zero_ram(3) q(1,2,5) _ z1(1) m1_def]
  have w1: "wf_pt m1 demo_pt" "tables m1 demo_pt = {0x80101000, demo_pt}" "\<And>va. pval m1 demo_pt va = 0"
      "node_from m1 demo_pt [0] = Some 0x80101000"
    using h1 by (simp_all add: zero_ram)
  have t1: "tbl m1 0x80101000 0 = None"
    using hang_node(3) [OF zero_ram(1) ix(1,3) zero_ram(3) q(1,2,5) z1(1) m1_def, of 0] by (simp add: tbl_def)
  have q2: "0x80102000 \<notin> tables m1 demo_pt" unfolding w1(2) by (simp add: demo_pt_def)
  note h2 = hang_table [OF w1(1) ix(2) w1(4) t1 q(3,4) q2 _ z1(2) m2_def]
  have w2: "wf_pt m2 demo_pt" "tables m2 demo_pt = {0x80102000, 0x80101000, demo_pt}" "\<And>va. pval m2 demo_pt va = 0"
      "node_from m2 demo_pt [0, 0] = Some 0x80102000"
    using h2 by (simp_all add: w1)
  have px: "PX 2 0 = 0" "PX 1 0 = 0" "PX 0 0 = 0" "PGROUNDDOWN 0 = 0" by (simp_all add: PX_def PGROUNDDOWN_def)
  have dr: "demo_ram = st64 m2 (ent 0x80102000 (PX 0 0)) (PA2PTE 0x80103000 OR PTE_W OR PTE_R OR PTE_U OR PTE_V)"
    by (simp add: demo_ram_def Let_def m2_def m1_def z_def px demo_pt_def)
  have n0: "node_from m2 demo_pt [PX 2 0, PX 1 0] = Some 0x80102000" unfolding px by (rule w2(4))
  note ls = leaf_store [OF w2(1) _ n0 dr]
  have m0: "(0::u64) < MAXVA" by (simp add: MAXVA_def)
  show "wf_pt demo_ram demo_pt" by (rule ls(1) [OF m0])
  show "tables demo_ram demo_pt = {0x80100000, 0x80101000, 0x80102000}" 
    unfolding ls(2) [OF m0] w2(2) by (simp add: demo_pt_def insert_commute)
  show "pval demo_ram demo_pt vb =
     (if PGROUNDDOWN vb = 0 then PA2PTE 0x80103000 OR PTE_W OR PTE_R OR PTE_U OR PTE_V else 0)" if "vb < MAXVA"
    using ls(3) [OF m0 that] by (simp add: px w2(3))
qed

lemma demo_uaddr: "uaddr demo_ram demo_pt va = (if unat va < 4096 then Some (0x80103000 + va) else None)"
proof -
  let ?v = "PA2PTE 0x80103000 OR PTE_W OR PTE_R OR PTE_U OR PTE_V"
  have v: "?v = 0x20040C17" by (simp add: PA2PTE_def PTE_W_def PTE_R_def PTE_U_def PTE_V_def)
  have p: "PTE2PA ?v = 0x80103000" "?v AND PTE_V \<noteq> 0" "?v AND PTE_U \<noteq> 0"
    unfolding v by (simp_all add: PTE2PA_def PTE_V_def PTE_U_def)
  have z: "PGROUNDDOWN va = 0 \<longleftrightarrow> unat va < 4096"
    using PGROUNDDOWN_unat [of va] by (simp add: word_unat_eq_iff div_eq_0_iff)
  show ?thesis
  proof (cases "va < MAXVA")
    case True
    show ?thesis using demo_table(3) [OF True] True z p by (simp add: uaddr_def Let_def)
  next
    case False
    then have "4096 \<le> unat va" by (simp add: MAXVA_def not_less word_le_nat_alt)
    then show ?thesis using False by (simp add: uaddr_def)
  qed
qed

lemma demo_sep: "user_sep demo_ram demo_pt"
proof -
  have a: "PTE2PA (pval demo_ram demo_pt va) = 0x80103000 \<and> PGROUNDDOWN va = 0" if "uaddr demo_ram demo_pt va = Some a" for va a
  proof -
    have u: "unat va < 4096" using that by (simp add: demo_uaddr split: if_splits)
    then have "PGROUNDDOWN va = 0" using PGROUNDDOWN_unat [of va] by (simp add: word_unat_eq_iff div_eq_0_iff)
    moreover have "va < MAXVA" using u by (simp add: MAXVA_def word_less_nat_alt)
    ultimately show ?thesis using demo_table(3)
      by (simp add: PA2PTE_def PTE_W_def PTE_R_def PTE_U_def PTE_V_def PTE2PA_def)
  qed
  have "PTE2PA (pval demo_ram demo_pt va) \<notin> tables demo_ram demo_pt" if "uaddr demo_ram demo_pt va = Some a" for va a
    using a [OF that] by (simp add: demo_table(2))
  moreover have "PGROUNDDOWN va = PGROUNDDOWN vb"
    if "uaddr demo_ram demo_pt va = Some a" "uaddr demo_ram demo_pt vb = Some b" for va vb x b
    using a that by metis
  ultimately show ?thesis using a unfolding user_sep_def by metis
qed

section \<open>The properties\<close>

text \<open>
  C9: \<open>copyout\<close> is exact about user memory. It always returns, with 0 exactly when every byte of the
  destination range is mapped for the user and with -1 otherwise; whatever it returns it has changed
  no byte other than user bytes of that range and no translation of the page table; and when it
  returns 0 the destination range holds the source bytes.
\<close>

theorem copyout_exact:
  assumes wf: "wf_pt (mem s) pt" and sep: "user_sep (mem s) pt" and bd: "unat dst + length src < 2 ^ 64"
  shows "\<exists>r m'. copyout pt dst src s = Ret r (s\<lparr>mem := m'\<rparr>) \<and>
    r = (if umapped (mem s) pt dst (length src) then 0 else -1) \<and>
    wrote_user (mem s) m' pt dst (length src) \<and> uaddr m' pt = uaddr (mem s) pt \<and>
    (r = 0 \<longrightarrow> ubytes m' pt dst (length src) = src)"
proof -
  obtain r m' where c: "copyout pt dst src s = Ret r (s\<lparr>mem := m'\<rparr>)" "copied_out (mem s) pt dst src r m'"
    using copyout_spec [OF assms] by blast
  have w: "wrote_user (mem s) m' pt dst (length src)" using c(2) by (simp add: copied_out_def)
  note kp = wrote_user_keeps [OF sep wf w]
  have "ubytes m' pt dst (length src) = src" if "r = 0"
    using c(2) that by (intro holds_bytes_ubytes(2) [OF _ kp(3)]) (simp add: copied_out_def)
  then show ?thesis using c w kp(3) unfolding copied_out_def by blast
qed

theorem copyout_exact_witness:
  "wf_pt demo_ram demo_pt \<and> user_sep demo_ram demo_pt \<and>
   (\<exists>m'. copyout demo_pt 4000 [1, 2, 3] (boot_kmem demo_ram 0 0) = Ret 0 (boot_kmem demo_ram 0 0\<lparr>mem := m'\<rparr>) \<and>
     ubytes m' demo_pt 4000 3 = [1, 2, 3])"
proof -
  have len3: "Suc (Suc (Suc 0)) = 3" by simp
  have "umapped demo_ram demo_pt 4000 3"
    unfolding umapped_def by (simp add: demo_uaddr unat_add_no_wrap unat_of_nat_u64)
  then show ?thesis
    using copyout_exact [of "boot_kmem demo_ram 0 0" demo_pt 4000 "[1, 2, 3]"] demo_table(1) demo_sep
    by (auto simp: len3)
qed

text \<open>
  C10: What \<open>copyout\<close> has stored, \<open>copyin\<close> reads back: after a \<open>copyout\<close> of a byte string that returned
  0, \<open>copyin\<close> of the same range gives the same bytes.
\<close>

theorem copyout_copyin:
  assumes wf: "wf_pt (mem s) pt" and sep: "user_sep (mem s) pt" and bd: "unat va + length src < 2 ^ 64"
    and out: "copyout pt va src s = Ret 0 t"
  shows "copyin pt va (of_nat (length src)) t = Ret (Some src) t"
proof -
  obtain m' where c: "t = s\<lparr>mem := m'\<rparr>" "copied_out (mem s) pt va src 0 m'"
    using copyout_spec [OF wf sep bd] out by auto
  have w: "wrote_user (mem s) m' pt va (length src)" using c(2) by (simp add: copied_out_def)
  note kp = wrote_user_keeps [OF sep wf w]
  have "holds_bytes (mem s) m' pt va src" using c(2) by (simp add: copied_out_def)
  note hb = holds_bytes_ubytes [OF this kp(3)]
  have "unat (of_nat (length src) :: u64) = length src" using bd by (simp add: unat_of_nat_u64)
  then show ?thesis using copyin_eq [of t pt va "of_nat (length src)"] kp(1) hb bd by (simp add: c(1))
qed

theorem copyout_copyin_witness:
  "\<exists>t. copyout demo_pt 7 [10, 20] (boot_kmem demo_ram 0 0) = Ret 0 t \<and> copyin demo_pt 7 2 t = Ret (Some [10, 20]) t"
proof -
  have len2: "Suc (Suc 0) = 2" by simp
  have "umapped demo_ram demo_pt 7 2"
    unfolding umapped_def by (simp add: demo_uaddr unat_add_no_wrap unat_of_nat_u64)
  then obtain t where "copyout demo_pt 7 [10, 20] (boot_kmem demo_ram 0 0) = Ret 0 t"
    using copyout_spec [of "boot_kmem demo_ram 0 0" demo_pt 7 "[10, 20]"] demo_table(1) demo_sep
    by (auto simp: copied_out_def len2)
  then show ?thesis
    using copyout_copyin [of "boot_kmem demo_ram 0 0" demo_pt 7 "[10, 20]" t] demo_table(1) demo_sep
    by auto
qed

text \<open>
  C11: \<open>mappages\<close> refines the update of the map from virtual pages to entries. When it returns 0 the
  whole range lay below \<open>MAXVA\<close> and was unmapped, each page of the range now has the entry of the
  corresponding physical page with the permissions asked for, every other entry is as before, memory
  outside the table pages is unchanged, and the page-table invariant holds again.
\<close>

theorem mappages_refines_map_update:
  assumes inv: "pt_inv s pt" and sz: "0 < sz" and nw: "unat va + unat sz \<le> 2 ^ 64"
    and run: "mappages pt va sz pa perm s = Ret 0 t"
  defines "a \<equiv> PGROUNDDOWN va" and "b \<equiv> PGROUNDDOWN (va + sz - 1)"
  shows "b < MAXVA \<and>
    (\<forall>v < MAXVA. in_pages a b v \<longrightarrow> pval (mem s) pt v AND PTE_V = 0) \<and>
    (\<forall>v < MAXVA. pval (mem t) pt v =
       (if in_pages a b v then PA2PTE (pa + (PGROUNDDOWN v - a)) OR perm OR PTE_V else pval (mem s) pt v)) \<and>
    (\<forall>x. (\<forall>p \<in> tables (mem t) pt. \<not> in_region p 4096 x) \<longrightarrow> mem t x = mem s x) \<and> pt_inv t pt"
proof -
  have "0 < unat sz" using sz by (simp add: word_less_nat_alt)
  then have s1: "unat (sz - 1) = unat sz - 1" "0 < unat sz" by (simp_all add: unat_minus_one unat_eq_zero [symmetric] del: unat_eq_zero)
  then have u: "unat (va + (sz - 1)) = unat va + (unat sz - 1)"
    using nw s1 by (subst unat_add_no_wrap) simp_all
  have "unat a \<le> unat b"
    unfolding a_def b_def PGROUNDDOWN_unat using u by (simp add: div_le_mono add_diff_eq)
  then have ab: "a \<le> b" by (simp add: word_le_nat_alt)
  have "mappages_loop pt a b pa perm s = Ret 0 t" using run by (simp add: mappages_def a_def b_def)
  then have m: "spread pt s t \<and> b < MAXVA \<and> (\<forall>v < MAXVA. in_pages a b v \<longrightarrow> pval (mem s) pt v AND PTE_V = 0) \<and>
    (\<forall>v < MAXVA. pval (mem t) pt v =
       (if in_pages a b v then PA2PTE (pa + (PGROUNDDOWN v - a)) OR perm OR PTE_V else pval (mem s) pt v))"
    by (intro mappages_loop_maps [OF inv _ _ ab]) (simp_all add: a_def b_def)
  then show ?thesis by (simp add: spread_def)
qed

theorem mappages_refines_map_update_witness:
  "\<exists>t. mappages demo_pt 0x1000 0x1000 0x80104000 PTE_R (boot_kmem demo_ram 0 0x80021000) = Ret 0 t \<and>
     pval (mem t) demo_pt 0x1008 = PA2PTE 0x80104000 OR PTE_R OR PTE_V"
proof -
  let ?s = "boot_kmem demo_ram 0 0x80021000"
  have inv: "pt_inv ?s demo_pt"
  proof -
    have fl: "free_list ?s []" by (simp add: free_list_def)
    then have "free_set ?s = {}" using free_set_eq by fastforce
    then show ?thesis using demo_table(1) fl by (auto simp: pt_inv_def)
  qed
  have px: "PX 2 0x1000 = 0" "PX 1 0x1000 = 0" "PX 2 0 = 0" "PX 1 0 = 0" by (simp_all add: PX_def PXSHIFT_def)
  have m: "(0x1000 :: u64) < MAXVA" "(0 :: u64) < MAXVA" "(0x1008 :: u64) < MAXVA" by (simp_all add: MAXVA_def)
  have r: "PGROUNDDOWN 0x1000 = 0x1000" "PGROUNDDOWN 0x1FFF = 0x1000" "PGROUNDDOWN 0x1008 = 0x1000" "PGROUNDDOWN 0 = 0"
    by (simp_all add: PGROUNDDOWN_def PGSIZE_def)
  obtain p0 where p0: "node_from demo_ram demo_pt [PX 2 0x1000, PX 1 0x1000] = Some p0"
  proof (cases "node_from demo_ram demo_pt [PX 2 0, PX 1 0]")
    case None
    then have "pval demo_ram demo_pt 0 = 0" by (simp add: pval_def)
    then have False using demo_table(3) [OF m(2)] r(4)
      by (simp add: PA2PTE_def PTE_W_def PTE_R_def PTE_U_def PTE_V_def)
    then show ?thesis ..
  qed (use that px in metis)
  have "p0 mod PGSIZE = 0" "p0 \<noteq> 0" using tables_aligned [OF demo_table(1) _ p0] PX_bound by simp_all
  then have e0: "ent p0 (PX 0 0x1000) \<noteq> 0" by (rule ent_nonzero) (rule PX_bound)
  have "walk demo_pt 0x1000 False ?s = Ret (ent p0 (PX 0 0x1000)) ?s"
    using walk_read [OF m(1), of demo_pt ?s] unfolding boot_kmem_simps p0 option.case .
  then have w: "walk demo_pt 0x1000 True ?s = Ret (ent p0 (PX 0 0x1000)) ?s" using walk_found e0 by blast
  have z: "ld64 demo_ram (ent p0 (PX 0 0x1000)) = 0"
    using pval_node [OF p0] demo_table(3) [OF m(1)] r(1) by simp
  have "\<exists>t. mappages_loop demo_pt 0x1000 0x1000 0x80104000 PTE_R ?s = Ret 0 t"
    unfolding mappages_loop.simps [of demo_pt "0x1000" "0x1000" "0x80104000" PTE_R] using w e0 z by (simp add: rd_pte_def wr_pte_def)
  then obtain t where t: "mappages demo_pt 0x1000 0x1000 0x80104000 PTE_R ?s = Ret 0 t"
    by (auto simp: mappages_def r)
  have "pval (mem t) demo_pt 0x1008 = PA2PTE 0x80104000 OR PTE_R OR PTE_V"
    using mappages_refines_map_update [OF inv _ _ t] m(3) by (simp add: r in_pages_def)
  then show ?thesis using t by blast
qed

end
