(* ===== verification/Procmem.thy ===== *)
theory Procmem
  imports Kstring Uaccess
begin

text \<open>
  The memory of processes, from \<^verbatim>\<open>kernel/proc.c\<close>: \<open>procinit\<close>, \<open>allocproc\<close>, \<open>freeproc\<close>, \<open>proc_pagetable\<close>,
  \<open>proc_freepagetable\<close>, \<open>growproc\<close>, \<open>wait\<close>, \<open>either_copyout\<close> and \<open>either_copyin\<close>, with the trapframe of
  \<^verbatim>\<open>kernel/proc.h\<close> in its page of RAM. Addresses fixed by the linker are fields of the state.
\<close>

section \<open>State\<close>

text \<open>The members of \<^verbatim>\<open>struct trapframe\<close>, in order; each is a \<^verbatim>\<open>uint64\<close>.\<close>

datatype tfreg =
    Kernel_satp | Kernel_sp | Kernel_trap | Epc | Kernel_hartid
  | Ra | Sp | Gp | Tp | T0 | T1 | T2 | S0 | S1 | A0 | A1 | A2 | A3 | A4 | A5 | A6 | A7
  | S2 | S3 | S4 | S5 | S6 | S7 | S8 | S9 | S10 | S11 | T3 | T4 | T5 | T6

fun tf_off :: "tfreg \<Rightarrow> u64" where
  "tf_off Kernel_satp = 0"
| "tf_off Kernel_sp = 8"
| "tf_off Kernel_trap = 16"
| "tf_off Epc = 24"
| "tf_off Kernel_hartid = 32"
| "tf_off Ra = 40"
| "tf_off Sp = 48"
| "tf_off Gp = 56"
| "tf_off Tp = 64"
| "tf_off T0 = 72"
| "tf_off T1 = 80"
| "tf_off T2 = 88"
| "tf_off S0 = 96"
| "tf_off S1 = 104"
| "tf_off A0 = 112"
| "tf_off A1 = 120"
| "tf_off A2 = 128"
| "tf_off A3 = 136"
| "tf_off A4 = 144"
| "tf_off A5 = 152"
| "tf_off A6 = 160"
| "tf_off A7 = 168"
| "tf_off S2 = 176"
| "tf_off S3 = 184"
| "tf_off S4 = 192"
| "tf_off S5 = 200"
| "tf_off S6 = 208"
| "tf_off S7 = 216"
| "tf_off S8 = 224"
| "tf_off S9 = 232"
| "tf_off S10 = 240"
| "tf_off S11 = 248"
| "tf_off T3 = 256"
| "tf_off T4 = 264"
| "tf_off T5 = 272"
| "tf_off T6 = 280"

text \<open>Code addresses that the kernel stores: \<^verbatim>\<open>forkret\<close>, and those used by the trap code.\<close>

record image = vm +
  forkret_pc :: u64
  usertrap_pc :: u64
  uservec_pc :: u64
  userret_pc :: u64
  kernelvec_pc :: u64

definition tf_get :: "nat \<Rightarrow> tfreg \<Rightarrow> (u64, 'z kmem_scheme) kop" where
  "tf_get p r = getK (\<lambda>s. ld64 (mem s) (p_trapframe (procs s p) + tf_off r))"

definition tf_set :: "nat \<Rightarrow> tfreg \<Rightarrow> u64 \<Rightarrow> (unit, 'z kmem_scheme) kop" where
  "tf_set p r v = modK (\<lambda>s. s\<lparr>mem := st64 (mem s) (p_trapframe (procs s p) + tf_off r) v\<rparr>)"

text \<open>
  \<open>safestrcpy\<close> between two character arrays that are not in pages: both are laid out in an
  otherwise empty memory.
\<close>

definition safestrcpy_arr :: "byte list \<Rightarrow> byte list \<Rightarrow> u32 \<Rightarrow> byte list" where
  "safestrcpy_arr dst src n =
     get_bytes (safestrcpy (put_bytes (put_bytes (\<lambda>_. 0) 0 dst) 0x100000000 src) 0 0x100000000 n) 0 (length dst)"

section \<open>Page tables of processes\<close>

definition procinit :: "(unit, 'z vm_scheme) kop" where
  "procinit =
     thenK (initlock Pid_lock ''nextpid'') (
     thenK (eachK (\<lambda>i.
       thenK (initlock (Proc_lock i) ''proc'') (
       bindK kalloc (\<lambda>pa.
       if pa = 0 then panicK ''kalloc''
       else let va = KSTACK (of_nat i) in
            thenK (kvmmap va pa PGSIZE (PTE_R OR PTE_W))
                  (modK (upd_proc i (\<lambda>r. r\<lparr>p_kstack := va\<rparr>)))))) [0..<NPROC])
     kvminithart)"

definition proc_pagetable :: "nat \<Rightarrow> (u64, 'z vm_scheme) kop" where
  "proc_pagetable p =
     bindK uvmcreate (\<lambda>pagetable.
     if pagetable = 0 then retK 0
     else bindK (getK trampoline) (\<lambda>tr.
     bindK (mappages pagetable TRAMPOLINE PGSIZE tr (PTE_R OR PTE_X)) (\<lambda>r.
     if r < 0 then thenK (uvmfree pagetable 0) (retK 0)
     else bindK (getK (\<lambda>s. p_trapframe (procs s p))) (\<lambda>tf.
     bindK (mappages pagetable TRAPFRAME PGSIZE tf (PTE_R OR PTE_W)) (\<lambda>r.
     if r < 0
     then thenK (uvmunmap pagetable TRAMPOLINE 1 False) (
          thenK (uvmfree pagetable 0) (retK 0))
     else retK pagetable)))))"

definition proc_freepagetable :: "u64 \<Rightarrow> u64 \<Rightarrow> (unit, 'z kmem_scheme) kop" where
  "proc_freepagetable pagetable sz =
     thenK (uvmunmap pagetable TRAMPOLINE 1 False) (
     thenK (uvmunmap pagetable TRAPFRAME 1 False)
           (uvmfree pagetable sz))"

definition freeproc :: "nat \<Rightarrow> (unit, 'z kmem_scheme) kop" where
  "freeproc p =
     bindK (getK (\<lambda>s. p_trapframe (procs s p))) (\<lambda>tf.
     thenK (whenK (tf \<noteq> 0) (kfree tf)) (
     thenK (modK (upd_proc p (\<lambda>r. r\<lparr>p_trapframe := 0\<rparr>))) (
     bindK (getK (\<lambda>s. p_pagetable (procs s p))) (\<lambda>pt.
     bindK (getK (\<lambda>s. p_sz (procs s p))) (\<lambda>sz.
     thenK (whenK (pt \<noteq> 0) (proc_freepagetable pt sz))
           (modK (upd_proc p (\<lambda>r. r\<lparr>p_pagetable := 0, p_sz := 0, p_pid := 0, p_parent := None,
              p_name := (p_name r)[0 := 0], p_chan := None, p_killed := False, p_xstate := 0,
              p_state := UNUSED\<rparr>))))))))"

text \<open>The search loop of \<open>allocproc\<close>: the lock of the slot found stays held.\<close>

definition find_unused :: "nat \<Rightarrow> (nat option, 'z ptable_scheme) kop" where
  "find_unused i =
     thenK (acquire (Proc_lock i)) (
     bindK (getK (\<lambda>s. p_state (procs s i) = UNUSED)) (\<lambda>free.
     if free then retK (Some i)
     else thenK (release (Proc_lock i)) (retK None)))"

definition allocproc :: "(nat option, 'z image_scheme) kop" where
  "allocproc =
     bindK (searchK find_unused [0..<NPROC]) (\<lambda>found.
     case found of
       None \<Rightarrow> retK None
     | Some p \<Rightarrow>
         bindK allocpid (\<lambda>pid.
         thenK (modK (upd_proc p (\<lambda>r. r\<lparr>p_pid := pid\<rparr>))) (
         bindK kalloc (\<lambda>tf.
         thenK (modK (upd_proc p (\<lambda>r. r\<lparr>p_trapframe := tf\<rparr>))) (
         if tf = 0 then thenK (release (Proc_lock p)) (retK None)
         else bindK (proc_pagetable p) (\<lambda>pt.
              thenK (modK (upd_proc p (\<lambda>r. r\<lparr>p_pagetable := pt\<rparr>))) (
              if pt = 0
              then thenK (freeproc p) (thenK (release (Proc_lock p)) (retK None))
              else thenK (modK (\<lambda>s. upd_proc p (\<lambda>r. r\<lparr>p_context :=
                            \<lparr>ctx_ra = forkret_pc s, ctx_sp = p_kstack r + PGSIZE, ctx_s = replicate 12 0\<rparr>\<rparr>) s))
                         (retK (Some p)))))))))"

definition growproc :: "u32 \<Rightarrow> (int, 'z kmem_scheme) kop" where
  "growproc n =
     bindK myproc (\<lambda>p. derefK p (\<lambda>p.
     bindK (getK (\<lambda>s. procs s p)) (\<lambda>r.
     let sz = (ucast (p_sz r) :: u32) in
     if 0 < sint n
     then bindK (uvmalloc (p_pagetable r) (ucast sz) (ucast (sz + n))) (\<lambda>sz'.
          if (ucast sz' :: u32) = 0 then retK (-1)
          else thenK (modK (upd_proc p (\<lambda>r. r\<lparr>p_sz := ucast (ucast sz' :: u32)\<rparr>))) (retK 0))
     else if sint n < 0
     then bindK (uvmdealloc (p_pagetable r) (ucast sz) (ucast (sz + n))) (\<lambda>sz'.
          thenK (modK (upd_proc p (\<lambda>r. r\<lparr>p_sz := ucast (ucast sz' :: u32)\<rparr>))) (retK 0))
     else thenK (modK (upd_proc p (\<lambda>r. r\<lparr>p_sz := ucast sz\<rparr>))) (retK 0))))"

section \<open>Waiting for a child\<close>

text \<open>
  The scan of \<open>wait\<close> at one slot. The loop variable \<^verbatim>\<open>havekids\<close> is a result: \<open>Inl\<close> goes on with it,
  \<open>Inr\<close> is the return from inside the loop.
\<close>

definition wait_one :: "nat \<Rightarrow> u64 \<Rightarrow> nat \<Rightarrow> bool \<Rightarrow> (bool + int, 'z kmem_scheme) kop" where
  "wait_one p addr np havekids =
     bindK (getK (\<lambda>s. p_parent (procs s np) = Some p)) (\<lambda>mine.
     if \<not> mine then retK (Inl havekids)
     else thenK (acquire (Proc_lock np)) (
     bindK (getK (\<lambda>s. procs s np)) (\<lambda>r.
     if p_state r = ZOMBIE
     then bindK (getK (\<lambda>s. p_pagetable (procs s p))) (\<lambda>pt.
          bindK (if addr \<noteq> 0 then copyout pt addr (le_bytes 4 (p_xstate r)) else retK 0) (\<lambda>e.
          if e < 0
          then thenK (release (Proc_lock np)) (thenK (release (Proc_lock p)) (retK (Inr (-1))))
          else thenK (freeproc np) (
               thenK (release (Proc_lock np)) (
               thenK (release (Proc_lock p)) (retK (Inr (sint (p_pid r))))))))
     else thenK (release (Proc_lock np)) (retK (Inl True)))))"

primrec wait_scan :: "nat \<Rightarrow> u64 \<Rightarrow> nat list \<Rightarrow> bool \<Rightarrow> (bool + int, 'z kmem_scheme) kop" where
  "wait_scan p addr [] havekids = retK (Inl havekids)"
| "wait_scan p addr (np # nps) havekids =
     bindK (wait_one p addr np havekids) (\<lambda>r.
     case r of Inl k \<Rightarrow> wait_scan p addr nps k | Inr v \<Rightarrow> retK (Inr v))"

text \<open>One round of \<^verbatim>\<open>for(;;)\<close>, which ends with the sleep; a process woken there starts it again.\<close>

definition wait_round :: "nat \<Rightarrow> u64 \<Rightarrow> (int, 'z kmem_scheme) kop" where
  "wait_round p addr =
     bindK (wait_scan p addr [0..<NPROC] False) (\<lambda>r.
     case r of
       Inr v \<Rightarrow> retK v
     | Inl havekids \<Rightarrow>
         bindK (getK (\<lambda>s. p_killed (procs s p))) (\<lambda>killed.
         if \<not> havekids \<or> killed then thenK (release (Proc_lock p)) (retK (-1))
         else sleep (Ch_proc p) (Proc_lock p)))"

definition wait :: "u64 \<Rightarrow> (int, 'z kmem_scheme) kop" where
  "wait addr =
     bindK myproc (\<lambda>p. derefK p (\<lambda>p.
     thenK (acquire (Proc_lock p)) (wait_round p addr)))"

section \<open>Copies to user or kernel addresses\<close>

text \<open>
  A destination or source of a copy: an address of the current process, a kernel address in a
  page, or a kernel variable that is not in a page, whose bytes are passed as values.
\<close>

datatype place = User u64 | Kern u64 | Var

definition either_copyout :: "place \<Rightarrow> byte list \<Rightarrow> (int, 'z kmem_scheme) kop" where
  "either_copyout dst src =
     bindK myproc (\<lambda>p.
     case dst of
       User a \<Rightarrow> derefK p (\<lambda>p. bindK (getK (\<lambda>s. p_pagetable (procs s p))) (\<lambda>pt. copyout pt a src))
     | Kern a \<Rightarrow> thenK (modK (\<lambda>s. s\<lparr>mem := put_bytes (mem s) a src\<rparr>)) (retK 0)
     | Var \<Rightarrow> retK 0)"

text \<open>\<open>either_copyin\<close> gives the bytes copied; those of a variable are the argument \<open>v\<close>.\<close>

definition either_copyin :: "place \<Rightarrow> byte list \<Rightarrow> u64 \<Rightarrow> (byte list option, 'z kmem_scheme) kop" where
  "either_copyin src v len =
     bindK myproc (\<lambda>p.
     case src of
       User a \<Rightarrow> derefK p (\<lambda>p. bindK (getK (\<lambda>s. p_pagetable (procs s p))) (\<lambda>pt. copyin pt a len))
     | Kern a \<Rightarrow> getK (\<lambda>s. Some (get_bytes (mem s) a (unat len)))
     | Var \<Rightarrow> retK (Some (take (unat len) v)))"

definition place_add :: "place \<Rightarrow> u64 \<Rightarrow> place" where
  "place_add d n = (case d of User a \<Rightarrow> User (a + n) | Kern a \<Rightarrow> Kern (a + n) | Var \<Rightarrow> Var)"

end
