(* ===== verification/Uart.thy ===== *)
theory Uart
  imports Procmem
begin

text \<open>
  The 16550 driver \<^verbatim>\<open>kernel/uart.c\<close>. The device is outside the program: reading one of its registers
  takes the next byte of a list of responses that the state carries (a run that needs more of them
  gives \<open>Diverge\<close>), and every register write is recorded in order. A terminating run reads finitely
  often, so a list of responses describes any device.
\<close>

section \<open>State\<close>

definition RHR :: nat where
  "RHR = 0"

definition THR :: nat where
  "THR = 0"

definition IER :: nat where
  "IER = 1"

definition IER_TX_ENABLE :: byte where
  "IER_TX_ENABLE = push_bit 0 1"

definition IER_RX_ENABLE :: byte where
  "IER_RX_ENABLE = push_bit 1 1"

definition FCR :: nat where
  "FCR = 2"

definition FCR_FIFO_ENABLE :: byte where
  "FCR_FIFO_ENABLE = push_bit 0 1"

definition FCR_FIFO_CLEAR :: byte where
  "FCR_FIFO_CLEAR = push_bit 1 3"

definition LCR :: nat where
  "LCR = 3"

definition LCR_EIGHT_BITS :: byte where
  "LCR_EIGHT_BITS = push_bit 0 3"

definition LCR_BAUD_LATCH :: byte where
  "LCR_BAUD_LATCH = push_bit 7 1"

definition LSR :: nat where
  "LSR = 5"

definition LSR_TX_IDLE :: byte where
  "LSR_TX_IDLE = push_bit 5 1"

definition UART_TX_BUF_SIZE :: int where
  "UART_TX_BUF_SIZE = 32"

record uart = image +
  uart_resp :: "byte list"
  uart_writes :: "(nat \<times> byte) list"
  uart_tx_buf :: "int \<Rightarrow> byte"
  uart_tx_w :: int
  uart_tx_r :: int
  panicked :: bool

definition ReadReg :: "nat \<Rightarrow> (byte, 'z uart_scheme) kop" where
  "ReadReg reg = (\<lambda>s. case uart_resp s of [] \<Rightarrow> Diverge | b # bs \<Rightarrow> Ret b (s\<lparr>uart_resp := bs\<rparr>))"

definition WriteReg :: "nat \<Rightarrow> byte \<Rightarrow> (unit, 'z uart_scheme) kop" where
  "WriteReg reg v = modK (\<lambda>s. s\<lparr>uart_writes := uart_writes s @ [(reg, v)]\<rparr>)"

section \<open>Operations\<close>

definition uartinit :: "(unit, 'z uart_scheme) kop" where
  "uartinit =
     thenK (WriteReg IER 0x00) (
     thenK (WriteReg LCR LCR_BAUD_LATCH) (
     thenK (WriteReg 0 0x03) (
     thenK (WriteReg 1 0x00) (
     thenK (WriteReg LCR LCR_EIGHT_BITS) (
     thenK (WriteReg FCR (FCR_FIFO_ENABLE OR FCR_FIFO_CLEAR)) (
     thenK (WriteReg IER (IER_TX_ENABLE OR IER_RX_ENABLE))
           (initlock Uart_tx_lock ''uart'')))))))"

text \<open>
  The loop of \<open>uartstart\<close>. The buffer holds fewer than \<^verbatim>\<open>UART_TX_BUF_SIZE\<close> characters and each round
  that does not return takes one out, so that many rounds are enough.
\<close>

primrec uartstart_loop :: "nat \<Rightarrow> (unit, 'z uart_scheme) kop" where
  "uartstart_loop 0 = divergeK"
| "uartstart_loop (Suc k) =
     bindK (getK (\<lambda>s. uart_tx_w s = uart_tx_r s)) (\<lambda>empty.
     if empty then retK ()
     else bindK (ReadReg LSR) (\<lambda>v.
          if v AND LSR_TX_IDLE = 0 then retK ()
          else bindK (getK (\<lambda>s. uart_tx_buf s (uart_tx_r s))) (\<lambda>c.
               thenK (modK (\<lambda>s. s\<lparr>uart_tx_r := (uart_tx_r s + 1) mod UART_TX_BUF_SIZE\<rparr>)) (
               thenK (wakeup Ch_uart_tx_r) (
               thenK (WriteReg THR c)
                     (uartstart_loop k))))))"

definition uartstart :: "(unit, 'z uart_scheme) kop" where
  "uartstart = uartstart_loop (nat UART_TX_BUF_SIZE)"

text \<open>The loop of \<open>uartputc\<close>: a caller that finds the buffer full sleeps and starts it again.\<close>

definition uartputc_loop :: "byte \<Rightarrow> (unit, 'z uart_scheme) kop" where
  "uartputc_loop c =
     bindK (getK (\<lambda>s. (uart_tx_w s + 1) mod UART_TX_BUF_SIZE = uart_tx_r s)) (\<lambda>full.
     if full then sleep Ch_uart_tx_r Uart_tx_lock
     else thenK (modK (\<lambda>s. s\<lparr>uart_tx_buf := (uart_tx_buf s)(uart_tx_w s := c)\<rparr>)) (
          thenK (modK (\<lambda>s. s\<lparr>uart_tx_w := (uart_tx_w s + 1) mod UART_TX_BUF_SIZE\<rparr>)) (
          thenK uartstart
                (release Uart_tx_lock))))"

definition uartputc :: "byte \<Rightarrow> (unit, 'z uart_scheme) kop" where
  "uartputc c =
     thenK (acquire Uart_tx_lock) (
     bindK (getK panicked) (\<lambda>frozen.
     if frozen then divergeK else uartputc_loop c))"

text \<open>The busy loop of \<open>uartputc_sync\<close>: responses are read until one has \<open>LSR_TX_IDLE\<close> set.\<close>

primrec until_idle :: "byte list \<Rightarrow> byte list option" where
  "until_idle [] = None"
| "until_idle (v # vs) = (if v AND LSR_TX_IDLE = 0 then until_idle vs else Some vs)"

definition wait_tx_idle :: "(unit, 'z uart_scheme) kop" where
  "wait_tx_idle = (\<lambda>s. case until_idle (uart_resp s) of
       None \<Rightarrow> Diverge | Some vs \<Rightarrow> Ret () (s\<lparr>uart_resp := vs\<rparr>))"

definition uartputc_sync :: "int \<Rightarrow> (unit, 'z uart_scheme) kop" where
  "uartputc_sync c =
     thenK push_off (
     bindK (getK panicked) (\<lambda>frozen.
     if frozen then divergeK
     else thenK wait_tx_idle (
          thenK (WriteReg THR (word_of_int c))
                pop_off)))"

definition uartgetc :: "(int, 'z uart_scheme) kop" where
  "uartgetc =
     bindK (ReadReg LSR) (\<lambda>v.
     if v AND 0x01 \<noteq> 0 then bindK (ReadReg RHR) (\<lambda>b. retK (uint b))
     else retK (-1))"

end
