(* ===== verification/Kprintf.thy ===== *)
theory Kprintf
  imports Uart
begin

text \<open>
  \<^verbatim>\<open>kernel/printf.c\<close>, \<open>consputc\<close> of \<^verbatim>\<open>kernel/console.c\<close> and \<open>procdump\<close> of \<^verbatim>\<open>kernel/proc.c\<close>. Format strings
  and \<^verbatim>\<open>%s\<close> arguments are byte lists without their final NUL.
\<close>

section \<open>State\<close>

record kprint = uart +
  pr_locking :: bool

text \<open>An argument of \<open>printf\<close>; \<open>AStr None\<close> is the null pointer.\<close>

datatype vararg = AInt u32 | APtr u64 | AStr "byte list option"

definition BACKSPACE :: int where
  "BACKSPACE = 0x100"

definition ascii :: "string \<Rightarrow> byte list" where
  "ascii cs = map of_char cs"

section \<open>Operations\<close>

definition consputc :: "int \<Rightarrow> (unit, 'z uart_scheme) kop" where
  "consputc c =
     (if c = BACKSPACE
      then thenK (uartputc_sync 0x08) (thenK (uartputc_sync 0x20) (uartputc_sync 0x08))
      else uartputc_sync c)"

definition digits :: "byte list" where
  "digits = ascii ''0123456789abcdef''"

text \<open>The loop of \<open>printint\<close> that fills \<^verbatim>\<open>buf\<close>, least significant digit first.\<close>

function int_digits :: "u32 \<Rightarrow> u32 \<Rightarrow> byte list" where
  "int_digits b x =
     (let d = digits ! unat (x mod b) in
      if 1 < b \<and> x div b \<noteq> 0 then d # int_digits b (x div b) else [d])"
  by pat_completeness auto
termination
proof (relation "measure (\<lambda>(b, x). unat x)")
  fix b x :: u32 and d
  assume "1 < b \<and> x div b \<noteq> 0"
  then have b: "1 < unat b" and x: "unat (x div b) \<noteq> 0" by (simp_all add: word_less_nat_alt unat_eq_zero)
  then have "0 < unat x" by (simp add: unat_div) (metis div_0 gr0I)
  then show "((b, x div b), b, x) \<in> measure (\<lambda>(b, x). unat x)" using b by (simp add: unat_div)
qed simp

declare int_digits.simps [simp del]

definition printint_buf :: "u32 \<Rightarrow> u32 \<Rightarrow> bool \<Rightarrow> byte list" where
  "printint_buf xx b sign =
     (let neg = (sign \<and> sint xx < 0); x = (if neg then - xx else xx)
      in int_digits b x @ (if neg then ascii ''-'' else []))"

definition printint :: "u32 \<Rightarrow> u32 \<Rightarrow> bool \<Rightarrow> (unit, 'z uart_scheme) kop" where
  "printint xx b sign = eachK (\<lambda>c. consputc (uint c)) (rev (printint_buf xx b sign))"

primrec ptr_digits :: "nat \<Rightarrow> u64 \<Rightarrow> byte list" where
  "ptr_digits 0 x = []"
| "ptr_digits (Suc k) x = digits ! unat (drop_bit 60 x) # ptr_digits k (push_bit 4 x)"

definition printptr :: "u64 \<Rightarrow> (unit, 'z uart_scheme) kop" where
  "printptr x =
     thenK (consputc 0x30) (
     thenK (consputc 0x78)
           (eachK (\<lambda>c. consputc (uint c)) (ptr_digits 16 x)))"

text \<open>
  The loop of \<open>printf\<close> over the format. Reading an argument that was not passed, or one of another
  type, is undefined in C: there the model gives a panic of its own.
\<close>

fun printf_loop :: "byte list \<Rightarrow> vararg list \<Rightarrow> (unit, 'z uart_scheme) kop" where
  "printf_loop [] ap = retK ()"
| "printf_loop (c # fmt) ap =
     (if c \<noteq> 0x25 then thenK (consputc (uint c)) (printf_loop fmt ap)
      else case fmt of
        [] \<Rightarrow> retK ()
      | d # fmt' \<Rightarrow>
          if d = 0x64
          then (case ap of AInt x # ap' \<Rightarrow> thenK (printint x 10 True) (printf_loop fmt' ap')
                | _ \<Rightarrow> panicK ''va_arg'')
          else if d = 0x78
          then (case ap of AInt x # ap' \<Rightarrow> thenK (printint x 16 True) (printf_loop fmt' ap')
                | _ \<Rightarrow> panicK ''va_arg'')
          else if d = 0x70
          then (case ap of APtr x # ap' \<Rightarrow> thenK (printptr x) (printf_loop fmt' ap')
                | _ \<Rightarrow> panicK ''va_arg'')
          else if d = 0x73
          then (case ap of AStr t # ap' \<Rightarrow>
                  thenK (eachK (\<lambda>c. consputc (uint c)) (case t of None \<Rightarrow> ascii ''(null)'' | Some bs \<Rightarrow> bs))
                        (printf_loop fmt' ap')
                | _ \<Rightarrow> panicK ''va_arg'')
          else if d = 0x25 then thenK (consputc 0x25) (printf_loop fmt' ap)
          else thenK (consputc 0x25) (thenK (consputc (uint d)) (printf_loop fmt' ap)))"

definition printf :: "byte list option \<Rightarrow> vararg list \<Rightarrow> (unit, 'z kprint_scheme) kop" where
  "printf fmt ap =
     bindK (getK pr_locking) (\<lambda>locking.
     thenK (whenK locking (acquire Pr_lock)) (
     case fmt of
       None \<Rightarrow> panicK ''null fmt''
     | Some f \<Rightarrow> thenK (printf_loop f ap) (whenK locking (release Pr_lock))))"

definition panic :: "byte list \<Rightarrow> (unit, 'z kprint_scheme) kop" where
  "panic msg =
     thenK (modK (\<lambda>s. s\<lparr>pr_locking := False\<rparr>)) (
     thenK (printf (Some (ascii ''panic: '')) []) (
     thenK (printf (Some msg) []) (
     thenK (printf (Some [0x0A]) []) (
     thenK (modK (\<lambda>s. s\<lparr>panicked := True\<rparr>))
           divergeK))))"

definition printfinit :: "(unit, 'z kprint_scheme) kop" where
  "printfinit = thenK (initlock Pr_lock ''pr'') (modK (\<lambda>s. s\<lparr>pr_locking := True\<rparr>))"

fun state_name :: "procstate \<Rightarrow> string" where
  "state_name UNUSED = ''unused''"
| "state_name SLEEPING = ''sleep ''"
| "state_name RUNNABLE = ''runble''"
| "state_name RUNNING = ''run   ''"
| "state_name ZOMBIE = ''zombie''"

definition procdump :: "(unit, 'z kprint_scheme) kop" where
  "procdump =
     thenK (printf (Some [0x0A]) []) (
     eachK (\<lambda>i.
       bindK (getK (\<lambda>s. procs s i)) (\<lambda>r.
       if p_state r = UNUSED then retK ()
       else thenK (printf (Some (ascii ''%d %s %s''))
                    [AInt (p_pid r), AStr (Some (ascii (state_name (p_state r)))),
                     AStr (Some (takeWhile (\<lambda>b. b \<noteq> 0) (p_name r)))])
                  (printf (Some [0x0A]) []))) [0..<NPROC])"

section \<open>Numbers\<close>

text \<open>How a printed number is read: the value of a digit, of a string of digits, and of a signed one.\<close>

definition dval :: "byte \<Rightarrow> nat" where
  "dval c = (if c \<le> 0x39 then unat c - 0x30 else unat c - 0x57)"

primrec numval :: "nat \<Rightarrow> byte list \<Rightarrow> nat" where
  "numval b [] = 0"
| "numval b (d # ds) = dval d + b * numval b ds"

definition read_int :: "nat \<Rightarrow> byte list \<Rightarrow> int" where
  "read_int b str = (if str \<noteq> [] \<and> hd str = 0x2D then - int (numval b (rev (tl str))) else int (numval b (rev str)))"

lemma dval_digits: "i < 16 \<Longrightarrow> dval (digits ! i) = i \<and> digits ! i \<noteq> 0x2D"
proof -
  assume i: "i < 16"
  have "\<forall>i \<in> set [0..<16]. dval (digits ! i) = i \<and> digits ! i \<noteq> 0x2D" by code_simp
  then show ?thesis using i by simp
qed

lemma int_digits_value:
  assumes "1 < unat b" and "unat b \<le> 16"
  shows "numval (unat b) (int_digits b x) = unat x \<and> (\<forall>d \<in> set (int_digits b x). d \<noteq> 0x2D) \<and> int_digits b x \<noteq> []"
  using assms
proof (induction b x rule: int_digits.induct)
  case (1 b x)
  have m: "unat (x mod b) = unat x mod unat b" by (rule unat_mod)
  have d: "unat (x div b) = unat x div unat b" by (rule unat_div)
  have "unat x mod unat b < unat b" using 1(2) by (intro mod_less_divisor) simp
  then have lt: "unat (x mod b) < 16" using 1(3) unfolding m by (rule less_le_trans)
  note dv = dval_digits [OF lt]
  show ?case
  proof (cases "x div b = 0")
    case True
    then have "unat x div unat b = 0" by (simp add: d [symmetric])
    then have "unat x < unat b" using 1(2) by (simp add: div_eq_0_iff)
    then show ?thesis using True dv m by (simp add: int_digits.simps [of b x] Let_def)
  next
    case False
    have b1: "1 < b" using 1(2) by (simp add: word_less_nat_alt)
    have ih: "numval (unat b) (int_digits b (x div b)) = unat (x div b) \<and> (\<forall>d \<in> set (int_digits b (x div b)). d \<noteq> 0x2D)"
      using 1(1) [OF refl] b1 False 1(2,3) by simp
    have "unat x mod unat b + unat b * (unat x div unat b) = unat x" by simp
    then show ?thesis using False b1 ih dv m d by (simp add: int_digits.simps [of b x] Let_def)
  qed
qed

lemma int_digits_length: "1 < unat b \<Longrightarrow> unat x < unat b ^ Suc k \<Longrightarrow> length (int_digits b x) \<le> Suc k"
proof (induction k arbitrary: x)
  case 0
  then have "unat (x div b) = 0" by (simp add: unat_div)
  then have "x div b = 0" by (simp add: unat_eq_0)
  then show ?case by (simp add: int_digits.simps [of b x] Let_def)
next
  case (Suc k)
  have "unat (x div b) < unat b ^ Suc k"
    using Suc.prems by (simp add: unat_div div_less_iff_less_mult mult.commute)
  then show ?case using Suc.IH [of "x div b"] Suc.prems(1) by (simp add: int_digits.simps [of b x] Let_def)
qed

lemma uint_neg: "sint (x :: u32) < 0 \<Longrightarrow> int (unat (- x)) = - sint x"
proof -
  assume n: "sint x < 0"
  have "- sint x \<le> 2 ^ 31" using sint_ge [of x] by simp
  then have "take_bit 32 (- sint x) = - sint x" using n by (intro take_bit_int_eq_self) simp_all
  moreover have "uint (- x) = take_bit 32 (- uint x)" by (simp add: uint_word_ariths take_bit_eq_mod)
  moreover have "uint x = take_bit 32 (sint x)" using uint_sint [of x] by simp
  ultimately show ?thesis by (simp add: take_bit_minus)
qed

lemma uint_pos: "\<not> sint (x :: u32) < 0 \<Longrightarrow> int (unat x) = sint x"
proof -
  assume "\<not> sint x < 0"
  then have "take_bit 32 (sint x) = sint x" using sint_lt [of x] by (intro take_bit_int_eq_self) simp_all
  then show ?thesis by (simp add: uint_sint)
qed



end
