(* ===== verification/Console.thy ===== *)
theory Console
  imports Kprintf
begin

text \<open>
  \<^verbatim>\<open>kernel/console.c\<close> and the interrupt half of \<^verbatim>\<open>kernel/uart.c\<close>: the line discipline between the UART
  and \<open>consoleread\<close>. The three indices of \<^verbatim>\<open>cons\<close> run freely as 32-bit counters; the buffer is indexed
  by their value modulo its size, 128 = 2 ^ 7.
\<close>

section \<open>State\<close>

record console = kprint +
  cons_buf :: "7 word \<Rightarrow> byte"
  cons_r :: u32
  cons_w :: u32
  cons_e :: u32

definition INPUT_BUF :: u32 where
  "INPUT_BUF = 128"

definition ctrl :: "int \<Rightarrow> int" where
  "ctrl x = x - 0x40"

section \<open>Operations\<close>

primrec consolewrite_loop :: "place \<Rightarrow> byte list \<Rightarrow> nat \<Rightarrow> nat \<Rightarrow> (nat, 'z console_scheme) kop" where
  "consolewrite_loop src v i 0 = retK i"
| "consolewrite_loop src v i (Suc k) =
     bindK (either_copyin (place_add src (of_nat i)) (drop i v) 1) (\<lambda>r.
     case r of
       None \<Rightarrow> retK i
     | Some bs \<Rightarrow> thenK (uartputc (hd bs)) (consolewrite_loop src v (i + 1) k))"

definition consolewrite :: "place \<Rightarrow> byte list \<Rightarrow> u32 \<Rightarrow> (int, 'z console_scheme) kop" where
  "consolewrite src v n =
     thenK (acquire Cons_lock) (
     bindK (consolewrite_loop src v 0 (nat (sint n))) (\<lambda>i.
     thenK (release Cons_lock)
           (retK (int i))))"

text \<open>
  The loop of \<open>consoleread\<close> with \<open>n\<close> bytes still wanted of \<open>target\<close>; a reader that sleeps starts the
  loop again. The result is what \<^verbatim>\<open>n\<close> is at its end, or \<open>None\<close> for the return -1 of a killed reader.
\<close>

primrec consoleread_loop :: "place \<Rightarrow> nat \<Rightarrow> nat \<Rightarrow> (nat option, 'z console_scheme) kop" where
  "consoleread_loop dst target 0 = retK (Some 0)"
| "consoleread_loop dst target (Suc k) =
     bindK (getK (\<lambda>s. cons_r s = cons_w s)) (\<lambda>empty.
     if empty
     then bindK myproc (\<lambda>p. derefK p (\<lambda>p.
          bindK (getK (\<lambda>s. p_killed (procs s p))) (\<lambda>killed.
          if killed then thenK (release Cons_lock) (retK None)
          else sleep Ch_cons_r Cons_lock)))
     else bindK (getK (\<lambda>s. cons_buf s (ucast (cons_r s)))) (\<lambda>c.
          thenK (modK (\<lambda>s. s\<lparr>cons_r := cons_r s + 1\<rparr>)) (
          if uint c = ctrl 0x44
          then thenK (whenK (Suc k < target) (modK (\<lambda>s. s\<lparr>cons_r := cons_r s - 1\<rparr>)))
                     (retK (Some (Suc k)))
          else bindK (either_copyout dst [c]) (\<lambda>e.
               if e = -1 then retK (Some (Suc k))
               else if c = 0x0A then retK (Some k)
               else consoleread_loop (place_add dst 1) target k))))"

definition consoleread :: "place \<Rightarrow> u32 \<Rightarrow> (int, 'z console_scheme) kop" where
  "consoleread dst n =
     thenK (acquire Cons_lock) (
     if sint n \<le> 0 then thenK (release Cons_lock) (retK 0)
     else bindK (consoleread_loop dst (nat (sint n)) (nat (sint n))) (\<lambda>r.
          case r of
            None \<Rightarrow> retK (-1)
          | Some left \<Rightarrow> thenK (release Cons_lock) (retK (sint n - int left))))"

text \<open>
  The loop of \<^verbatim>\<open>^U\<close>. It runs at most once for each edited character, and there are at most
  \<^verbatim>\<open>INPUT_BUF\<close> of them.
\<close>

primrec kill_line :: "nat \<Rightarrow> (unit, 'z console_scheme) kop" where
  "kill_line 0 = divergeK"
| "kill_line (Suc k) =
     bindK (getK (\<lambda>s. cons_e s \<noteq> cons_w s \<and> cons_buf s (ucast (cons_e s - 1)) \<noteq> 0x0A)) (\<lambda>more.
     if more
     then thenK (modK (\<lambda>s. s\<lparr>cons_e := cons_e s - 1\<rparr>)) (
          thenK (consputc BACKSPACE)
                (kill_line k))
     else retK ())"

definition consoleintr :: "int \<Rightarrow> (unit, 'z console_scheme) kop" where
  "consoleintr c =
     thenK (acquire Cons_lock) (
     thenK
       (if c = ctrl 0x50 then procdump
        else if c = ctrl 0x55 then kill_line (unat INPUT_BUF + 1)
        else if c = ctrl 0x48 \<or> c = 0x7F
        then bindK (getK (\<lambda>s. cons_e s \<noteq> cons_w s)) (\<lambda>some.
             whenK some
               (thenK (modK (\<lambda>s. s\<lparr>cons_e := cons_e s - 1\<rparr>))
                      (consputc BACKSPACE)))
        else bindK (getK (\<lambda>s. c \<noteq> 0 \<and> cons_e s - cons_r s < INPUT_BUF)) (\<lambda>room.
             whenK room
               (let c = (if c = 0x0D then 0x0A else c) in
                thenK (consputc c) (
                thenK (modK (\<lambda>s. s\<lparr>cons_buf := (cons_buf s)(ucast (cons_e s) := word_of_int c),
                                   cons_e := cons_e s + 1\<rparr>)) (
                bindK (getK (\<lambda>s. c = 0x0A \<or> c = ctrl 0x44 \<or> cons_e s = cons_r s + INPUT_BUF)) (\<lambda>whole.
                whenK whole
                  (thenK (modK (\<lambda>s. s\<lparr>cons_w := cons_e s\<rparr>))
                         (wakeup Ch_cons_r))))))))
     (release Cons_lock))"

text \<open>
  The input loop of \<open>uartintr\<close>: it ends when \<open>uartgetc\<close> finds no character, so it runs at most once
  per response that the device still gives.
\<close>

primrec uartintr_loop :: "nat \<Rightarrow> (unit, 'z console_scheme) kop" where
  "uartintr_loop 0 = divergeK"
| "uartintr_loop (Suc k) =
     bindK uartgetc (\<lambda>c.
     if c = -1 then retK ()
     else thenK (consoleintr c) (uartintr_loop k))"

definition uartintr :: "(unit, 'z console_scheme) kop" where
  "uartintr =
     bindK (getK (\<lambda>s. length (uart_resp s))) (\<lambda>n.
     thenK (uartintr_loop (Suc n)) (
     thenK (acquire Uart_tx_lock) (
     thenK uartstart
           (release Uart_tx_lock))))"

end
