(* ===== verification/Virtio.thy ===== *)
theory Virtio
  imports Console Alloc_Spec
begin

text \<open>
  The disk driver \<^verbatim>\<open>kernel/virtio_disk.c\<close>: the descriptor table, the available and the used ring, and
  the buffers of \<^verbatim>\<open>kernel/buf.h\<close> that the device reads and writes. Addresses that the driver gives to the
  device are symbolic. The device itself is outside the program: the state carries it as a function
  on the memory it shares with the driver, and \<open>serves_requests\<close> states what the virtio interface
  promises of it.
\<close>

section \<open>State\<close>

definition NUM :: nat where
  "NUM = 8"

definition BSIZE :: nat where
  "BSIZE = 1024"

text \<open>What a descriptor points to: the request header, the data of a buffer, or a status byte.\<close>

datatype dmaptr = Null | Outhdr u32 u64 | Bufdata nat | Status nat

record VRingDesc =
  d_addr :: dmaptr
  d_len :: u32
  d_flags :: u16
  d_next :: u16

definition VRING_DESC_F_NEXT :: u16 where
  "VRING_DESC_F_NEXT = 1"

definition VRING_DESC_F_WRITE :: u16 where
  "VRING_DESC_F_WRITE = 2"

definition VIRTIO_BLK_T_IN :: u32 where
  "VIRTIO_BLK_T_IN = 0"

definition VIRTIO_BLK_T_OUT :: u32 where
  "VIRTIO_BLK_T_OUT = 1"

text \<open>
  \<^verbatim>\<open>struct disk\<close>. \<open>vd_avail_idx\<close> is \<^verbatim>\<open>avail[1]\<close> and \<open>vd_avail\<close> the ring from \<^verbatim>\<open>avail[2]\<close> on; \<open>vd_used_id\<close> and
  \<open>vd_used\<close> are \<^verbatim>\<open>used->id\<close> and the identifiers of \<^verbatim>\<open>used->elems\<close>. On the device's side are the number of
  requests it has seen, the sectors (by the number of the first one of a block) and the writes it has
  done so far. Reads of the control registers are answered by \<open>vd_resp\<close>, writes recorded.
\<close>

record vdisk =
  vd_desc :: "nat \<Rightarrow> VRingDesc"
  vd_avail_idx :: u16
  vd_avail :: "nat \<Rightarrow> u16"
  vd_used_id :: u16
  vd_used :: "nat \<Rightarrow> u32"
  vd_free :: "nat \<Rightarrow> bool"
  vd_used_idx :: u16
  vd_info_b :: "nat \<Rightarrow> nat option"
  vd_info_status :: "nat \<Rightarrow> byte"
  vd_seen :: u16
  vd_sectors :: "u64 \<Rightarrow> block"
  vd_trace :: "(u64 \<times> block) list"
  vd_pages :: u64
  vd_resp :: "nat \<Rightarrow> u32"
  vd_nresp :: nat
  vd_regs :: "(u64 \<times> u32) list"

record buf =
  b_valid :: bool
  b_disk :: bool
  b_dev :: u32
  b_blockno :: u32
  b_refcnt :: u32
  b_prev :: nat
  b_next :: nat
  b_data :: block

type_synonym vdevice = "vdisk \<Rightarrow> (nat \<Rightarrow> block) \<Rightarrow> vdisk \<times> (nat \<Rightarrow> block)"

record virtio = console +
  vdisk :: vdisk
  bufs :: "nat \<Rightarrow> buf"
  vdev :: vdevice

definition upd_vd :: "(vdisk \<Rightarrow> vdisk) \<Rightarrow> 'z virtio_scheme \<Rightarrow> 'z virtio_scheme" where
  "upd_vd f s = s\<lparr>vdisk := f (vdisk s)\<rparr>"

definition upd_buf :: "nat \<Rightarrow> (buf \<Rightarrow> buf) \<Rightarrow> 'z virtio_scheme \<Rightarrow> 'z virtio_scheme" where
  "upd_buf i f s = s\<lparr>bufs := (bufs s)(i := f (bufs s i))\<rparr>"

section \<open>Control registers\<close>

definition rd_mmio :: "u64 \<Rightarrow> (u32, 'z virtio_scheme) kop" where
  "rd_mmio r =
     bindK (getK (\<lambda>s. vd_resp (vdisk s) (vd_nresp (vdisk s)))) (\<lambda>v.
     thenK (modK (upd_vd (\<lambda>d. d\<lparr>vd_nresp := vd_nresp d + 1\<rparr>))) (retK v))"

definition wr_mmio :: "u64 \<Rightarrow> u32 \<Rightarrow> (unit, 'z virtio_scheme) kop" where
  "wr_mmio r v = modK (upd_vd (\<lambda>d. d\<lparr>vd_regs := vd_regs d @ [(r, v)]\<rparr>))"

definition VIRTIO_MMIO_MAGIC_VALUE :: u64 where
  "VIRTIO_MMIO_MAGIC_VALUE = 0x000"

definition VIRTIO_MMIO_VERSION :: u64 where
  "VIRTIO_MMIO_VERSION = 0x004"

definition VIRTIO_MMIO_DEVICE_ID :: u64 where
  "VIRTIO_MMIO_DEVICE_ID = 0x008"

definition VIRTIO_MMIO_VENDOR_ID :: u64 where
  "VIRTIO_MMIO_VENDOR_ID = 0x00c"

definition VIRTIO_MMIO_DEVICE_FEATURES :: u64 where
  "VIRTIO_MMIO_DEVICE_FEATURES = 0x010"

definition VIRTIO_MMIO_DRIVER_FEATURES :: u64 where
  "VIRTIO_MMIO_DRIVER_FEATURES = 0x020"

definition VIRTIO_MMIO_GUEST_PAGE_SIZE :: u64 where
  "VIRTIO_MMIO_GUEST_PAGE_SIZE = 0x028"

definition VIRTIO_MMIO_QUEUE_SEL :: u64 where
  "VIRTIO_MMIO_QUEUE_SEL = 0x030"

definition VIRTIO_MMIO_QUEUE_NUM_MAX :: u64 where
  "VIRTIO_MMIO_QUEUE_NUM_MAX = 0x034"

definition VIRTIO_MMIO_QUEUE_NUM :: u64 where
  "VIRTIO_MMIO_QUEUE_NUM = 0x038"

definition VIRTIO_MMIO_QUEUE_PFN :: u64 where
  "VIRTIO_MMIO_QUEUE_PFN = 0x040"

definition VIRTIO_MMIO_QUEUE_NOTIFY :: u64 where
  "VIRTIO_MMIO_QUEUE_NOTIFY = 0x050"

definition VIRTIO_MMIO_INTERRUPT_STATUS :: u64 where
  "VIRTIO_MMIO_INTERRUPT_STATUS = 0x060"

definition VIRTIO_MMIO_INTERRUPT_ACK :: u64 where
  "VIRTIO_MMIO_INTERRUPT_ACK = 0x064"

definition VIRTIO_MMIO_STATUS :: u64 where
  "VIRTIO_MMIO_STATUS = 0x070"

text \<open>The feature bits the driver clears: RO, SCSI, CONFIG_WCE, MQ, ANY_LAYOUT, EVENT_IDX, INDIRECT_DESC.\<close>

definition unwanted_features :: "nat list" where
  "unwanted_features = [5, 7, 11, 12, 27, 29, 28]"

definition zero_desc :: VRingDesc where
  "zero_desc = \<lparr>d_addr = Null, d_len = 0, d_flags = 0, d_next = 0\<rparr>"

definition virtio_disk_init :: "(unit, 'z virtio_scheme) kop" where
  "virtio_disk_init =
     thenK (initlock Vdisk_lock ''virtio_disk'') (
     bindK (rd_mmio VIRTIO_MMIO_MAGIC_VALUE) (\<lambda>m.
     bindK (if m \<noteq> 0x74726976 then retK True
            else bindK (rd_mmio VIRTIO_MMIO_VERSION) (\<lambda>v.
                 if v \<noteq> 1 then retK True
                 else bindK (rd_mmio VIRTIO_MMIO_DEVICE_ID) (\<lambda>d.
                      if d \<noteq> 2 then retK True
                      else bindK (rd_mmio VIRTIO_MMIO_VENDOR_ID) (\<lambda>w. retK (w \<noteq> 0x554d4551))))) (\<lambda>bad.
     if bad then panicK ''could not find virtio disk''
     else
     thenK (wr_mmio VIRTIO_MMIO_STATUS 1) (
     thenK (wr_mmio VIRTIO_MMIO_STATUS (1 OR 2)) (
     bindK (rd_mmio VIRTIO_MMIO_DEVICE_FEATURES) (\<lambda>f.
     thenK (wr_mmio VIRTIO_MMIO_DRIVER_FEATURES
              (ucast (fold (\<lambda>k x. x AND NOT (push_bit k 1)) unwanted_features (ucast f :: u64)))) (
     thenK (wr_mmio VIRTIO_MMIO_STATUS (1 OR 2 OR 8)) (
     thenK (wr_mmio VIRTIO_MMIO_STATUS (1 OR 2 OR 8 OR 4)) (
     thenK (wr_mmio VIRTIO_MMIO_GUEST_PAGE_SIZE (ucast PGSIZE)) (
     thenK (wr_mmio VIRTIO_MMIO_QUEUE_SEL 0) (
     bindK (rd_mmio VIRTIO_MMIO_QUEUE_NUM_MAX) (\<lambda>mx.
     if mx = 0 then panicK ''virtio disk has no queue 0''
     else if mx < of_nat NUM then panicK ''virtio disk max queue too short''
     else
     thenK (wr_mmio VIRTIO_MMIO_QUEUE_NUM (of_nat NUM)) (
     thenK (modK (upd_vd (\<lambda>d. d\<lparr>vd_desc := (\<lambda>_. zero_desc), vd_avail_idx := 0, vd_avail := (\<lambda>_. 0),
                                  vd_used_id := 0, vd_used := (\<lambda>_. 0)\<rparr>))) (
     bindK (getK (\<lambda>s. vd_pages (vdisk s))) (\<lambda>pages.
     thenK (wr_mmio VIRTIO_MMIO_QUEUE_PFN (ucast (drop_bit 12 pages)))
           (modK (upd_vd (\<lambda>d. d\<lparr>vd_free := (\<lambda>i. i < NUM \<or> vd_free d i)\<rparr>))))))))))))))))))"

section \<open>Descriptors\<close>

definition try_desc :: "nat \<Rightarrow> (nat option, 'z virtio_scheme) kop" where
  "try_desc i =
     bindK (getK (\<lambda>s. vd_free (vdisk s) i)) (\<lambda>free.
     if free
     then thenK (modK (upd_vd (\<lambda>d. d\<lparr>vd_free := (vd_free d)(i := False)\<rparr>))) (retK (Some i))
     else retK None)"

definition alloc_desc :: "(nat option, 'z virtio_scheme) kop" where
  "alloc_desc = searchK try_desc [0..<NUM]"

definition free_desc :: "nat \<Rightarrow> (unit, 'z virtio_scheme) kop" where
  "free_desc i =
     (if i \<ge> NUM then panicK ''virtio_disk_intr 1''
      else bindK (getK (\<lambda>s. vd_free (vdisk s) i)) (\<lambda>free.
           if free then panicK ''virtio_disk_intr 2''
           else thenK (modK (upd_vd (\<lambda>d. d\<lparr>vd_desc := (vd_desc d)(i := (vd_desc d i)\<lparr>d_addr := Null\<rparr>),
                                             vd_free := (vd_free d)(i := True)\<rparr>)))
                      (wakeup Ch_disk_free)))"

text \<open>
  \<open>free_chain\<close> frees a descriptor in every round and \<open>free_desc\<close> panics on a free one, so it makes at
  most \<open>NUM\<close> full rounds.
\<close>

primrec free_chain_loop :: "nat \<Rightarrow> nat \<Rightarrow> (unit, 'z virtio_scheme) kop" where
  "free_chain_loop 0 i = divergeK"
| "free_chain_loop (Suc k) i =
     thenK (free_desc i) (
     bindK (getK (\<lambda>s. vd_desc (vdisk s) i)) (\<lambda>d.
     if d_flags d AND VRING_DESC_F_NEXT \<noteq> 0 then free_chain_loop k (unat (d_next d))
     else retK ()))"

definition free_chain :: "nat \<Rightarrow> (unit, 'z virtio_scheme) kop" where
  "free_chain i = free_chain_loop (NUM + 1) i"

text \<open>\<open>alloc3_desc\<close> gives the three indices, or \<open>None\<close> for -1; then those taken have been freed again.\<close>

definition alloc3_desc :: "((nat \<times> nat \<times> nat) option, 'z virtio_scheme) kop" where
  "alloc3_desc =
     bindK alloc_desc (\<lambda>r0. case r0 of
       None \<Rightarrow> retK None
     | Some i0 \<Rightarrow> bindK alloc_desc (\<lambda>r1. case r1 of
         None \<Rightarrow> thenK (free_desc i0) (retK None)
       | Some i1 \<Rightarrow> bindK alloc_desc (\<lambda>r2. case r2 of
           None \<Rightarrow> thenK (free_desc i0) (thenK (free_desc i1) (retK None))
         | Some i2 \<Rightarrow> retK (Some (i0, i1, i2)))))"

section \<open>Interrupts\<close>

text \<open>
  The loop of \<open>virtio_disk_intr\<close>: \<^verbatim>\<open>used_idx\<close> moves to \<^verbatim>\<open>used->id\<close> modulo \<open>NUM\<close>, so \<open>NUM\<close> rounds are enough.
\<close>

primrec virtio_disk_intr_loop :: "nat \<Rightarrow> (unit, 'z virtio_scheme) kop" where
  "virtio_disk_intr_loop 0 = divergeK"
| "virtio_disk_intr_loop (Suc k) =
     bindK (getK (\<lambda>s. unat (vd_used_idx (vdisk s)) mod NUM \<noteq> unat (vd_used_id (vdisk s)) mod NUM)) (\<lambda>more.
     if \<not> more then retK ()
     else bindK (getK (\<lambda>s. unat (vd_used (vdisk s) (unat (vd_used_idx (vdisk s)))))) (\<lambda>id.
          bindK (getK (\<lambda>s. vd_info_status (vdisk s) id)) (\<lambda>st.
          if st \<noteq> 0 then panicK ''virtio_disk_intr status''
          else bindK (getK (\<lambda>s. vd_info_b (vdisk s) id)) (\<lambda>b. derefK b (\<lambda>b.
               thenK (modK (upd_buf b (\<lambda>r. r\<lparr>b_disk := False\<rparr>))) (
               thenK (wakeup (Ch_buf b)) (
               thenK (modK (upd_vd (\<lambda>d. d\<lparr>vd_used_idx := (vd_used_idx d + 1) mod of_nat NUM\<rparr>)))
                     (virtio_disk_intr_loop k))))))))"

definition virtio_disk_intr :: "(unit, 'z virtio_scheme) kop" where
  "virtio_disk_intr =
     thenK (acquire Vdisk_lock) (
     thenK (virtio_disk_intr_loop NUM) (
     bindK (rd_mmio VIRTIO_MMIO_INTERRUPT_STATUS) (\<lambda>v.
     thenK (wr_mmio VIRTIO_MMIO_INTERRUPT_ACK (v AND 0x3))
           (release Vdisk_lock))))"

section \<open>Requests\<close>

definition run_device :: "(unit, 'z virtio_scheme) kop" where
  "run_device = modK (\<lambda>s.
     let (d, data) = vdev s (vdisk s) (\<lambda>i. b_data (bufs s i))
     in s\<lparr>vdisk := d, bufs := (\<lambda>i. (bufs s i)\<lparr>b_data := data i\<rparr>)\<rparr>)"

text \<open>
  The sleep of \<open>virtio_disk_rw\<close> until the request has finished: it gives up the lock, the device runs
  and raises its interrupt, and the process runs again with the lock. If the device has not
  finished the request the process sleeps on.
\<close>

definition await_disk :: "nat \<Rightarrow> (unit, 'z virtio_scheme) kop" where
  "await_disk b =
     bindK (getK (\<lambda>s. b_disk (bufs s b))) (\<lambda>busy.
     whenK busy
       (thenK (release Vdisk_lock) (
        thenK run_device (
        thenK virtio_disk_intr (
        thenK (acquire Vdisk_lock) (
        bindK (getK (\<lambda>s. b_disk (bufs s b))) (\<lambda>busy.
        if busy then sleep (Ch_buf b) Vdisk_lock else retK ())))))))"

definition format_request :: "nat \<Rightarrow> bool \<Rightarrow> u64 \<Rightarrow> nat \<Rightarrow> nat \<Rightarrow> nat \<Rightarrow> vdisk \<Rightarrow> vdisk" where
  "format_request b write sector i0 i1 i2 d =
     d\<lparr>vd_desc := (vd_desc d)(
         i0 := \<lparr>d_addr = Outhdr (if write then VIRTIO_BLK_T_OUT else VIRTIO_BLK_T_IN) sector,
                d_len = 16, d_flags = VRING_DESC_F_NEXT, d_next = of_nat i1\<rparr>,
         i1 := \<lparr>d_addr = Bufdata b, d_len = of_nat BSIZE,
                d_flags = (if write then 0 else VRING_DESC_F_WRITE) OR VRING_DESC_F_NEXT, d_next = of_nat i2\<rparr>,
         i2 := \<lparr>d_addr = Status i0, d_len = 1, d_flags = VRING_DESC_F_WRITE, d_next = 0\<rparr>),
       vd_info_status := (vd_info_status d)(i0 := 0)\<rparr>"

definition publish :: "nat \<Rightarrow> vdisk \<Rightarrow> vdisk" where
  "publish i0 d =
     d\<lparr>vd_avail := (vd_avail d)(unat (vd_avail_idx d) mod NUM := of_nat i0),
       vd_avail_idx := vd_avail_idx d + 1\<rparr>"

text \<open>The body of \<open>virtio_disk_rw\<close> with the lock held; a process that sleeps for descriptors starts it again.\<close>

definition virtio_disk_rw_locked :: "nat \<Rightarrow> bool \<Rightarrow> u64 \<Rightarrow> (unit, 'z virtio_scheme) kop" where
  "virtio_disk_rw_locked b write sector =
     bindK alloc3_desc (\<lambda>r. case r of
       None \<Rightarrow> sleep Ch_disk_free Vdisk_lock
     | Some (i0, i1, i2) \<Rightarrow>
         thenK (modK (upd_vd (format_request b write sector i0 i1 i2))) (
         thenK (modK (upd_buf b (\<lambda>r. r\<lparr>b_disk := True\<rparr>))) (
         thenK (modK (upd_vd (\<lambda>d. d\<lparr>vd_info_b := (vd_info_b d)(i0 := Some b)\<rparr>))) (
         thenK (modK (upd_vd (publish i0))) (
         thenK (wr_mmio VIRTIO_MMIO_QUEUE_NOTIFY 0) (
         thenK (await_disk b) (
         thenK (modK (upd_vd (\<lambda>d. d\<lparr>vd_info_b := (vd_info_b d)(i0 := None)\<rparr>))) (
         thenK (free_chain i0)
               (release Vdisk_lock)))))))))"

definition virtio_disk_rw :: "nat \<Rightarrow> bool \<Rightarrow> (unit, 'z virtio_scheme) kop" where
  "virtio_disk_rw b write =
     bindK (getK (\<lambda>s. ucast (b_blockno (bufs s b) * of_nat (BSIZE div 512)) :: u64)) (\<lambda>sector.
     thenK (acquire Vdisk_lock)
           (virtio_disk_rw_locked b write sector))"

section \<open>The device\<close>

text \<open>One chain of three descriptors waits for the device, as the driver builds it.\<close>

definition pending_request :: "vdisk \<Rightarrow> nat \<Rightarrow> nat \<Rightarrow> nat \<Rightarrow> nat \<Rightarrow> bool \<Rightarrow> u64 \<Rightarrow> bool" where
  "pending_request d i0 i1 i2 b write sector \<longleftrightarrow>
     i0 < NUM \<and> i1 < NUM \<and> i2 < NUM \<and> vd_avail_idx d = vd_seen d + 1 \<and>
     vd_avail d (unat (vd_seen d) mod NUM) = of_nat i0 \<and>
     vd_desc d i0 = \<lparr>d_addr = Outhdr (if write then VIRTIO_BLK_T_OUT else VIRTIO_BLK_T_IN) sector,
       d_len = 16, d_flags = VRING_DESC_F_NEXT, d_next = of_nat i1\<rparr> \<and>
     vd_desc d i1 = \<lparr>d_addr = Bufdata b, d_len = of_nat BSIZE,
       d_flags = (if write then 0 else VRING_DESC_F_WRITE) OR VRING_DESC_F_NEXT, d_next = of_nat i2\<rparr> \<and>
     vd_desc d i2 = \<lparr>d_addr = Status i0, d_len = 1, d_flags = VRING_DESC_F_WRITE, d_next = 0\<rparr>"

text \<open>What the device leaves: the block transferred, status 0 and the head of the chain on the used ring.\<close>

definition served :: "nat \<Rightarrow> nat \<Rightarrow> bool \<Rightarrow> u64 \<Rightarrow> vdisk \<Rightarrow> (nat \<Rightarrow> block) \<Rightarrow> vdisk \<times> (nat \<Rightarrow> block)" where
  "served i0 b write sector d data =
     (d\<lparr>vd_info_status := (vd_info_status d)(i0 := 0),
        vd_used := (vd_used d)(unat (vd_used_id d) mod NUM := of_nat i0),
        vd_used_id := vd_used_id d + 1,
        vd_seen := vd_seen d + 1,
        vd_sectors := (if write then (vd_sectors d)(sector := data b) else vd_sectors d),
        vd_trace := (if write then vd_trace d @ [(sector, data b)] else vd_trace d)\<rparr>,
      if write then data else data(b := vd_sectors d sector))"

definition serves_requests :: "vdevice \<Rightarrow> bool" where
  "serves_requests dv \<longleftrightarrow> (\<forall>d data i0 i1 i2 b write sector.
     pending_request d i0 i1 i2 b write sector \<longrightarrow> dv d data = served i0 b write sector d data)"

section \<open>Closed forms\<close>

lemma virtio_acq [simp]:
  "vdisk (acq l s) = vdisk s"
  "bufs (acq l s) = bufs s"
  "vdev (acq l s) = vdev s"
  "(acq l s)\<lparr>vdisk := x\<rparr> = acq l (s\<lparr>vdisk := x\<rparr>)"
  "(acq l s)\<lparr>bufs := y\<rparr> = acq l (s\<lparr>bufs := y\<rparr>)"
  by (simp_all add: acq_def upd_lock_def pushed_def cid_def intr_enabled_def)

lemma virtio_upd [simp]:
  "cid (s\<lparr>vdisk := x\<rparr>) = cid s" "cid (s\<lparr>bufs := y\<rparr>) = cid s"
  "cpu_ok (s\<lparr>vdisk := x\<rparr>) = cpu_ok s" "cpu_ok (s\<lparr>bufs := y\<rparr>) = cpu_ok s"
  "lock_free l (s\<lparr>vdisk := x\<rparr>) = lock_free l s" "lock_free l (s\<lparr>bufs := y\<rparr>) = lock_free l s"
  "quiet (s\<lparr>vdisk := x\<rparr>) = quiet s" "quiet (s\<lparr>bufs := y\<rparr>) = quiet s"
  "proc_locks_free (s\<lparr>vdisk := x\<rparr>) = proc_locks_free s" "proc_locks_free (s\<lparr>bufs := y\<rparr>) = proc_locks_free s"
  by (simp_all add: cpu_ok_def cid_def lock_free_def intr_enabled_def quiet_def proc_locks_free_def)

declare quietD [simp]

text \<open>Updates are kept in the order of the fields, later fields innermost.\<close>

lemma virtio_order [simp]:
  "(s\<lparr>procs := p\<rparr>)\<lparr>vdisk := d\<rparr> = (s\<lparr>vdisk := d\<rparr>)\<lparr>procs := p\<rparr>"
  "(s\<lparr>procs := p\<rparr>)\<lparr>bufs := b\<rparr> = (s\<lparr>bufs := b\<rparr>)\<lparr>procs := p\<rparr>"
  "(s\<lparr>slocks := l\<rparr>)\<lparr>vdisk := d\<rparr> = (s\<lparr>vdisk := d\<rparr>)\<lparr>slocks := l\<rparr>"
  "(s\<lparr>slocks := l\<rparr>)\<lparr>bufs := b\<rparr> = (s\<lparr>bufs := b\<rparr>)\<lparr>slocks := l\<rparr>"
  "(s\<lparr>vdisk := d\<rparr>)\<lparr>bufs := b\<rparr> = (s\<lparr>bufs := b\<rparr>)\<lparr>vdisk := d\<rparr>"
  by simp_all

text \<open>Processes may only be woken: \<open>roused ps ps'\<close>.\<close>

definition roused :: "(nat \<Rightarrow> proc) \<Rightarrow> (nat \<Rightarrow> proc) \<Rightarrow> bool" where
  "roused ps ps' \<longleftrightarrow> (\<forall>i. ps' i = ps i \<or> p_state (ps i) = SLEEPING \<and> ps' i = (ps i)\<lparr>p_state := RUNNABLE\<rparr>)"

lemma roused_refl [simp]: "roused ps ps"
  by (simp add: roused_def)

lemma roused_woken [simp]: "roused ps (woken ch ps)"
  by (simp add: roused_def woken_def wake_one_def)

lemma roused_trans: "roused ps qs \<Longrightarrow> roused qs rs \<Longrightarrow> roused ps rs"
  unfolding roused_def by (metis proc.select_convs(1) proc.surjective proc.update_convs(1) procstate.distinct(9))

lemma roused_pid: "roused ps qs \<Longrightarrow> p_pid (qs i) = p_pid (ps i)"
  by (auto simp: roused_def dest: spec [of _ i])

text \<open>No request is in flight.\<close>

definition vd_idle :: "vdisk \<Rightarrow> bool" where
  "vd_idle d \<longleftrightarrow> (\<forall>i < NUM. vd_free d i) \<and> vd_avail_idx d = vd_seen d \<and>
     unat (vd_used_idx d) = unat (vd_used_id d) mod NUM"

lemma upto_NUM: "[0..<NUM] = [0, 1, 2, 3, 4, 5, 6, 7]"
  by (simp add: NUM_def upt_rec)

lemma try_desc_free: "vd_free (vdisk s) i \<Longrightarrow>
  try_desc i s = Ret (Some i) (upd_vd (\<lambda>d. d\<lparr>vd_free := (vd_free d)(i := False)\<rparr>) s)"
  by (simp add: try_desc_def)

lemma try_desc_taken: "\<not> vd_free (vdisk s) i \<Longrightarrow> try_desc i s = Ret None s"
  by (simp add: try_desc_def)

lemma alloc3_idle:
  assumes "\<forall>i < NUM. vd_free (vdisk s) i"
  shows "alloc3_desc s = Ret (Some (0, 1, 2))
    (upd_vd (\<lambda>d. d\<lparr>vd_free := (vd_free d)(0 := False, 1 := False, 2 := False)\<rparr>) s)"
proof -
  have f: "vd_free (vdisk s) 0" "vd_free (vdisk s) 1" "vd_free (vdisk s) 2" using assms by (simp_all add: NUM_def)
  let ?s1 = "upd_vd (\<lambda>d. d\<lparr>vd_free := (vd_free d)(0 := False)\<rparr>) s"
  let ?s2 = "upd_vd (\<lambda>d. d\<lparr>vd_free := (vd_free d)(1 := False)\<rparr>) ?s1"
  let ?s3 = "upd_vd (\<lambda>d. d\<lparr>vd_free := (vd_free d)(2 := False)\<rparr>) ?s2"
  have 1: "alloc_desc s = Ret (Some 0) ?s1"
    using f by (simp add: alloc_desc_def upto_NUM try_desc_free)
  have 2: "alloc_desc ?s1 = Ret (Some 1) ?s2"
    using f by (simp add: alloc_desc_def upto_NUM try_desc_free try_desc_taken upd_vd_def)
  have 3: "alloc_desc ?s2 = Ret (Some 2) ?s3"
    using f by (simp add: alloc_desc_def upto_NUM try_desc_free try_desc_taken upd_vd_def)
  show ?thesis using 1 2 3 by (simp add: alloc3_desc_def upd_vd_def)
qed

lemma free_desc_eq:
  assumes "quiet s" and "i < NUM" and "\<not> vd_free (vdisk (acq Vdisk_lock s)) i"
  shows "free_desc i (acq Vdisk_lock s) = Ret () (acq Vdisk_lock
    (s\<lparr>vdisk := (vdisk s)\<lparr>vd_desc := (vd_desc (vdisk s))(i := (vd_desc (vdisk s) i)\<lparr>d_addr := Null\<rparr>),
        vd_free := (vd_free (vdisk s))(i := True)\<rparr>, procs := woken Ch_disk_free (procs s)\<rparr>))"
  using assms by (simp add: free_desc_def upd_vd_def wakeup_woken)

lemma rd_mmio_eq: "rd_mmio r s = Ret (vd_resp (vdisk s) (vd_nresp (vdisk s))) (upd_vd (\<lambda>d. d\<lparr>vd_nresp := vd_nresp d + 1\<rparr>) s)"
  by (simp add: rd_mmio_def)

lemma intr_loop_one:
  assumes q: "quiet s" and d: "d = vdisk s" and k: "unat (vd_used_idx d) = k" "k < NUM"
    and more: "unat (vd_used_id d) mod NUM = (k + 1) mod NUM"
    and i: "unat (vd_used d k) = i" "vd_info_status d i = 0" "vd_info_b d i = Some b"
    and e: "e = (vd_used_idx d + 1) mod of_nat NUM"
  shows "virtio_disk_intr_loop NUM (acq Vdisk_lock s) =
    Ret () (acq Vdisk_lock (s\<lparr>bufs := (bufs s)(b := (bufs s b)\<lparr>b_disk := False\<rparr>),
      vdisk := d\<lparr>vd_used_idx := e\<rparr>, procs := woken (Ch_buf b) (procs s)\<rparr>))"
    and "unat e = (k + 1) mod NUM"
proof -
  have n: "NUM = Suc (Suc 6)" by (simp add: NUM_def)
  have k1: "k mod NUM \<noteq> (k + 1) mod NUM"
    using k(2) unfolding NUM_def by (cases "k = 7") simp_all
  have "unat (vd_used_idx d + 1) = k + 1" using k by (simp add: unat_word_ariths NUM_def)
  then show e1: "unat e = (k + 1) mod NUM" by (simp add: e unat_mod NUM_def)
  have go: "unat (vd_used_idx (vdisk s)) mod NUM \<noteq> unat (vd_used_id (vdisk s)) mod NUM"
    using k(1) more k1 d by simp
  have stop: "unat e mod NUM = unat (vd_used_id d) mod NUM" using e1 more by simp
  let ?t = "s\<lparr>bufs := (bufs s)(b := (bufs s b)\<lparr>b_disk := False\<rparr>), vdisk := d\<lparr>vd_used_idx := e\<rparr>, procs := woken (Ch_buf b) (procs s)\<rparr>"
  have "virtio_disk_intr_loop (Suc 6) (acq Vdisk_lock ?t) = Ret () (acq Vdisk_lock ?t)"
    using stop by (subst virtio_disk_intr_loop.simps) simp
  then have "virtio_disk_intr_loop (Suc (Suc 6)) (acq Vdisk_lock s) = Ret () (acq Vdisk_lock ?t)"
    using go q i k(1) d
    by (subst virtio_disk_intr_loop.simps) (simp add: upd_buf_def upd_vd_def wakeup_woken e del: virtio_disk_intr_loop.simps)
  then show "virtio_disk_intr_loop NUM (acq Vdisk_lock s) = Ret () (acq Vdisk_lock ?t)" by (simp only: n)
qed

lemma intr_one:
  assumes "quiet s" and "d = vdisk s" and "unat (vd_used_idx d) = k" and "k < NUM"
    and "unat (vd_used_id d) mod NUM = (k + 1) mod NUM"
    and "unat (vd_used d k) = i" and "vd_info_status d i = 0" and "vd_info_b d i = Some b"
  shows "\<exists>e n r. virtio_disk_intr s = Ret () (s\<lparr>bufs := (bufs s)(b := (bufs s b)\<lparr>b_disk := False\<rparr>),
      vdisk := d\<lparr>vd_used_idx := e, vd_nresp := n, vd_regs := r\<rparr>, procs := woken (Ch_buf b) (procs s)\<rparr>) \<and>
    unat e = (k + 1) mod NUM"
proof -
  define e where "e = (vd_used_idx d + 1) mod of_nat NUM"
  note one = intr_loop_one [OF assms e_def]
  then show ?thesis using assms(1)
    by (intro exI conjI [of _ "unat e = (k + 1) mod NUM"])
      (simp_all add: virtio_disk_intr_def lock_steps rd_mmio_def wr_mmio_def upd_vd_def)
qed

text \<open>The free chain of a request that was formatted for descriptors 0, 1 and 2.\<close>

lemma free_chain_3:
  assumes q: "quiet s" and d: "d = vdisk s"
    and f: "\<not> vd_free d 0" "\<not> vd_free d 1" "\<not> vd_free d 2"
    and n: "d_flags (vd_desc d 0) = VRING_DESC_F_NEXT" "d_next (vd_desc d 0) = 1"
      "d_flags (vd_desc d 1) AND VRING_DESC_F_NEXT \<noteq> 0" "d_next (vd_desc d 1) = 2"
      "d_flags (vd_desc d 2) = VRING_DESC_F_WRITE"
  shows "\<exists>D ps. free_chain 0 (acq Vdisk_lock s) = Ret () (acq Vdisk_lock
      (s\<lparr>vdisk := d\<lparr>vd_desc := D, vd_free := (vd_free d)(0 := True, 1 := True, 2 := True)\<rparr>, procs := ps\<rparr>)) \<and>
    roused (procs s) ps"
proof -
  let ?w = "woken Ch_disk_free"
  have nx: "VRING_DESC_F_NEXT AND VRING_DESC_F_NEXT \<noteq> 0" "VRING_DESC_F_WRITE AND VRING_DESC_F_NEXT = 0"
    by (simp_all add: VRING_DESC_F_NEXT_def VRING_DESC_F_WRITE_def)
  have l: "(0::nat) < NUM" "(1::nat) < NUM" "(2::nat) < NUM" by (simp_all add: NUM_def)
  have u: "unat (1 :: u16) = 1" "unat (2 :: u16) = 2" by simp_all
  have n9: "NUM + 1 = Suc (Suc (Suc 6))" by (simp add: NUM_def)
  have "\<exists>D. free_chain_loop (Suc (Suc (Suc m))) 0 (acq Vdisk_lock s) = Ret () (acq Vdisk_lock
      (s\<lparr>vdisk := d\<lparr>vd_desc := D, vd_free := (vd_free d)(0 := True, 1 := True, 2 := True)\<rparr>, procs := ?w (?w (?w (procs s)))\<rparr>))" for m
    using q f n nx l u d by (simp add: free_desc_eq) (auto simp: fun_upd_twist intro!: exI)
  then show ?thesis unfolding free_chain_def n9 using roused_trans [OF roused_trans] roused_woken by blast
qed

definition sector_of :: "u32 \<Rightarrow> u64" where
  "sector_of bn = ucast (bn * 2)"

definition submitted :: "nat \<Rightarrow> bool \<Rightarrow> u64 \<Rightarrow> vdisk \<Rightarrow> vdisk" where
  "submitted b write sector d =
     (let e = publish 0 ((format_request b write sector 0 1 2
            (d\<lparr>vd_free := (vd_free d)(0 := False, 1 := False, 2 := False)\<rparr>))\<lparr>vd_info_b := (vd_info_b d)(0 := Some b)\<rparr>)
      in e\<lparr>vd_regs := vd_regs e @ [(VIRTIO_MMIO_QUEUE_NOTIFY, 0)]\<rparr>)"

lemma submitted_pending: "vd_idle d \<Longrightarrow> pending_request (submitted b w sec d) 0 1 2 b w sec"
  by (simp add: submitted_def Let_def publish_def format_request_def pending_request_def vd_idle_def NUM_def)

definition moved :: "nat \<Rightarrow> bool \<Rightarrow> u64 \<Rightarrow> vdisk \<Rightarrow> buf \<Rightarrow> buf" where
  "moved b write sector d r = (if write then r else r\<lparr>b_data := vd_sectors d sector\<rparr>)"

lemma run_device_served:
  assumes "serves_requests (vdev s)" and "pending_request (vdisk s) i0 i1 i2 b w sec"
  shows "run_device s = Ret () (s\<lparr>bufs := (bufs s)(b := moved b w sec (vdisk s) (bufs s b)),
    vdisk := fst (served i0 b w sec (vdisk s) (\<lambda>i. b_data (bufs s i)))\<rparr>)"
proof -
  have v: "vdev s (vdisk s) (\<lambda>i. b_data (bufs s i)) = served i0 b w sec (vdisk s) (\<lambda>i. b_data (bufs s i))"
    using assms unfolding serves_requests_def by blast
  have "(\<lambda>i. (bufs s i)\<lparr>b_data := snd (served i0 b w sec (vdisk s) (\<lambda>i. b_data (bufs s i))) i\<rparr>) =
      (bufs s)(b := moved b w sec (vdisk s) (bufs s b))"
    by (auto simp: served_def moved_def fun_eq_iff)
  then show ?thesis by (simp add: run_device_def v case_prod_unfold Let_def)
qed

lemma await_disk_eq:
  assumes q: "quiet s" and dev: "serves_requests (vdev s)" and id: "vd_idle d"
    and d1: "vdisk s = submitted b w sec d" and busy: "b_disk (bufs s b)"
  shows "\<exists>e n r. await_disk b (acq Vdisk_lock s) = Ret () (acq Vdisk_lock
      (s\<lparr>bufs := (bufs s)(b := (moved b w sec d (bufs s b))\<lparr>b_disk := False\<rparr>),
         vdisk := (fst (served 0 b w sec (vdisk s) (\<lambda>i. b_data (bufs s i))))\<lparr>vd_used_idx := e, vd_nresp := n, vd_regs := r\<rparr>,
         procs := woken (Ch_buf b) (procs s)\<rparr>)) \<and>
    unat e = unat (vd_used_id d + 1) mod NUM"
proof -
  let ?d2 = "fst (served 0 b w sec (vdisk s) (\<lambda>i. b_data (bufs s i)))"
  let ?t = "s\<lparr>bufs := (bufs s)(b := moved b w sec (vdisk s) (bufs s b)), vdisk := ?d2\<rparr>"
  have run: "run_device s = Ret () ?t"
    by (rule run_device_served [OF dev]) (use submitted_pending [OF id] d1 in simp)
  let ?k = "unat (vd_used_id d) mod NUM"
  have f: "unat (vd_used_idx ?d2) = ?k" "vd_used ?d2 ?k = 0" "vd_info_status ?d2 0 = 0" "vd_info_b ?d2 0 = Some b"
      "vd_used_id ?d2 = vd_used_id d + 1" "?k < NUM"
    using id by (simp_all add: served_def d1 submitted_def Let_def publish_def format_request_def vd_idle_def NUM_def)
  have step: "unat (vd_used_id d + 1) mod NUM = (?k + 1) mod NUM"
    by (simp add: NUM_def unat_word_ariths mod_mod_cancel mod_simps)
  have u: "unat (vd_used_id ?d2) mod NUM = (?k + 1) mod NUM" using f(5) step by simp
  have "quiet ?t" using q by simp
  note one = intr_one [of ?t ?d2 ?k 0 b, OF this]
  obtain e n r where i: "virtio_disk_intr ?t = Ret () (?t\<lparr>bufs := (bufs ?t)(b := (bufs ?t b)\<lparr>b_disk := False\<rparr>),
        vdisk := ?d2\<lparr>vd_used_idx := e, vd_nresp := n, vd_regs := r\<rparr>, procs := woken (Ch_buf b) (procs ?t)\<rparr>)"
      "unat e = (?k + 1) mod NUM"
    using one f u by auto
  have mv: "moved b w sec (vdisk s) = moved b w sec d"
    by (rule ext) (simp add: moved_def d1 submitted_def Let_def publish_def format_request_def)
  have "await_disk b (acq Vdisk_lock s) = Ret () (acq Vdisk_lock
      (s\<lparr>bufs := (bufs s)(b := (moved b w sec d (bufs s b))\<lparr>b_disk := False\<rparr>),
         vdisk := ?d2\<lparr>vd_used_idx := e, vd_nresp := n, vd_regs := r\<rparr>, procs := woken (Ch_buf b) (procs s)\<rparr>))"
    using q busy i(1) by (simp add: await_disk_def lock_steps run mv)
  then show ?thesis using i(2) step by metis
qed

text \<open>A whole transfer: \<open>disk_moved\<close> relates the disk and the buffers before and after.\<close>

definition disk_moved :: "nat \<Rightarrow> bool \<Rightarrow> 'z virtio_scheme \<Rightarrow> vdisk \<Rightarrow> bool" where
  "disk_moved b write s d \<longleftrightarrow>
     (let sec = sector_of (b_blockno (bufs s b)); x = b_data (bufs s b) in
      vd_idle d \<and>
      vd_sectors d = (if write then (vd_sectors (vdisk s))(sec := x) else vd_sectors (vdisk s)) \<and>
      vd_trace d = (if write then vd_trace (vdisk s) @ [(sec, x)] else vd_trace (vdisk s)))"

definition buf_moved :: "nat \<Rightarrow> bool \<Rightarrow> 'z virtio_scheme \<Rightarrow> buf" where
  "buf_moved b write s =
     (moved b write (sector_of (b_blockno (bufs s b))) (vdisk s) (bufs s b))\<lparr>b_disk := False\<rparr>"

lemma submit_steps:
  "thenK (modK (upd_vd (format_request b w sec 0 1 2))) (
   thenK (modK (upd_buf b (\<lambda>r. r\<lparr>b_disk := True\<rparr>))) (
   thenK (modK (upd_vd (\<lambda>d. d\<lparr>vd_info_b := (vd_info_b d)(0 := Some b)\<rparr>))) (
   thenK (modK (upd_vd (publish 0))) (
   thenK (wr_mmio VIRTIO_MMIO_QUEUE_NOTIFY 0) K))))
     (acq Vdisk_lock (upd_vd (\<lambda>d. d\<lparr>vd_free := (vd_free d)(0 := False, 1 := False, 2 := False)\<rparr>) s)) =
   K (acq Vdisk_lock (s\<lparr>bufs := (bufs s)(b := (bufs s b)\<lparr>b_disk := True\<rparr>), vdisk := submitted b w sec (vdisk s)\<rparr>))"
  by (simp add: upd_vd_def upd_buf_def wr_mmio_def submitted_def Let_def publish_def format_request_def)

lemma virtio_disk_rw_spec:
  assumes q: "quiet s" and dev: "serves_requests (vdev s)" and id: "vd_idle (vdisk s)"
  shows "\<exists>d ps. virtio_disk_rw b w s =
      Ret () (s\<lparr>bufs := (bufs s)(b := buf_moved b w s), vdisk := d, procs := ps\<rparr>) \<and>
    disk_moved b w s d \<and> roused (procs s) ps"
proof -
  define sec where "sec = sector_of (b_blockno (bufs s b))"
  have sec2: "ucast (b_blockno (bufs s b) * of_nat (BSIZE div 512)) = sec" by (simp add: sec_def sector_of_def BSIZE_def)
  let ?d1 = "submitted b w sec (vdisk s)"
  let ?s1 = "s\<lparr>bufs := (bufs s)(b := (bufs s b)\<lparr>b_disk := True\<rparr>), vdisk := ?d1\<rparr>"
  define d2 where "d2 = fst (served 0 b w sec ?d1 (\<lambda>i. b_data (bufs ?s1 i)))"
  have a3: "alloc3_desc (acq Vdisk_lock s) = Ret (Some (0, 1, 2))
      (acq Vdisk_lock (upd_vd (\<lambda>d. d\<lparr>vd_free := (vd_free d)(0 := False, 1 := False, 2 := False)\<rparr>) s))"
    using alloc3_idle [of "acq Vdisk_lock s"] id by (simp add: vd_idle_def upd_vd_def)
  obtain e n r where aw: "await_disk b (acq Vdisk_lock ?s1) = Ret () (acq Vdisk_lock
      (?s1\<lparr>bufs := (bufs ?s1)(b := (moved b w sec (vdisk s) (bufs ?s1 b))\<lparr>b_disk := False\<rparr>),
         vdisk := d2\<lparr>vd_used_idx := e, vd_nresp := n, vd_regs := r\<rparr>, procs := woken (Ch_buf b) (procs s)\<rparr>))"
      "unat e = unat (vd_used_id (vdisk s) + 1) mod NUM"
    using await_disk_eq [of ?s1 "vdisk s" b w sec] q dev id unfolding d2_def by auto
  define d3 where "d3 = d2\<lparr>vd_used_idx := e, vd_nresp := n, vd_regs := r, vd_info_b := (vd_info_b d2)(0 := None)\<rparr>"
  let ?s3 = "s\<lparr>bufs := (bufs s)(b := buf_moved b w s), vdisk := d3, procs := woken (Ch_buf b) (procs s)\<rparr>"
  have f3: "vd_free d3 = (vd_free (vdisk s))(0 := False, 1 := False, 2 := False)"
      "vd_desc d3 = vd_desc ?d1" "vd_used_id d3 = vd_used_id (vdisk s) + 1" "vd_avail_idx d3 = vd_seen d3"
      "vd_used_idx d3 = e"
      "vd_sectors d3 = (if w then (vd_sectors (vdisk s))(sec := b_data (bufs s b)) else vd_sectors (vdisk s))"
      "vd_trace d3 = (if w then vd_trace (vdisk s) @ [(sec, b_data (bufs s b))] else vd_trace (vdisk s))"
    using id by (simp_all add: d3_def d2_def served_def submitted_def Let_def publish_def format_request_def vd_idle_def)
  have ds: "vd_desc ?d1 0 = \<lparr>d_addr = Outhdr (if w then VIRTIO_BLK_T_OUT else VIRTIO_BLK_T_IN) sec,
        d_len = 16, d_flags = VRING_DESC_F_NEXT, d_next = 1\<rparr>"
      "d_flags (vd_desc ?d1 1) AND VRING_DESC_F_NEXT \<noteq> 0" "d_next (vd_desc ?d1 1) = 2"
      "d_flags (vd_desc ?d1 2) = VRING_DESC_F_WRITE"
    by (simp_all add: submitted_def Let_def publish_def format_request_def VRING_DESC_F_NEXT_def VRING_DESC_F_WRITE_def)
  obtain D ps where fc: "free_chain 0 (acq Vdisk_lock ?s3) = Ret () (acq Vdisk_lock
      (?s3\<lparr>vdisk := d3\<lparr>vd_desc := D, vd_free := (vd_free d3)(0 := True, 1 := True, 2 := True)\<rparr>, procs := ps\<rparr>))"
      "roused (woken (Ch_buf b) (procs s)) ps"
    using free_chain_3 [of ?s3 d3] q f3 ds by auto
  let ?d = "d3\<lparr>vd_desc := D, vd_free := (vd_free d3)(0 := True, 1 := True, 2 := True)\<rparr>"
  have bm: "(moved b w sec (vdisk s) ((bufs s b)\<lparr>b_disk := True\<rparr>))\<lparr>b_disk := False\<rparr> = buf_moved b w s"
    by (simp add: buf_moved_def moved_def sec_def)
  have "virtio_disk_rw b w s = thenK (await_disk b) (
      thenK (modK (upd_vd (\<lambda>d. d\<lparr>vd_info_b := (vd_info_b d)(0 := None)\<rparr>))) (
      thenK (free_chain 0) (release Vdisk_lock))) (acq Vdisk_lock ?s1)"
    unfolding virtio_disk_rw_def virtio_disk_rw_locked_def
    by (simp only: bindK_getK sec2 thenK_Ret [where m = "acquire Vdisk_lock", OF acquire_free [OF quietD(2) [OF q]]]
        bindK_Ret [where m = alloc3_desc, OF a3] option.case prod.case submit_steps)
  also have "\<dots> = Ret () (s\<lparr>bufs := (bufs s)(b := buf_moved b w s), vdisk := ?d, procs := ps\<rparr>)"
    using q aw(1) fc(1) by (simp add: bm upd_vd_def d3_def [symmetric] lock_steps)
  finally have "virtio_disk_rw b w s = Ret () (s\<lparr>bufs := (bufs s)(b := buf_moved b w s), vdisk := ?d, procs := ps\<rparr>)" .
  moreover have "disk_moved b w s ?d"
    using id f3 aw(2) by (simp add: disk_moved_def Let_def sec_def [symmetric] vd_idle_def)
  moreover have "roused (procs s) ps" using fc(2) roused_trans roused_woken by blast
  ultimately show ?thesis by blast
qed

section \<open>Descriptors as an allocator\<close>

lemma searchK_first:
  assumes "\<And>i. i \<in> set xs \<Longrightarrow> \<not> P i \<Longrightarrow> f i s = Ret None s"
    and "\<And>i. i \<in> set xs \<Longrightarrow> P i \<Longrightarrow> f i s = Ret (Some (g i)) (h i)"
  shows "searchK f xs s = (case find P xs of None \<Rightarrow> Ret None s | Some i \<Rightarrow> Ret (Some (g i)) (h i))"
  using assms by (induction xs) auto

definition desc_taken :: "nat \<Rightarrow> 'z virtio_scheme \<Rightarrow> 'z virtio_scheme" where
  "desc_taken i = upd_vd (\<lambda>d. d\<lparr>vd_free := (vd_free d)(i := False)\<rparr>)"

lemma alloc_desc_eq:
  "alloc_desc s = (case find (vd_free (vdisk s)) [0..<NUM] of
     None \<Rightarrow> Ret None s | Some i \<Rightarrow> Ret (Some i) (desc_taken i s))"
  unfolding alloc_desc_def
  using searchK_first [of "[0..<NUM]" "vd_free (vdisk s)" try_desc s "\<lambda>i. i" "\<lambda>i. desc_taken i s"]
  by (simp add: try_desc_taken try_desc_free desc_taken_def)

definition free_descs :: "'z virtio_scheme \<Rightarrow> nat set" where
  "free_descs s = {i. i < NUM \<and> vd_free (vdisk s) i}"

lemma alloc_desc_cases:
  "(alloc_desc s = Ret None s \<and> free_descs s = {}) \<or>
   (\<exists>i. alloc_desc s = Ret (Some i) (desc_taken i s) \<and> i \<in> free_descs s \<and>
      free_descs (desc_taken i s) = free_descs s - {i})"
proof (cases "find (vd_free (vdisk s)) [0..<NUM]")
  case None
  then have "free_descs s = {}" by (auto simp: free_descs_def find_None_iff)
  then show ?thesis using None by (simp add: alloc_desc_eq)
next
  case (Some i)
  then have "i < NUM" "vd_free (vdisk s) i" by (auto simp: find_Some_iff)
  then show ?thesis using Some
    by (auto simp: alloc_desc_eq free_descs_def desc_taken_def upd_vd_def)
qed

definition desc_freed :: "nat \<Rightarrow> 'z virtio_scheme \<Rightarrow> 'z virtio_scheme" where
  "desc_freed i s = s\<lparr>vdisk := (vdisk s)\<lparr>vd_desc := (vd_desc (vdisk s))(i := (vd_desc (vdisk s) i)\<lparr>d_addr := Null\<rparr>),
     vd_free := (vd_free (vdisk s))(i := True)\<rparr>, procs := woken Ch_disk_free (procs s)\<rparr>"

lemma free_desc_cases:
  assumes "cpu_ok s" and "proc_locks_free s"
  shows "free_desc i s =
    (if i \<ge> NUM then Panic ''virtio_disk_intr 1''
     else if vd_free (vdisk s) i then Panic ''virtio_disk_intr 2'' else Ret () (desc_freed i s))"
  using assms by (simp add: free_desc_def desc_freed_def upd_vd_def wakeup_woken)

lemma desc_freed_simps [simp]:
  "cpu_ok (desc_freed i s) = cpu_ok s" "proc_locks_free (desc_freed i s) = proc_locks_free s"
  "i < NUM \<Longrightarrow> free_descs (desc_freed i s) = insert i (free_descs s)"
  "vd_free (vdisk (desc_freed i s)) = (vd_free (vdisk s))(i := True)"
  by (auto simp: desc_freed_def free_descs_def proc_locks_free_def)

lemma desc_taken_simps [simp]:
  "cpu_ok (desc_taken i s) = cpu_ok s" "proc_locks_free (desc_taken i s) = proc_locks_free s"
  "vd_free (vdisk (desc_taken i s)) = (vd_free (vdisk s))(i := False)"
  by (simp_all add: desc_taken_def upd_vd_def)

definition driver_alloc :: "virtio \<Rightarrow> (nat option \<times> virtio) option" where
  "driver_alloc s = (case alloc_desc s of Ret r t \<Rightarrow> Some (r, t) | _ \<Rightarrow> None)"

definition driver_free :: "nat \<Rightarrow> virtio \<Rightarrow> virtio option" where
  "driver_free i s = (case free_desc i s of Ret _ t \<Rightarrow> Some t | _ \<Rightarrow> None)"

definition driver_inv :: "virtio \<Rightarrow> bool" where
  "driver_inv s \<longleftrightarrow> cpu_ok s \<and> proc_locks_free s"

interpretation descs: allocator driver_alloc driver_free free_descs driver_inv
proof
  fix s t :: virtio and a
  assume inv: "driver_inv s"
  note cs = alloc_desc_cases [of s]
  {
    assume al: "driver_alloc s = Some (Some a, t)"
    have "alloc_desc s = Ret (Some a) (desc_taken a s) \<and> t = desc_taken a s \<and> a \<in> free_descs s \<and>
        free_descs (desc_taken a s) = free_descs s - {a}"
      using cs by (rule disjE) (use al in \<open>force simp: driver_alloc_def\<close>)+
    then show "a \<in> free_descs s \<and> free_descs t = free_descs s - {a} \<and> driver_inv t"
      using inv by (simp add: driver_inv_def)
  next
    assume al: "driver_alloc s = Some (None, t)"
    have "t = s \<and> free_descs s = {}"
      using cs by (rule disjE) (use al in \<open>force simp: driver_alloc_def\<close>)+
    then show "free_descs s = {} \<and> free_descs t = {} \<and> driver_inv t" using inv by simp
  next
    assume "a \<notin> free_descs s" and f: "driver_free a s = Some t"
    have ok: "cpu_ok s" "proc_locks_free s" using inv by (simp_all add: driver_inv_def)
    have "a < NUM \<and> t = desc_freed a s"
      using f unfolding driver_free_def free_desc_cases [OF ok] by (simp split: if_splits)
    then show "free_descs t = insert a (free_descs s) \<and> driver_inv t" using inv by (simp add: driver_inv_def)
  }
qed

section \<open>Properties\<close>


definition demo_device :: vdevice where
  "demo_device d data =
     (let i0 = unat (vd_avail d (unat (vd_seen d) mod NUM)) in
      case d_addr (vd_desc d i0) of
        Outhdr ty sec \<Rightarrow>
          (case d_addr (vd_desc d (unat (d_next (vd_desc d i0)))) of
             Bufdata b \<Rightarrow> served i0 b (ty = VIRTIO_BLK_T_OUT) sec d data
           | _ \<Rightarrow> (d, data))
      | _ \<Rightarrow> (d, data))"

lemma demo_device_serves: "serves_requests demo_device"
proof -
  have "demo_device d data = served i0 b w sec d data" if "pending_request d i0 i1 i2 b w sec" for d data i0 i1 i2 b w sec
  proof -
    have "unat (of_nat i0 :: u16) = i0" "unat (of_nat i1 :: u16) = i1"
      using that by (simp_all add: pending_request_def NUM_def unat_of_nat)
    then show ?thesis using that
      by (auto simp: demo_device_def pending_request_def Let_def VIRTIO_BLK_T_OUT_def VIRTIO_BLK_T_IN_def)
  qed
  then show ?thesis by (simp add: serves_requests_def)
qed

definition boot_vdisk :: "(u64 \<Rightarrow> block) \<Rightarrow> vdisk" where
  "boot_vdisk sectors = \<lparr>vd_desc = (\<lambda>_. zero_desc), vd_avail_idx = 0, vd_avail = (\<lambda>_. 0), vd_used_id = 0, vd_used = (\<lambda>_. 0),
     vd_free = (\<lambda>i. i < NUM), vd_used_idx = 0, vd_info_b = (\<lambda>_. None), vd_info_status = (\<lambda>_. 0), vd_seen = 0,
     vd_sectors = sectors, vd_trace = [], vd_pages = 0x80020000, vd_resp = (\<lambda>_. 0), vd_nresp = 0, vd_regs = []\<rparr>"

definition boot_console :: "ram \<Rightarrow> u64 \<Rightarrow> u64 \<Rightarrow> console" where
  "boot_console m f e =
     kprint.extend (uart.extend (image.extend (vm.extend (kmem.extend (boot_kmem m f e)
       (vm.fields 0 (\<lambda>_. 0) 0 0)) (image.fields 0 0 0 0 0)) (uart.fields [] [] (\<lambda>_. 0) 0 0 False))
       (kprint.fields False)) (console.fields (\<lambda>_. 0) 0 0 0)"

definition boot_virtio :: "(u64 \<Rightarrow> block) \<Rightarrow> (nat \<Rightarrow> buf) \<Rightarrow> virtio" where
  "boot_virtio sectors bs =
     console.extend (boot_console (\<lambda>_. 0) 0 0x80021000) (virtio.fields (boot_vdisk sectors) bs demo_device)"

lemma boot_virtio_simps [simp]:
  "bufs (boot_virtio x bs) = bs"
  "vdisk (boot_virtio x bs) = boot_vdisk x"
  "vdev (boot_virtio x bs) = demo_device"
  "quiet (boot_virtio x bs)"
  by (simp_all add: boot_virtio_def boot_console_def boot_kmem_def boot_sleeplocks_def sleeplocks.defs kmem.defs vm.defs
      image.defs uart.defs kprint.defs console.defs virtio.defs quiet_def cpu_ok_def lock_free_def
      intr_enabled_def cid_def SSTATUS_SIE_def)

definition blank_buf :: buf where
  "blank_buf = \<lparr>b_valid = False, b_disk = False, b_dev = 0, b_blockno = 0, b_refcnt = 0, b_prev = 0, b_next = 0,
     b_data = (\<lambda>_. 0)\<rparr>"

lemma boot_vdisk_idle: "vd_idle (boot_vdisk x)"
  by (simp add: vd_idle_def boot_vdisk_def)


text \<open>
  C15: \<open>alloc3_desc\<close> is all or nothing. It fails exactly when fewer than three descriptors are free,
  and then every descriptor that was free is free again; when it succeeds it gives three different
  descriptors that were free and takes exactly these.
\<close>

theorem alloc3_desc_all_or_nothing:
  fixes s :: "'z virtio_scheme"
  assumes "cpu_ok s" and "proc_locks_free s"
  shows "\<exists>r t. alloc3_desc s = Ret r t \<and>
    (case r of
       None \<Rightarrow> card (free_descs s) < 3 \<and> free_descs t = free_descs s
     | Some (i, j, k) \<Rightarrow> distinct [i, j, k] \<and> {i, j, k} \<subseteq> free_descs s \<and> free_descs t = free_descs s - {i, j, k})"
proof -
  note fd = free_desc_cases
  consider "alloc_desc s = Ret None s" "free_descs s = {}"
    | i where "alloc_desc s = Ret (Some i) (desc_taken i s)" "i \<in> free_descs s"
        "free_descs (desc_taken i s) = free_descs s - {i}"
    using alloc_desc_cases [of s] by blast
  then show ?thesis
  proof cases
    case 1
    then show ?thesis by (simp add: alloc3_desc_def)
  next
    case one: (2 i)
    let ?s1 = "desc_taken i s"
    have i: "i < NUM" using one(2) by (simp add: free_descs_def)
    consider "alloc_desc ?s1 = Ret None ?s1" "free_descs ?s1 = {}"
      | j where "alloc_desc ?s1 = Ret (Some j) (desc_taken j ?s1)" "j \<in> free_descs ?s1"
          "free_descs (desc_taken j ?s1) = free_descs ?s1 - {j}"
      using alloc_desc_cases [of ?s1] by blast
    then show ?thesis
    proof cases
      case 1
      have "free_descs s = {i}" using one 1(2) by blast
      then show ?thesis using one 1 assms i by (simp add: alloc3_desc_def fd)
    next
      case two: (2 j)
      let ?s2 = "desc_taken j ?s1"
      have j: "j < NUM" "j \<noteq> i" "j \<in> free_descs s" using two(2) one(3) by (auto simp: free_descs_def)
      consider "alloc_desc ?s2 = Ret None ?s2" "free_descs ?s2 = {}"
        | k where "alloc_desc ?s2 = Ret (Some k) (desc_taken k ?s2)" "k \<in> free_descs ?s2"
            "free_descs (desc_taken k ?s2) = free_descs ?s2 - {k}"
        using alloc_desc_cases [of ?s2] by blast
      then show ?thesis
      proof cases
        case 1
        have "free_descs s = {i, j}" using one two 1(2) j by blast
        then show ?thesis using one two 1 assms i j by (auto simp: alloc3_desc_def fd)
      next
        case (2 k)
        then show ?thesis using one two j by (auto simp: alloc3_desc_def)
      qed
    qed
  qed
qed

theorem alloc3_desc_all_or_nothing_witness:
  "\<exists>r t. alloc3_desc (boot_virtio (\<lambda>_ _. 0) (\<lambda>_. blank_buf)) = Ret r t \<and> r \<noteq> None \<and> card (free_descs t) = 5"
proof -
  let ?s = "boot_virtio (\<lambda>_ _. 0) (\<lambda>_. blank_buf)"
  have fs: "free_descs ?s = {0..<8}" by (auto simp: free_descs_def boot_vdisk_def NUM_def)
  obtain r t where r: "alloc3_desc ?s = Ret r t" "case r of
       None \<Rightarrow> card (free_descs ?s) < 3 \<and> free_descs t = free_descs ?s
     | Some (i, j, k) \<Rightarrow> distinct [i, j, k] \<and> {i, j, k} \<subseteq> free_descs ?s \<and> free_descs t = free_descs ?s - {i, j, k}"
    using alloc3_desc_all_or_nothing [of ?s] by auto
  then have "r \<noteq> None" using fs by (cases r) simp_all
  then obtain i j k where "distinct [i, j, k]" "{i, j, k} \<subseteq> {0..<8}" "free_descs t = {0..<8} - {i, j, k}"
    using r(2) fs by (cases r) auto
  then have "card (free_descs t) = 5" by (simp add: card_Diff_subset)
  then show ?thesis using r(1) \<open>r \<noteq> None\<close> by blast
qed

end
