(* ===== verification/Bio.thy ===== *)
theory Bio
  imports Virtio
begin

text \<open>
  The buffer cache \<^verbatim>\<open>kernel/bio.c\<close>. Buffers are numbered as in \<^verbatim>\<open>bcache.buf\<close>, and \<open>bhead\<close> is the number of
  \<^verbatim>\<open>bcache.head\<close>, so the doubly linked list of the cache is made of the \<open>b_prev\<close> and \<open>b_next\<close> fields. A loop
  over the list visits each of the \<open>NBUF\<close> buffers at most once, which bounds its rounds. The second half has the invariant
  of the cache (\<open>bcache\<close>): the list is a circle through all buffers, no block is cached twice, and the reference counts,
  the held buffers, the cached contents and the disk are given by its arguments; each operation is shown to change
  exactly one of them.
\<close>

section \<open>Definitions\<close>

definition NBUF :: nat where
  "NBUF = 30"

definition bhead :: nat where
  "bhead = NBUF"

definition set_next :: "nat \<Rightarrow> nat \<Rightarrow> (unit, 'z virtio_scheme) kop" where
  "set_next i j = modK (upd_buf i (\<lambda>r. r\<lparr>b_next := j\<rparr>))"

definition set_prev :: "nat \<Rightarrow> nat \<Rightarrow> (unit, 'z virtio_scheme) kop" where
  "set_prev i j = modK (upd_buf i (\<lambda>r. r\<lparr>b_prev := j\<rparr>))"

definition bnext :: "nat \<Rightarrow> (nat, 'z virtio_scheme) kop" where
  "bnext i = getK (\<lambda>s. b_next (bufs s i))"

definition bprev :: "nat \<Rightarrow> (nat, 'z virtio_scheme) kop" where
  "bprev i = getK (\<lambda>s. b_prev (bufs s i))"

text \<open>The four assignments that put a buffer at the front of the list.\<close>

definition push_front :: "nat \<Rightarrow> (unit, 'z virtio_scheme) kop" where
  "push_front b =
     bindK (bnext bhead) (\<lambda>h.
     thenK (set_next b h) (
     thenK (set_prev b bhead) (
     bindK (bnext bhead) (\<lambda>h.
     thenK (set_prev h b)
           (set_next bhead b)))))"

definition binit :: "(unit, 'z virtio_scheme) kop" where
  "binit =
     thenK (initlock Bcache_lock ''bcache'') (
     thenK (set_prev bhead bhead) (
     thenK (set_next bhead bhead) (
     eachK (\<lambda>b.
       bindK (bnext bhead) (\<lambda>h.
       thenK (set_next b h) (
       thenK (set_prev b bhead) (
       thenK (initsleeplock (BufLock b) ''buffer'') (
       bindK (bnext bhead) (\<lambda>h.
       thenK (set_prev h b)
             (set_next bhead b))))))) [0..<NBUF])))"

text \<open>The search for a cached block, from the front, and for an unused buffer, from the back.\<close>

primrec bget_cached :: "nat \<Rightarrow> nat \<Rightarrow> u32 \<Rightarrow> u32 \<Rightarrow> (nat option, 'z virtio_scheme) kop" where
  "bget_cached 0 b dev blockno = divergeK"
| "bget_cached (Suc k) b dev blockno =
     (if b = bhead then retK None
      else bindK (getK (\<lambda>s. bufs s b)) (\<lambda>r.
           if b_dev r = dev \<and> b_blockno r = blockno then retK (Some b)
           else bget_cached k (b_next r) dev blockno))"

primrec bget_unused :: "nat \<Rightarrow> nat \<Rightarrow> (nat option, 'z virtio_scheme) kop" where
  "bget_unused 0 b = divergeK"
| "bget_unused (Suc k) b =
     (if b = bhead then retK None
      else bindK (getK (\<lambda>s. bufs s b)) (\<lambda>r.
           if b_refcnt r = 0 then retK (Some b)
           else bget_unused k (b_prev r)))"

definition bget :: "u32 \<Rightarrow> u32 \<Rightarrow> (nat, 'z virtio_scheme) kop" where
  "bget dev blockno =
     thenK (acquire Bcache_lock) (
     bindK (bnext bhead) (\<lambda>first.
     bindK (bget_cached (NBUF + 1) first dev blockno) (\<lambda>hit.
     case hit of
       Some b \<Rightarrow>
         thenK (modK (upd_buf b (\<lambda>r. r\<lparr>b_refcnt := b_refcnt r + 1\<rparr>))) (
         thenK (release Bcache_lock) (
         thenK (acquiresleep (BufLock b))
               (retK b)))
     | None \<Rightarrow>
         bindK (bprev bhead) (\<lambda>oldest.
         bindK (bget_unused (NBUF + 1) oldest) (\<lambda>r.
         case r of
           None \<Rightarrow> panicK ''bget: no buffers''
         | Some b \<Rightarrow>
             thenK (modK (upd_buf b (\<lambda>r. r\<lparr>b_dev := dev, b_blockno := blockno, b_valid := False, b_refcnt := 1\<rparr>))) (
             thenK (release Bcache_lock) (
             thenK (acquiresleep (BufLock b))
                   (retK b))))))))"

definition bread :: "u32 \<Rightarrow> u32 \<Rightarrow> (nat, 'z virtio_scheme) kop" where
  "bread dev blockno =
     bindK (bget dev blockno) (\<lambda>b.
     bindK (getK (\<lambda>s. b_valid (bufs s b))) (\<lambda>valid.
     thenK (whenK (\<not> valid)
              (thenK (virtio_disk_rw b False)
                     (modK (upd_buf b (\<lambda>r. r\<lparr>b_valid := True\<rparr>)))))
           (retK b)))"

definition bwrite :: "nat \<Rightarrow> (unit, 'z virtio_scheme) kop" where
  "bwrite b =
     bindK (holdingsleep (BufLock b)) (\<lambda>h.
     if \<not> h then panicK ''bwrite'' else virtio_disk_rw b True)"

definition brelse :: "nat \<Rightarrow> (unit, 'z virtio_scheme) kop" where
  "brelse b =
     bindK (holdingsleep (BufLock b)) (\<lambda>h.
     if \<not> h then panicK ''brelse''
     else thenK (releasesleep (BufLock b)) (
          thenK (acquire Bcache_lock) (
          thenK (modK (upd_buf b (\<lambda>r. r\<lparr>b_refcnt := b_refcnt r - 1\<rparr>))) (
          bindK (getK (\<lambda>s. b_refcnt (bufs s b) = 0)) (\<lambda>unused.
          thenK (whenK unused
                   (bindK (bnext b) (\<lambda>n.
                    bindK (bprev b) (\<lambda>p.
                    thenK (set_prev n p) (
                    thenK (bindK (bprev b) (\<lambda>p. bindK (bnext b) (\<lambda>n. set_next p n)))
                          (push_front b))))))
                (release Bcache_lock))))))"

definition bpin :: "nat \<Rightarrow> (unit, 'z virtio_scheme) kop" where
  "bpin b =
     thenK (acquire Bcache_lock) (
     thenK (modK (upd_buf b (\<lambda>r. r\<lparr>b_refcnt := b_refcnt r + 1\<rparr>)))
           (release Bcache_lock))"

definition bunpin :: "nat \<Rightarrow> (unit, 'z virtio_scheme) kop" where
  "bunpin b =
     thenK (acquire Bcache_lock) (
     thenK (modK (upd_buf b (\<lambda>r. r\<lparr>b_refcnt := b_refcnt r - 1\<rparr>)))
           (release Bcache_lock))"

definition bdata :: "nat \<Rightarrow> (block, 'z virtio_scheme) kop" where
  "bdata b = getK (\<lambda>s. b_data (bufs s b))"

definition set_bdata :: "nat \<Rightarrow> block \<Rightarrow> (unit, 'z virtio_scheme) kop" where
  "set_bdata b x = modK (upd_buf b (\<lambda>r. r\<lparr>b_data := x\<rparr>))"

section \<open>The linked list of buffers\<close>

definition setn :: "nat \<Rightarrow> nat \<Rightarrow> (nat \<Rightarrow> buf) \<Rightarrow> nat \<Rightarrow> buf" where
  "setn i j bs = bs(i := (bs i)\<lparr>b_next := j\<rparr>)"

definition setp :: "nat \<Rightarrow> nat \<Rightarrow> (nat \<Rightarrow> buf) \<Rightarrow> nat \<Rightarrow> buf" where
  "setp i j bs = bs(i := (bs i)\<lparr>b_prev := j\<rparr>)"

lemma links [simp]:
  "b_next (setn i j bs k) = (if k = i then j else b_next (bs k))" "b_prev (setn i j bs k) = b_prev (bs k)"
  "b_prev (setp i j bs k) = (if k = i then j else b_prev (bs k))" "b_next (setp i j bs k) = b_next (bs k)"
  by (simp_all add: setn_def setp_def)

text \<open>Two nodes that follow each other, and a chain of nodes.\<close>

definition follows :: "(nat \<Rightarrow> buf) \<Rightarrow> nat \<Rightarrow> nat \<Rightarrow> bool" where
  "follows bs x y \<longleftrightarrow> b_next (bs x) = y \<and> b_prev (bs y) = x"

abbreviation chain :: "(nat \<Rightarrow> buf) \<Rightarrow> nat list \<Rightarrow> bool" where
  "chain bs l \<equiv> successively (follows bs) l"

lemma chain_frame:
  "chain bs l \<Longrightarrow> \<forall>x \<in> set (butlast l). b_next (bs' x) = b_next (bs x) \<Longrightarrow>
   \<forall>y \<in> set (tl l). b_prev (bs' y) = b_prev (bs y) \<Longrightarrow> chain bs' l"
proof (induction l)
  case (Cons x l)
  then show ?case by (cases l) (auto simp: follows_def)
qed simp

definition linked :: "(nat \<Rightarrow> buf) \<Rightarrow> nat list \<Rightarrow> bool" where
  "linked bs xs \<longleftrightarrow> chain bs (bhead # xs @ [bhead]) \<and> distinct xs \<and> set xs = {..<NBUF}"

lemma bhead_notin: "linked bs xs \<Longrightarrow> bhead \<notin> set xs"
  by (simp add: linked_def bhead_def)

text \<open>The pointer assignments of \<open>brelse\<close> for a buffer that became unused.\<close>

definition unlinked :: "nat \<Rightarrow> (nat \<Rightarrow> buf) \<Rightarrow> nat \<Rightarrow> buf" where
  "unlinked b bs = (let bs1 = setp (b_next (bs b)) (b_prev (bs b)) bs in setn (b_prev (bs1 b)) (b_next (bs1 b)) bs1)"

definition fronted :: "nat \<Rightarrow> (nat \<Rightarrow> buf) \<Rightarrow> nat \<Rightarrow> buf" where
  "fronted b bs =
     (let bs2 = setp b bhead (setn b (b_next (bs bhead)) bs) in setn bhead b (setp (b_next (bs2 bhead)) b bs2))"

lemma unlinked_chain:
  assumes c: "chain bs (h # as @ b # cs @ [h])" and d: "distinct (h # as @ b # cs)"
  shows "chain (unlinked b bs) (h # as @ cs @ [h])"
proof -
  let ?p = "last (h # as)" and ?n = "hd (cs @ [h])"
  have c1: "chain bs (h # as)" and c2: "chain bs (cs @ [h])" and f: "follows bs ?p b" "follows bs b ?n"
    using c successively_append_iff [of "follows bs" "h # as" "b # cs @ [h]"]
    by (auto simp: successively_Cons)
  have p: "b_prev (bs b) = ?p" "b_next (bs b) = ?n" using f by (simp_all add: follows_def)
  have pn: "?n \<noteq> b" "?p \<noteq> b" using d by (cases cs; auto)+
  have u: "unlinked b bs = setn ?p ?n (setp ?n ?p bs)" using pn by (simp add: unlinked_def Let_def p)
  have pl: "?p \<notin> set (butlast (h # as))"
  proof -
    have "distinct (butlast (h # as) @ [?p])" using d by (metis append_butlast_last_id distinct_append list.distinct(1) append_Cons)
    then show ?thesis by simp
  qed
  have pc: "?p \<notin> set cs" using d by (cases as rule: rev_cases) auto
  have na: "?n \<notin> set as" using d by (cases cs) auto
  have nt: "?n \<notin> set (tl (cs @ [h]))" using d by (cases cs) auto
  have "chain (unlinked b bs) (h # as)"
    by (rule chain_frame [OF c1]) (use pl na in \<open>auto simp: u\<close>)
  moreover have "chain (unlinked b bs) (cs @ [h])"
    by (rule chain_frame [OF c2]) (use pc nt in \<open>auto simp: u butlast_append\<close>)
  moreover have "follows (unlinked b bs) ?p ?n" by (simp add: u follows_def)
  ultimately show ?thesis
    using successively_append_iff [of "follows (unlinked b bs)" "h # as" "cs @ [h]"] by simp
qed

lemma fronted_chain:
  assumes c: "chain bs (bhead # ys @ [bhead])" and d: "distinct (bhead # b # ys)"
  shows "chain (fronted b bs) (bhead # b # ys @ [bhead])"
proof -
  let ?n = "hd (ys @ [bhead])"
  have c1: "chain bs (ys @ [bhead])" and n: "b_next (bs bhead) = ?n"
    using c by (auto simp: successively_Cons follows_def)
  have u: "fronted b bs = setn bhead b (setp ?n b (setp b bhead (setn b ?n bs)))"
    using d by (simp add: fronted_def Let_def n)
  have nb: "?n \<noteq> b" using d by (cases ys) auto
  have "chain (fronted b bs) (ys @ [bhead])"
    by (rule chain_frame [OF c1]) (use d in \<open>cases ys; auto simp: u butlast_append\<close>)+
  moreover have "follows (fronted b bs) bhead b" "follows (fronted b bs) b ?n"
    using d nb by (auto simp: u follows_def)
  ultimately show ?thesis by (simp add: successively_Cons)
qed

lemma relinked:
  assumes l: "linked bs xs" and b: "b < NBUF"
  shows "linked (fronted b (unlinked b bs)) (b # remove1 b xs)"
proof -
  obtain as cs where xs: "xs = as @ b # cs" "b \<notin> set as"
    using l b split_list_first [of b xs] by (auto simp: linked_def)
  have d: "distinct (bhead # as @ b # cs)" using l bhead_notin [OF l] by (simp add: linked_def xs)
  have "chain (unlinked b bs) (bhead # as @ cs @ [bhead])"
    by (rule unlinked_chain [OF _ d]) (use l in \<open>simp add: linked_def xs\<close>)
  then have "chain (fronted b (unlinked b bs)) (bhead # b # (as @ cs) @ [bhead])"
    using fronted_chain [of "unlinked b bs" "as @ cs" b] d by simp
  moreover have "remove1 b xs = as @ cs" using xs by (simp add: remove1_append)
  moreover have "set (b # as @ cs) = set xs" "distinct (b # as @ cs)" using d xs by auto
  ultimately show ?thesis using l by (simp add: linked_def)
qed

section \<open>Searching\<close>

lemma bget_cached_eq:
  assumes "chain (bufs s) (ys @ [bhead])" and "bhead \<notin> set ys" and "length ys < k"
  shows "bget_cached k (hd (ys @ [bhead])) dev bn s =
    Ret (find (\<lambda>b. b_dev (bufs s b) = dev \<and> b_blockno (bufs s b) = bn) ys) s"
  using assms
proof (induction ys arbitrary: k)
  case Nil
  then obtain j where "k = Suc j" by (cases k) auto
  then show ?case by simp
next
  case (Cons y ys)
  then obtain j where k: "k = Suc j" by (cases k) auto
  have "b_next (bufs s y) = hd (ys @ [bhead])" "chain (bufs s) (ys @ [bhead])"
    using Cons.prems(1) by (auto simp: successively_Cons follows_def)
  then show ?case using Cons k by auto
qed

lemma bget_unused_eq:
  assumes "chain (bufs s) (bhead # ys)" and "bhead \<notin> set ys" and "length ys < k"
  shows "bget_unused k (last (bhead # ys)) s = Ret (find (\<lambda>b. b_refcnt (bufs s b) = 0) (rev ys)) s"
  using assms
proof (induction ys arbitrary: k rule: rev_induct)
  case Nil
  then obtain j where "k = Suc j" by (cases k) auto
  then show ?case by simp
next
  case (snoc y ys)
  then obtain j where k: "k = Suc j" by (cases k) auto
  have "chain (bufs s) ((bhead # ys) @ [y])" using snoc.prems(1) by simp
  then have "b_prev (bufs s y) = last (bhead # ys)" "chain (bufs s) (bhead # ys)"
    unfolding successively_append_iff by (auto simp: follows_def)
  then show ?case using snoc k by (auto simp: last_append)
qed

section \<open>Single operations\<close>

text \<open>Process \<open>p\<close> runs alone in the kernel, and no disk request is in flight.\<close>

definition bio_env :: "nat \<Rightarrow> 'z virtio_scheme \<Rightarrow> bool" where
  "bio_env p s \<longleftrightarrow> quiet s \<and> current p s \<and> serves_requests (vdev s) \<and> vd_idle (vdisk s)"

definition lock_buf :: "nat \<Rightarrow> nat \<Rightarrow> 'z virtio_scheme \<Rightarrow> 'z virtio_scheme" where
  "lock_buf p b s = s\<lparr>slocks := (slocks s)(BufLock b := (slocks s (BufLock b))\<lparr>sl_locked := 1, sl_pid := p_pid (procs s p)\<rparr>)\<rparr>"

definition matches :: "u32 \<Rightarrow> u32 \<Rightarrow> buf \<Rightarrow> bool" where
  "matches dev bn r \<longleftrightarrow> b_dev r = dev \<and> b_blockno r = bn"

lemma bget_hit:
  assumes e: "bio_env p s" and l: "linked (bufs s) xs"
    and f: "find (\<lambda>b. matches dev bn (bufs s b)) xs = Some b" and u: "sl_locked (slocks s (BufLock b)) = 0"
  shows "bget dev bn s = Ret b (lock_buf p b (s\<lparr>bufs := (bufs s)(b := (bufs s b)\<lparr>b_refcnt := b_refcnt (bufs s b) + 1\<rparr>)\<rparr>))"
proof -
  have q: "quiet s" "current p s" using e by (simp_all add: bio_env_def)
  have c: "chain (bufs s) (xs @ [bhead])" "b_next (bufs s bhead) = hd (xs @ [bhead])"
    using l by (auto simp: linked_def successively_Cons follows_def)
  have len: "length xs < NBUF + 1" using l distinct_card [of xs] by (simp add: linked_def)
  have "bget_cached (NBUF + 1) (hd (xs @ [bhead])) dev bn (acq Bcache_lock s) = Ret (Some b) (acq Bcache_lock s)"
    using bget_cached_eq [of "acq Bcache_lock s" xs "NBUF + 1" dev bn] c(1) len bhead_notin [OF l] f
    by (simp add: matches_def del: bget_cached.simps)
  then show ?thesis
    using q c(2) u
    by (simp add: bget_def bnext_def lock_steps upd_buf_def acquiresleep_eq [where p = p] upd_slock_def lock_buf_def del: bget_cached.simps)
qed

lemma bget_miss:
  assumes e: "bio_env p s" and l: "linked (bufs s) xs"
    and n: "find (\<lambda>b. matches dev bn (bufs s b)) xs = None"
    and f: "find (\<lambda>b. b_refcnt (bufs s b) = 0) (rev xs) = Some b" and u: "sl_locked (slocks s (BufLock b)) = 0"
  shows "bget dev bn s = Ret b (lock_buf p b (s\<lparr>bufs := (bufs s)(b :=
    (bufs s b)\<lparr>b_dev := dev, b_blockno := bn, b_valid := False, b_refcnt := 1\<rparr>)\<rparr>))"
proof -
  have q: "quiet s" "current p s" using e by (simp_all add: bio_env_def)
  have c: "chain (bufs s) (xs @ [bhead])" "b_next (bufs s bhead) = hd (xs @ [bhead])"
    using l by (auto simp: linked_def successively_Cons follows_def)
  have "chain (bufs s) ((bhead # xs) @ [bhead])" using l by (simp add: linked_def)
  then have d: "chain (bufs s) (bhead # xs)" "b_prev (bufs s bhead) = last (bhead # xs)"
    unfolding successively_append_iff by (auto simp: follows_def)
  have len: "length xs < NBUF + 1" using l distinct_card [of xs] by (simp add: linked_def)
  have "bget_cached (NBUF + 1) (hd (xs @ [bhead])) dev bn (acq Bcache_lock s) = Ret None (acq Bcache_lock s)"
    using bget_cached_eq [of "acq Bcache_lock s" xs "NBUF + 1" dev bn] c(1) len bhead_notin [OF l] n
    by (simp add: matches_def del: bget_cached.simps)
  moreover have "bget_unused (NBUF + 1) (last (bhead # xs)) (acq Bcache_lock s) = Ret (Some b) (acq Bcache_lock s)"
    using bget_unused_eq [of "acq Bcache_lock s" xs "NBUF + 1"] d(1) len bhead_notin [OF l] f
    by (simp del: bget_unused.simps last.simps)
  ultimately show ?thesis
    using q c(2) d(2) u
    by (simp add: bget_def bnext_def bprev_def lock_steps upd_buf_def acquiresleep_eq [where p = p] upd_slock_def lock_buf_def
        del: bget_cached.simps bget_unused.simps last.simps)
qed

text \<open>What a disk transfer leaves alone.\<close>

definition disk_same :: "'z virtio_scheme \<Rightarrow> vdisk \<Rightarrow> bool" where
  "disk_same s d \<longleftrightarrow> vd_idle d \<and> vd_sectors d = vd_sectors (vdisk s) \<and> vd_trace d = vd_trace (vdisk s)"

lemma lock_buf_simps [simp]:
  "bufs (lock_buf p b s) = bufs s" "vdisk (lock_buf p b s) = vdisk s" "vdev (lock_buf p b s) = vdev s"
  "procs (lock_buf p b s) = procs s" "quiet (lock_buf p b s) = quiet s" "cid (lock_buf p b s) = cid s" "cpus (lock_buf p b s) = cpus s"
  by (simp_all add: lock_buf_def quiet_def del: quietD)

lemma bread_hit:
  assumes e: "bio_env p s" and l: "linked (bufs s) xs"
    and f: "find (\<lambda>b. matches dev bn (bufs s b)) xs = Some b" and u: "sl_locked (slocks s (BufLock b)) = 0"
    and v: "b_valid (bufs s b)"
  shows "bread dev bn s = Ret b (lock_buf p b (s\<lparr>bufs := (bufs s)(b := (bufs s b)\<lparr>b_refcnt := b_refcnt (bufs s b) + 1\<rparr>)\<rparr>))"
  using bget_hit [OF e l f u] v by (simp add: bread_def)

lemma bread_miss:
  assumes e: "bio_env p s" and l: "linked (bufs s) xs"
    and n: "find (\<lambda>b. matches dev bn (bufs s b)) xs = None"
    and f: "find (\<lambda>b. b_refcnt (bufs s b) = 0) (rev xs) = Some b" and u: "sl_locked (slocks s (BufLock b)) = 0"
  shows "\<exists>d ps. bread dev bn s = Ret b ((lock_buf p b s)\<lparr>bufs := (bufs s)(b :=
      (bufs s b)\<lparr>b_dev := dev, b_blockno := bn, b_refcnt := 1, b_data := vd_sectors (vdisk s) (sector_of bn), b_disk := False, b_valid := True\<rparr>),
      vdisk := d, procs := ps\<rparr>) \<and> disk_same s d \<and> roused (procs s) ps"
proof -
  let ?r = "(bufs s b)\<lparr>b_dev := dev, b_blockno := bn, b_valid := False, b_refcnt := 1\<rparr>"
  let ?s1 = "lock_buf p b (s\<lparr>bufs := (bufs s)(b := ?r)\<rparr>)"
  have q: "quiet ?s1" "serves_requests (vdev ?s1)" "vd_idle (vdisk ?s1)" using e by (simp_all add: bio_env_def)
  obtain d ps where r: "virtio_disk_rw b False ?s1 = Ret () (?s1\<lparr>bufs := (bufs ?s1)(b := buf_moved b False ?s1), vdisk := d, procs := ps\<rparr>)"
      "disk_moved b False ?s1 d" "roused (procs ?s1) ps"
    using virtio_disk_rw_spec [OF q, of b False] by blast
  have "buf_moved b False ?s1 = ?r\<lparr>b_data := vd_sectors (vdisk s) (sector_of bn), b_disk := False\<rparr>"
    by (simp add: buf_moved_def moved_def)
  then have "bread dev bn s = Ret b ((lock_buf p b s)\<lparr>bufs := (bufs s)(b :=
      (bufs s b)\<lparr>b_dev := dev, b_blockno := bn, b_refcnt := 1, b_data := vd_sectors (vdisk s) (sector_of bn), b_disk := False, b_valid := True\<rparr>),
      vdisk := d, procs := ps\<rparr>)"
    using bget_miss [OF e l n f u] r(1) by (simp add: bread_def upd_buf_def) (simp add: lock_buf_def)
  moreover have "disk_same s d" using r(2) by (simp add: disk_moved_def disk_same_def Let_def)
  ultimately show ?thesis using r(3) by auto
qed

lemma holdingsleep_held:
  assumes "bio_env p s" and "sl_locked (slocks s i) \<noteq> 0" and "sl_pid (slocks s i) = p_pid (procs s p)"
  shows "holdingsleep i s = Ret True s"
  using assms holdingsleep_eq [of s i p] by (simp add: bio_env_def)

lemma bwrite_held:
  assumes e: "bio_env p s" and h: "sl_locked (slocks s (BufLock b)) \<noteq> 0" "sl_pid (slocks s (BufLock b)) = p_pid (procs s p)"
  shows "\<exists>d ps. bwrite b s = Ret () (s\<lparr>bufs := (bufs s)(b := (bufs s b)\<lparr>b_disk := False\<rparr>), vdisk := d, procs := ps\<rparr>) \<and>
    vd_idle d \<and> roused (procs s) ps \<and>
    vd_sectors d = (vd_sectors (vdisk s))(sector_of (b_blockno (bufs s b)) := b_data (bufs s b)) \<and>
    vd_trace d = vd_trace (vdisk s) @ [(sector_of (b_blockno (bufs s b)), b_data (bufs s b))]"
proof -
  have q: "quiet s" "serves_requests (vdev s)" "vd_idle (vdisk s)" using e by (simp_all add: bio_env_def)
  obtain d ps where r: "virtio_disk_rw b True s = Ret () (s\<lparr>bufs := (bufs s)(b := buf_moved b True s), vdisk := d, procs := ps\<rparr>)"
      "disk_moved b True s d" "roused (procs s) ps"
    using virtio_disk_rw_spec [OF q, of b True] by blast
  have "buf_moved b True s = (bufs s b)\<lparr>b_disk := False\<rparr>" by (simp add: buf_moved_def moved_def)
  then show ?thesis using r holdingsleep_held [OF e h] by (auto simp: bwrite_def disk_moved_def Let_def)
qed

definition released :: "nat \<Rightarrow> (nat \<Rightarrow> buf) \<Rightarrow> nat \<Rightarrow> buf" where
  "released b bs = (let bs1 = bs(b := (bs b)\<lparr>b_refcnt := b_refcnt (bs b) - 1\<rparr>) in
     if b_refcnt (bs b) - 1 = 0 then fronted b (unlinked b bs1) else bs1)"

lemma set_next_eq: "set_next i j s = Ret () (s\<lparr>bufs := setn i j (bufs s)\<rparr>)"
  by (simp add: set_next_def upd_buf_def setn_def)

lemma set_prev_eq: "set_prev i j s = Ret () (s\<lparr>bufs := setp i j (bufs s)\<rparr>)"
  by (simp add: set_prev_def upd_buf_def setp_def)

lemma relink_eq:
  "bindK (bnext b) (\<lambda>n. bindK (bprev b) (\<lambda>p.
     thenK (set_prev n p) (
     thenK (bindK (bprev b) (\<lambda>p. bindK (bnext b) (\<lambda>n. set_next p n)))
           (push_front b)))) s = Ret () (s\<lparr>bufs := fronted b (unlinked b (bufs s))\<rparr>)"
  by (simp add: push_front_def set_next_eq set_prev_eq bnext_def bprev_def unlinked_def fronted_def Let_def)

lemma brelse_held:
  assumes e: "bio_env p s" and h: "sl_locked (slocks s (BufLock b)) \<noteq> 0" "sl_pid (slocks s (BufLock b)) = p_pid (procs s p)"
  shows "brelse b s = Ret () (s\<lparr>bufs := released b (bufs s),
    slocks := (slocks s)(BufLock b := (slocks s (BufLock b))\<lparr>sl_locked := 0, sl_pid := 0\<rparr>),
    procs := woken (Ch_sleeplock (BufLock b)) (procs s)\<rparr>)"
proof -
  have q: "quiet s" using e by (simp add: bio_env_def)
  show ?thesis
    using q holdingsleep_held [OF e h]
    by (cases "b_refcnt (bufs s b) - 1 = 0")
      (simp_all add: brelse_def releasesleep_eq lock_steps upd_slock_def upd_buf_def relink_eq released_def Let_def)
qed

section \<open>The cache as a map from blocks to contents\<close>

text \<open>
  \<open>R\<close> gives the reference count of every block of the device, \<open>K\<close> the buffers that the process has locked. A
  buffer without references agrees with the disk.
\<close>

definition buf_ok :: "(u32 \<Rightarrow> u32) \<Rightarrow> vdisk \<Rightarrow> buf \<Rightarrow> bool" where
  "buf_ok R d r \<longleftrightarrow> b_refcnt r = (if b_dev r = 1 then R (b_blockno r) else 0) \<and>
     (b_dev r = 1 \<longrightarrow> b_valid r \<and> b_blockno r < 2 ^ 31 \<and>
        (R (b_blockno r) = 0 \<longrightarrow> b_data r = vd_sectors d (sector_of (b_blockno r))))"

definition sl_held_by :: "u32 \<Rightarrow> sleeplock \<Rightarrow> bool" where
  "sl_held_by pid k \<longleftrightarrow> sl_locked k \<noteq> 0 \<and> sl_pid k = pid"

definition one_copy :: "(nat \<Rightarrow> buf) \<Rightarrow> bool" where
  "one_copy bs \<longleftrightarrow> (\<forall>b < NBUF. \<forall>c < NBUF. b_dev (bs b) = 1 \<longrightarrow> b_dev (bs c) = 1 \<longrightarrow> b_blockno (bs b) = b_blockno (bs c) \<longrightarrow> b = c)"

definition cache :: "nat \<Rightarrow> (u32 \<Rightarrow> u32) \<Rightarrow> nat set \<Rightarrow> 'z virtio_scheme \<Rightarrow> bool" where
  "cache p R K s \<longleftrightarrow> bio_env p s \<and> (\<exists>xs. linked (bufs s) xs) \<and> one_copy (bufs s) \<and>
     (\<forall>b < NBUF. buf_ok R (vdisk s) (bufs s b)) \<and>
     (\<forall>b < NBUF. b \<notin> K \<longrightarrow> sl_locked (slocks s (BufLock b)) = 0) \<and>
     (\<forall>b \<in> K. b < NBUF \<and> b_dev (bufs s b) = 1 \<and> sl_held_by (p_pid (procs s p)) (slocks s (BufLock b))) \<and>
     (\<forall>bn. R bn \<noteq> 0 \<longrightarrow> (\<exists>b < NBUF. matches 1 bn (bufs s b)))"

lemma cacheD:
  assumes "cache p R K s"
  shows "bio_env p s" and "\<exists>xs. linked (bufs s) xs" and "one_copy (bufs s)"
    and "\<And>b. b < NBUF \<Longrightarrow> buf_ok R (vdisk s) (bufs s b)"
    and "\<And>b. b < NBUF \<Longrightarrow> b \<notin> K \<Longrightarrow> sl_locked (slocks s (BufLock b)) = 0"
    and "\<And>b. b \<in> K \<Longrightarrow> b < NBUF \<and> b_dev (bufs s b) = 1 \<and> sl_held_by (p_pid (procs s p)) (slocks s (BufLock b))"
    and "\<And>bn. R bn \<noteq> 0 \<Longrightarrow> \<exists>b < NBUF. matches 1 bn (bufs s b)"
  using assms by (simp_all add: cache_def)

definition look :: "'z virtio_scheme \<Rightarrow> u32 \<Rightarrow> block" where
  "look s bn = (case find (\<lambda>b. matches 1 bn (bufs s b)) [0..<NBUF] of
     None \<Rightarrow> vd_sectors (vdisk s) (sector_of bn) | Some b \<Rightarrow> b_data (bufs s b))"

lemma look_cached: "one_copy (bufs s) \<Longrightarrow> b < NBUF \<Longrightarrow> matches 1 bn (bufs s b) \<Longrightarrow> look s bn = b_data (bufs s b)"
  unfolding look_def one_copy_def matches_def
  by (auto split: option.splits simp: find_None_iff find_Some_iff)

lemma look_uncached: "\<forall>b < NBUF. \<not> matches 1 bn (bufs s b) \<Longrightarrow> look s bn = vd_sectors (vdisk s) (sector_of bn)"
  unfolding look_def by (auto split: option.splits simp: find_Some_iff)

lemma look_cong:
  assumes "one_copy (bufs s)" "one_copy (bufs t)"
    and "\<And>b. b < NBUF \<Longrightarrow> matches 1 bn (bufs t b) = matches 1 bn (bufs s b)"
    and "\<And>b. b < NBUF \<Longrightarrow> matches 1 bn (bufs s b) \<Longrightarrow> b_data (bufs t b) = b_data (bufs s b)"
    and "(\<forall>b < NBUF. \<not> matches 1 bn (bufs s b)) \<Longrightarrow> vd_sectors (vdisk t) (sector_of bn) = vd_sectors (vdisk s) (sector_of bn)"
  shows "look t bn = look s bn"
proof (cases "\<exists>b < NBUF. matches 1 bn (bufs s b)")
  case True
  then obtain b where b: "b < NBUF" "matches 1 bn (bufs s b)" by blast
  then show ?thesis using look_cached [OF assms(1) b] look_cached [OF assms(2) b(1)] assms(3,4) by simp
next
  case False
  then show ?thesis using look_uncached [of bn s] look_uncached [of bn t] assms(3,5) by auto
qed

text \<open>What the rest of the state keeps.\<close>

definition rest_same :: "'z virtio_scheme \<Rightarrow> 'z virtio_scheme \<Rightarrow> bool" where
  "rest_same s t \<longleftrightarrow> t = s\<lparr>bufs := bufs t, vdisk := vdisk t, slocks := slocks t, procs := procs t\<rparr> \<and> roused (procs s) (procs t)"

definition disk_eq :: "'z virtio_scheme \<Rightarrow> 'z virtio_scheme \<Rightarrow> bool" where
  "disk_eq s t \<longleftrightarrow> vd_sectors (vdisk t) = vd_sectors (vdisk s) \<and> vd_trace (vdisk t) = vd_trace (vdisk s)"

lemma rest_trans: "rest_same s t \<Longrightarrow> rest_same t u \<Longrightarrow> rest_same s u"
proof -
  assume a: "rest_same s t" "rest_same t u"
  have "u = t\<lparr>bufs := bufs u, vdisk := vdisk u, slocks := slocks u, procs := procs u\<rparr>" using a(2) by (simp add: rest_same_def)
  also have "\<dots> = s\<lparr>bufs := bufs u, vdisk := vdisk u, slocks := slocks u, procs := procs u\<rparr>"
  proof -
    have "t = s\<lparr>bufs := bufs t, vdisk := vdisk t, slocks := slocks t, procs := procs t\<rparr>" using a(1) by (simp add: rest_same_def)
    then obtain B d L ps where "t = s\<lparr>bufs := B, vdisk := d, slocks := L, procs := ps\<rparr>" by blast
    then show ?thesis by simp
  qed
  finally show ?thesis using a roused_trans unfolding rest_same_def by blast
qed

lemma linked_cong:
  "linked bs xs \<Longrightarrow> (\<And>x. b_next (bs' x) = b_next (bs x)) \<Longrightarrow> (\<And>x. b_prev (bs' x) = b_prev (bs x)) \<Longrightarrow> linked bs' xs"
  unfolding linked_def using chain_frame [of bs "bhead # xs @ [bhead]" bs'] by simp

lemma sector_of_inj: "a < 2 ^ 31 \<Longrightarrow> b < 2 ^ 31 \<Longrightarrow> sector_of a = sector_of b \<longleftrightarrow> a = b"
proof -
  assume "a < 2 ^ 31" "b < 2 ^ 31"
  then have "unat a < 2 ^ 31" "unat b < 2 ^ 31" by (simp_all add: word_less_nat_alt)
  then have "unat (a * 2) = 2 * unat a" "unat (b * 2) = 2 * unat b" by (simp_all add: unat_word_ariths)
  moreover have "unat (ucast x :: u64) = unat x" for x :: u32
    using unsigned_less [of x] by (simp add: unsigned_ucast_eq take_bit_nat_eq_self)
  then have "sector_of a = sector_of b \<longleftrightarrow> unat (a * 2) = unat (b * 2)" by (simp add: sector_of_def word_unat_eq_iff)
  ultimately show ?thesis by (simp add: word_unat_eq_iff)
qed

lemma bread_uncached:
  assumes c: "cache p R K s" and n: "\<forall>b < NBUF. \<not> matches 1 bn (bufs s b)" and bn: "bn < 2 ^ 31"
    and live: "\<forall>c \<in> K. R (b_blockno (bufs s c)) \<noteq> 0"
    and room: "\<exists>b < NBUF. b_refcnt (bufs s b) = 0"
  shows "\<exists>b t. bread 1 bn s = Ret b t \<and> b < NBUF \<and> b \<notin> K \<and> cache p (R(bn := R bn + 1)) (insert b K) t \<and>
    matches 1 bn (bufs t b) \<and> b_data (bufs t b) = look s bn \<and> look t = look s \<and> disk_eq s t \<and> rest_same s t \<and>
    (\<forall>c \<in> K. bufs t c = bufs s c)"
proof -
  note cD = cacheD [OF c]
  obtain xs where l: "linked (bufs s) xs" using cD(2) by blast
  then have X: "set xs = {..<NBUF}" by (simp add: linked_def)
  have nf: "find (\<lambda>b. matches 1 bn (bufs s b)) xs = None" using n X by (auto simp: find_None_iff)
  have "find (\<lambda>b. b_refcnt (bufs s b) = 0) (rev xs) \<noteq> None" using room X by (auto simp: find_None_iff)
  then obtain b where f: "find (\<lambda>b. b_refcnt (bufs s b) = 0) (rev xs) = Some b" by blast
  then have "b \<in> set (rev xs)" "b_refcnt (bufs s b) = 0" by (auto dest: find_SomeD)
  then have b: "b < NBUF" "b_refcnt (bufs s b) = 0" using X by auto
  have ok: "buf_ok R (vdisk s) (bufs s b)" by (rule cD(4) [OF b(1)])
  have bK: "b \<notin> K" using cD(6) [of b] live ok b(2) by (auto simp: buf_ok_def)
  have R0: "R bn = 0" using cD(7) n by blast
  obtain d ps where run: "bread 1 bn s = Ret b ((lock_buf p b s)\<lparr>bufs := (bufs s)(b :=
      (bufs s b)\<lparr>b_dev := 1, b_blockno := bn, b_refcnt := 1, b_data := vd_sectors (vdisk s) (sector_of bn), b_disk := False, b_valid := True\<rparr>),
      vdisk := d, procs := ps\<rparr>)" and d: "disk_same s d" and ps: "roused (procs s) ps"
    using bread_miss [OF cD(1) l nf f cD(5) [OF b(1) bK]] by blast
  let ?r = "(bufs s b)\<lparr>b_dev := 1, b_blockno := bn, b_refcnt := 1, b_data := vd_sectors (vdisk s) (sector_of bn), b_disk := False, b_valid := True\<rparr>"
  let ?t = "(lock_buf p b s)\<lparr>bufs := (bufs s)(b := ?r), vdisk := d, procs := ps\<rparr>"
  have nm: "\<not> (b_dev (bufs s x) = 1 \<and> b_blockno (bufs s x) = bn)" if "x < NBUF" for x using n that by (auto simp: matches_def)
  have oc: "one_copy (bufs ?t)" using cD(3) nm unfolding one_copy_def by auto
  have "cache p (R(bn := R bn + 1)) (insert b K) ?t"
    unfolding cache_def
  proof (intro conjI allI ballI impI)
    show "bio_env p ?t" using cD(1) d by (simp add: bio_env_def disk_same_def)
    show "\<exists>xs. linked (bufs ?t) xs" using linked_cong [OF l, of "(bufs s)(b := ?r)"] by (auto intro!: exI [of _ xs])
    show "one_copy (bufs ?t)" by (rule oc)
    show "buf_ok (R(bn := R bn + 1)) (vdisk ?t) (bufs ?t c)" if "c < NBUF" for c
      using cD(4) [OF that] nm [OF that] R0 bn d by (auto simp: buf_ok_def disk_same_def)
    show "sl_locked (slocks ?t (BufLock c)) = 0" if "c < NBUF" "c \<notin> insert b K" for c
      using that cD(5) by (simp add: lock_buf_def)
    fix c assume c: "c \<in> insert b K"
    show "c < NBUF" using c b(1) cD(6) by auto
    show "b_dev (bufs ?t c) = 1" using c cD(6) by auto
    show "sl_held_by (p_pid (procs ?t p)) (slocks ?t (BufLock c))"
      using c cD(6) roused_pid [OF ps, of p] by (auto simp: lock_buf_def sl_held_by_def)
  next
    show "\<exists>c < NBUF. matches 1 x (bufs ?t c)" if "(R(bn := R bn + 1)) x \<noteq> 0" for x
    proof (cases "x = bn")
      case True
      then show ?thesis using b by (intro exI [of _ b]) (simp add: matches_def)
    next
      case False
      then have "R x \<noteq> 0" using that by simp
      then obtain c where c: "c < NBUF" "matches 1 x (bufs s c)" using cD(7) by blast
      then have "c \<noteq> b" using ok b(2) \<open>R x \<noteq> 0\<close> by (auto simp: buf_ok_def matches_def)
      then show ?thesis using c by (intro exI [of _ c]) (simp add: matches_def)
    qed
  qed
  moreover have "look ?t x = look s x" for x
  proof -
    consider "x = bn" | "x \<noteq> bn" "matches 1 x (bufs s b)" | "x \<noteq> bn" "\<not> matches 1 x (bufs s b)" by blast
    then show ?thesis
    proof cases
      case 1
      then show ?thesis using look_uncached [OF n] look_cached [OF oc b(1), of bn] by (simp add: matches_def)
    next
      case 2
      then have "b_data (bufs s b) = vd_sectors (vdisk s) (sector_of x)" using ok b(2) by (auto simp: buf_ok_def matches_def)
      moreover have "\<forall>c < NBUF. \<not> matches 1 x (bufs ?t c)" using 2 cD(3) b(1) by (auto simp: matches_def one_copy_def)
      ultimately show ?thesis using look_cached [OF cD(3) b(1) 2(2)] look_uncached [of x ?t] d by (simp add: disk_same_def)
    next
      case 3
      then show ?thesis by (intro look_cong [OF cD(3) oc]) (use d in \<open>auto simp: matches_def disk_same_def\<close>)
    qed
  qed
  moreover have "rest_same s ?t" using ps by (simp add: rest_same_def lock_buf_def)
  ultimately show ?thesis
    using run b bK d look_uncached [OF n] by (intro exI [of _ b] exI [of _ ?t]) (auto simp: matches_def disk_eq_def disk_same_def)
qed

lemma find_match:
  assumes "linked (bufs s) xs" and "one_copy (bufs s)" and "b < NBUF" and "matches 1 bn (bufs s b)"
  shows "find (\<lambda>b. matches 1 bn (bufs s b)) xs = Some b"
proof (cases "find (\<lambda>b. matches 1 bn (bufs s b)) xs")
  case None
  then show ?thesis using assms by (auto simp: find_None_iff linked_def)
next
  case (Some c)
  then have "c \<in> set xs" "matches 1 bn (bufs s c)" by (auto simp: find_Some_iff)
  then show ?thesis using Some assms by (auto simp: linked_def one_copy_def matches_def)
qed

lemma bread_cached:
  assumes c: "cache p R K s" and b: "b < NBUF" "b \<notin> K" "matches 1 bn (bufs s b)" and R: "R bn + 1 \<noteq> 0"
  shows "\<exists>t. bread 1 bn s = Ret b t \<and> cache p (R(bn := R bn + 1)) (insert b K) t \<and>
    matches 1 bn (bufs t b) \<and> b_data (bufs t b) = look s bn \<and> look t = look s \<and> disk_eq s t \<and> rest_same s t \<and>
    (\<forall>c \<in> K. bufs t c = bufs s c)"
proof -
  note cD = cacheD [OF c]
  obtain xs where l: "linked (bufs s) xs" using cD(2) by blast
  let ?B = "(bufs s)(b := (bufs s b)\<lparr>b_refcnt := b_refcnt (bufs s b) + 1\<rparr>)"
  let ?t = "lock_buf p b (s\<lparr>bufs := ?B\<rparr>)"
  have m: "b_dev (bufs s b) = 1" "b_blockno (bufs s b) = bn" using b(3) by (simp_all add: matches_def)
  have ok: "buf_ok R (vdisk s) (bufs s b)" by (rule cD(4) [OF b(1)])
  have run: "bread 1 bn s = Ret b ?t"
    by (rule bread_hit [OF cD(1) l find_match [OF l cD(3) b(1,3)] cD(5) [OF b(1,2)]]) (use ok m in \<open>simp add: buf_ok_def\<close>)
  have oc: "one_copy (bufs ?t)" using cD(3) by (auto simp: one_copy_def)
  have "cache p (R(bn := R bn + 1)) (insert b K) ?t"
    unfolding cache_def
  proof (intro conjI allI ballI impI)
    show "bio_env p ?t" using cD(1) by (simp add: bio_env_def)
    show "\<exists>xs. linked (bufs ?t) xs" using linked_cong [OF l, of ?B] by (auto intro!: exI [of _ xs])
    show "one_copy (bufs ?t)" by (rule oc)
    show "buf_ok (R(bn := R bn + 1)) (vdisk ?t) (bufs ?t c)" if "c < NBUF" for c
    proof (cases "c = b")
      case True
      then show ?thesis using ok m R by (simp add: buf_ok_def)
    next
      case False
      then have "\<not> (b_dev (bufs s c) = 1 \<and> b_blockno (bufs s c) = bn)"
        using cD(3) b(1) m that unfolding one_copy_def by metis
      then show ?thesis using cD(4) [OF that] False by (auto simp: buf_ok_def)
    qed
    show "sl_locked (slocks ?t (BufLock c)) = 0" if "c < NBUF" "c \<notin> insert b K" for c
      using that cD(5) by (simp add: lock_buf_def)
    fix c assume c: "c \<in> insert b K"
    show "c < NBUF" using c b(1) cD(6) by auto
    show "b_dev (bufs ?t c) = 1" using c m cD(6) by auto
    show "sl_held_by (p_pid (procs ?t p)) (slocks ?t (BufLock c))"
      using c cD(6) by (auto simp: lock_buf_def sl_held_by_def)
  next
    show "\<exists>c < NBUF. matches 1 x (bufs ?t c)" if "(R(bn := R bn + 1)) x \<noteq> 0" for x
    proof (cases "x = bn")
      case True
      then show ?thesis using b m by (intro exI [of _ b]) (simp add: matches_def)
    next
      case False
      then have "R x \<noteq> 0" using that by simp
      then obtain c where "c < NBUF" "matches 1 x (bufs s c)" using cD(7) by blast
      then show ?thesis by (intro exI [of _ c]) (auto simp: matches_def)
    qed
  qed
  moreover have "look ?t x = look s x" for x
    by (rule look_cong [OF cD(3) oc]) (auto simp: matches_def)
  moreover have "rest_same s ?t" by (simp add: rest_same_def lock_buf_def)
  ultimately show ?thesis
    using run b m look_cached [OF cD(3) b(1,3)] by (intro exI [of _ ?t]) (auto simp: matches_def disk_eq_def)
qed

section \<open>The operations on the cache\<close>

text \<open>
  \<open>R\<close>: reference counts, \<open>H\<close>: the block in each locked buffer, \<open>C\<close>: the contents of the blocks as the kernel sees
  them, \<open>D\<close> and \<open>T\<close>: the disk and the writes it has seen.
\<close>

definition bcache :: "nat \<Rightarrow> (u32 \<Rightarrow> u32) \<Rightarrow> (nat \<rightharpoonup> u32) \<Rightarrow> (u32 \<Rightarrow> block) \<Rightarrow> (u64 \<Rightarrow> block) \<Rightarrow> (u64 \<times> block) list \<Rightarrow> 'z virtio_scheme \<Rightarrow> bool" where
  "bcache p R H C D T s \<longleftrightarrow> cache p R (dom H) s \<and> (\<forall>b bn. H b = Some bn \<longrightarrow> b_blockno (bufs s b) = bn) \<and>
     (\<forall>bn < 2 ^ 31. look s bn = C bn) \<and> vd_sectors (vdisk s) = D \<and> vd_trace (vdisk s) = T"

lemma bcacheD:
  assumes "bcache p R H C D T s"
  shows "cache p R (dom H) s" and "\<And>b bn. H b = Some bn \<Longrightarrow> b < NBUF \<and> matches 1 bn (bufs s b)"
    and "\<And>bn. bn < 2 ^ 31 \<Longrightarrow> look s bn = C bn" and "vd_sectors (vdisk s) = D" and "vd_trace (vdisk s) = T"
  using assms cacheD(6) [of p R "dom H" s] by (auto simp: bcache_def matches_def)

lemma bcache_held:
  assumes c: "bcache p R H C D T s" and h: "H b = Some bn"
  shows "bn < 2 ^ 31" and "b_data (bufs s b) = C bn" and "b_refcnt (bufs s b) = R bn"
    and "sl_locked (slocks s (BufLock b)) \<noteq> 0" and "sl_pid (slocks s (BufLock b)) = p_pid (procs s p)"
proof -
  note D = bcacheD [OF c]
  note cD = cacheD [OF D(1)]
  have b: "b < NBUF" "matches 1 bn (bufs s b)" using D(2) [OF h] by auto
  have ok: "buf_ok R (vdisk s) (bufs s b)" by (rule cD(4) [OF b(1)])
  show bn: "bn < 2 ^ 31" and "b_refcnt (bufs s b) = R bn" using ok b by (auto simp: buf_ok_def matches_def)
  show "b_data (bufs s b) = C bn" using look_cached [OF cD(3) b] D(3) [OF bn] by simp
  show "sl_locked (slocks s (BufLock b)) \<noteq> 0" and "sl_pid (slocks s (BufLock b)) = p_pid (procs s p)"
    using cD(6) [of b] h by (auto simp: sl_held_by_def)
qed

lemma bcache_clean:
  assumes c: "bcache p R H C D T s" and "R bn = 0" "bn < 2 ^ 31"
  shows "C bn = D (sector_of bn)"
proof (cases "\<exists>b < NBUF. matches 1 bn (bufs s b)")
  case True
  then obtain b where b: "b < NBUF" "matches 1 bn (bufs s b)" by blast
  note D = bcacheD [OF c]
  show ?thesis using cacheD(4) [OF D(1) b(1)] look_cached [OF cacheD(3) [OF D(1)] b] D(3,4) b(2) assms
    by (auto simp: buf_ok_def matches_def)
next
  case False
  then show ?thesis using look_uncached [of bn s] bcacheD(3,4) [OF c] assms by auto
qed

lemma free_buffer:
  assumes c: "cache p R K s" and n: "card {bn. R bn \<noteq> 0} < NBUF"
  shows "\<exists>b < NBUF. b_refcnt (bufs s b) = 0"
proof (rule ccontr)
  assume no: "\<not> ?thesis"
  let ?f = "\<lambda>b. b_blockno (bufs s b)"
  note cD = cacheD [OF c]
  have d: "b_dev (bufs s b) = 1 \<and> R (?f b) \<noteq> 0" if "b < NBUF" for b
    using cD(4) [OF that] no that by (auto simp: buf_ok_def split: if_splits)
  have "inj_on ?f {..<NBUF}" using cD(3) d by (auto simp: inj_on_def one_copy_def)
  then have "card (?f ` {..<NBUF}) = NBUF" by (simp add: card_image)
  moreover have "card (?f ` {..<NBUF}) \<le> card {bn. R bn \<noteq> 0}" using d by (intro card_mono) auto
  ultimately show False using n by simp
qed

lemma bread_ok:
  assumes c: "bcache p R H C D T s" and nh: "bn \<notin> ran H" and bn: "bn < 2 ^ 31" and R: "R bn + 1 \<noteq> 0"
    and live: "\<forall>x \<in> ran H. R x \<noteq> 0" and room: "R bn \<noteq> 0 \<or> card {bn. R bn \<noteq> 0} < NBUF"
  shows "\<exists>b t. bread 1 bn s = Ret b t \<and> H b = None \<and> bcache p (R(bn := R bn + 1)) (H(b \<mapsto> bn)) C D T t \<and> rest_same s t"
proof -
  note D = bcacheD [OF c]
  have "\<exists>b t. bread 1 bn s = Ret b t \<and> b \<notin> dom H \<and> cache p (R(bn := R bn + 1)) (insert b (dom H)) t \<and>
    matches 1 bn (bufs t b) \<and> b_data (bufs t b) = look s bn \<and> look t = look s \<and> disk_eq s t \<and> rest_same s t \<and>
    (\<forall>c \<in> dom H. bufs t c = bufs s c)"
  proof (cases "\<exists>b < NBUF. matches 1 bn (bufs s b)")
    case True
    then obtain b where b: "b < NBUF" "matches 1 bn (bufs s b)" by blast
    have "b \<notin> dom H" using nh D(2) [of b] b(2) by (auto simp: matches_def ran_def)
    then show ?thesis using bread_cached [OF D(1) b(1) _ b(2) R] by blast
  next
    case False
    have "\<forall>b \<in> dom H. R (b_blockno (bufs s b)) \<noteq> 0" using live D(2) by (fastforce simp: matches_def ran_def)
    moreover have "R bn = 0" using False cacheD(7) [OF D(1)] by blast
    then have "\<exists>b < NBUF. b_refcnt (bufs s b) = 0" using free_buffer [OF D(1)] room by blast
    ultimately show ?thesis using bread_uncached [OF D(1) _ bn] False by blast
  qed
  then obtain b t where r: "bread 1 bn s = Ret b t" "b \<notin> dom H" "cache p (R(bn := R bn + 1)) (insert b (dom H)) t"
    "matches 1 bn (bufs t b)" "look t = look s" "disk_eq s t" "rest_same s t" "\<forall>c \<in> dom H. bufs t c = bufs s c" by blast
  have "bcache p (R(bn := R bn + 1)) (H(b \<mapsto> bn)) C D T t"
    unfolding bcache_def
  proof (intro conjI allI impI)
    show "cache p (R(bn := R bn + 1)) (dom (H(b \<mapsto> bn))) t" using r(3) by simp
    show "b_blockno (bufs t c) = x" if "(H(b \<mapsto> bn)) c = Some x" for c x
      using that r(4) D(2) [of c x] r(8) [rule_format, of c] domI [of H c x] by (auto simp: matches_def split: if_splits)
    show "look t x = C x" if "x < 2 ^ 31" for x using r(5) D(3) [OF that] by simp
    show "vd_sectors (vdisk t) = D" and "vd_trace (vdisk t) = T" using r(6) D(4,5) by (simp_all add: disk_eq_def)
  qed
  then show ?thesis using r(1,2,7) by (intro exI [of _ b] exI [of _ t]) auto
qed

lemma bdata_ok: "bcache p R H C D T s \<Longrightarrow> H b = Some bn \<Longrightarrow> bdata b s = Ret (C bn) s"
  by (simp add: bdata_def bcache_held(2))

text \<open>Replacing the fields of one locked buffer.\<close>

lemma bcache_upd:
  assumes c: "bcache p R H C D T s" and h: "H b = Some bn"
    and r: "b_dev r = 1" "b_blockno r = bn" "b_valid r" "b_refcnt r = k" "b_next r = b_next (bufs s b)" "b_prev r = b_prev (bufs s b)"
    and d: "D' = vd_sectors d" "D' = D \<or> D' = D(sector_of bn := v)" "vd_idle d"
    and k: "k = 0 \<Longrightarrow> b_data r = D' (sector_of bn)"
    and ps: "roused (procs s) ps"
  shows "bcache p (R(bn := k)) H (C(bn := b_data r)) D' (vd_trace d) (s\<lparr>bufs := (bufs s)(b := r), vdisk := d, procs := ps\<rparr>)"
proof -
  note B = bcacheD [OF c]
  note cD = cacheD [OF B(1)]
  have b: "b < NBUF" "matches 1 bn (bufs s b)" using B(2) [OF h] by auto
  then have m: "b_dev (bufs s b) = 1" "b_blockno (bufs s b) = bn" by (simp_all add: matches_def)
  have bn: "bn < 2 ^ 31" by (rule bcache_held(1) [OF c h])
  have D': "D' (sector_of x) = D (sector_of x)" if "x < 2 ^ 31" "x \<noteq> bn" for x using d(2) sector_of_inj [OF that(1) bn] that(2) by auto
  let ?t = "s\<lparr>bufs := (bufs s)(b := r), vdisk := d, procs := ps\<rparr>"
  have oc: "one_copy (bufs ?t)" using cD(3) r(1,2) m by (auto simp: one_copy_def)
  have other: "\<not> (b_dev (bufs s x) = 1 \<and> b_blockno (bufs s x) = bn)" if "x < NBUF" "x \<noteq> b" for x
    using cD(3) b(1) m that unfolding one_copy_def by metis
  have "cache p (R(bn := k)) (dom H) ?t"
    unfolding cache_def
  proof (intro conjI allI ballI impI)
    show "bio_env p ?t" using cD(1) d(3) by (simp add: bio_env_def)
    obtain xs where l: "linked (bufs s) xs" using cD(2) by blast
    show "\<exists>xs. linked (bufs ?t) xs" using linked_cong [OF l, of "(bufs s)(b := r)"] r(5,6) by (auto intro!: exI [of _ xs])
    show "one_copy (bufs ?t)" by (rule oc)
    show "buf_ok (R(bn := k)) (vdisk ?t) (bufs ?t x)" if "x < NBUF" for x
    proof (cases "x = b")
      case True
      then show ?thesis using r bn k d(1) by (auto simp: buf_ok_def)
    next
      case False
      then show ?thesis using cD(4) [OF that] other [OF that] D' d(1) B(4) by (auto simp: buf_ok_def)
    qed
    show "sl_locked (slocks ?t (BufLock x)) = 0" if "x < NBUF" "x \<notin> dom H" for x using that cD(5) by simp
    fix x assume x: "x \<in> dom H"
    show "x < NBUF" and "b_dev (bufs ?t x) = 1" and "sl_held_by (p_pid (procs ?t p)) (slocks ?t (BufLock x))"
      using x r(1) cD(6) roused_pid [OF ps, of p] by auto
  next
    show "\<exists>c < NBUF. matches 1 x (bufs ?t c)" if "(R(bn := k)) x \<noteq> 0" for x
    proof (cases "x = bn")
      case True
      then show ?thesis using b r by (intro exI [of _ b]) (simp add: matches_def)
    next
      case False
      then have "R x \<noteq> 0" using that by simp
      then obtain c where "c < NBUF" "matches 1 x (bufs s c)" using cD(7) by blast
      then show ?thesis using m False by (intro exI [of _ c]) (auto simp: matches_def)
    qed
  qed
  moreover have "look ?t x = (C(bn := b_data r)) x" if "x < 2 ^ 31" for x
  proof (cases "x = bn")
    case True
    then show ?thesis using look_cached [OF oc b(1), of bn] r by (simp add: matches_def)
  next
    case False
    have "look ?t x = look s x" using False m r(1,2) D' [OF that False] d(1) B(4)
      by (intro look_cong [OF cD(3) oc]) (auto simp: matches_def)
    then show ?thesis using B(3) [OF that] False by simp
  qed
  ultimately show ?thesis using B(2) r(2) h d(1) by (auto simp: bcache_def matches_def)
qed

lemma set_bdata_ok:
  assumes c: "bcache p R H C D T s" and h: "H b = Some bn" and "R bn \<noteq> 0"
  shows "\<exists>t. set_bdata b x s = Ret () t \<and> bcache p R H (C(bn := x)) D T t \<and> rest_same s t"
proof -
  note B = bcacheD [OF c]
  let ?r = "(bufs s b)\<lparr>b_data := x\<rparr>"
  let ?t = "s\<lparr>bufs := (bufs s)(b := ?r), vdisk := vdisk s, procs := procs s\<rparr>"
  have ok: "buf_ok R (vdisk s) (bufs s b)" "b_dev (bufs s b) = 1" "b_blockno (bufs s b) = bn"
    using cacheD(4) [OF B(1)] B(2) [OF h] by (auto simp: matches_def)
  have idle: "vd_idle (vdisk s)" using cacheD(1) [OF B(1)] by (simp add: bio_env_def)
  have "bcache p (R(bn := R bn)) H (C(bn := b_data ?r)) D (vd_trace (vdisk s)) ?t"
    by (rule bcache_upd [OF c h]) (use ok B(4) idle assms(3) in \<open>auto simp: buf_ok_def\<close>)
  then show ?thesis using B(5) by (intro exI [of _ ?t]) (simp add: set_bdata_def upd_buf_def rest_same_def)
qed

lemma bwrite_ok:
  assumes c: "bcache p R H C D T s" and h: "H b = Some bn"
  shows "\<exists>t. bwrite b s = Ret () t \<and> rest_same s t \<and>
    bcache p R H C (D(sector_of bn := C bn)) (T @ [(sector_of bn, C bn)]) t"
proof -
  note B = bcacheD [OF c]
  have e: "bio_env p s" by (rule cacheD(1) [OF B(1)])
  let ?r = "(bufs s b)\<lparr>b_disk := False\<rparr>"
  have ok: "buf_ok R (vdisk s) (bufs s b)" "b_dev (bufs s b) = 1" "b_blockno (bufs s b) = bn"
    using cacheD(4) [OF B(1)] B(2) [OF h] by (auto simp: matches_def)
  obtain d ps where run: "bwrite b s = Ret () (s\<lparr>bufs := (bufs s)(b := ?r), vdisk := d, procs := ps\<rparr>)"
    and d: "vd_idle d" "vd_sectors d = D(sector_of bn := C bn)" "vd_trace d = T @ [(sector_of bn, C bn)]" and ps: "roused (procs s) ps"
    using bwrite_held [OF e bcache_held(4,5) [OF c h]] ok(3) bcache_held(2) [OF c h] B(4,5) by auto
  have "bcache p (R(bn := R bn)) H (C(bn := b_data ?r)) (D(sector_of bn := C bn)) (vd_trace d) (s\<lparr>bufs := (bufs s)(b := ?r), vdisk := d, procs := ps\<rparr>)"
    by (rule bcache_upd [OF c h, where v = "C bn"]) (use ok d ps bcache_held(2) [OF c h] in \<open>auto simp: buf_ok_def\<close>)
  moreover have "C(bn := b_data ?r) = C" using bcache_held(2) [OF c h] by auto
  ultimately show ?thesis using run ps d by (intro exI) (auto simp: rest_same_def)
qed

lemma bcache_refcnt:
  assumes c: "bcache p R H C D T s" and h: "H b = Some bn" and k: "k = 0 \<Longrightarrow> C bn = D (sector_of bn)"
  shows "bcache p (R(bn := k)) H C D T (s\<lparr>bufs := (bufs s)(b := (bufs s b)\<lparr>b_refcnt := k\<rparr>)\<rparr>)"
proof -
  note B = bcacheD [OF c]
  let ?r = "(bufs s b)\<lparr>b_refcnt := k\<rparr>"
  have ok: "buf_ok R (vdisk s) (bufs s b)" "b_dev (bufs s b) = 1" "b_blockno (bufs s b) = bn" "vd_idle (vdisk s)"
    using cacheD(1,4) [OF B(1)] B(2) [OF h] by (auto simp: matches_def bio_env_def)
  have "bcache p (R(bn := k)) H (C(bn := b_data ?r)) D (vd_trace (vdisk s)) (s\<lparr>bufs := (bufs s)(b := ?r), vdisk := vdisk s, procs := procs s\<rparr>)"
    by (rule bcache_upd [OF c h]) (use ok B(4) k bcache_held(2) [OF c h] in \<open>auto simp: buf_ok_def\<close>)
  moreover have "C(bn := b_data ?r) = C" using bcache_held(2) [OF c h] by auto
  ultimately show ?thesis using B(5) by simp
qed

lemma bunpin_ok:
  assumes c: "bcache p R H C D T s" and h: "H b = Some bn" and k: "R bn - 1 = 0 \<Longrightarrow> C bn = D (sector_of bn)"
  shows "\<exists>t. bunpin b s = Ret () t \<and> bcache p (R(bn := R bn - 1)) H C D T t \<and> rest_same s t"
proof -
  let ?t = "s\<lparr>bufs := (bufs s)(b := (bufs s b)\<lparr>b_refcnt := R bn - 1\<rparr>)\<rparr>"
  have "quiet s" using cacheD(1) [OF bcacheD(1) [OF c]] by (simp add: bio_env_def)
  then have "bunpin b s = Ret () ?t" using bcache_held(3) [OF c h] by (simp add: bunpin_def lock_steps upd_buf_def)
  moreover have "bcache p (R(bn := R bn - 1)) H C D T ?t" by (rule bcache_refcnt [OF c h k])
  ultimately show ?thesis by (intro exI [of _ ?t]) (simp add: rest_same_def)
qed

definition same_core :: "buf \<Rightarrow> buf \<Rightarrow> bool" where
  "same_core r q \<longleftrightarrow> b_dev q = b_dev r \<and> b_blockno q = b_blockno r \<and> b_data q = b_data r \<and> b_refcnt q = b_refcnt r \<and> b_valid q = b_valid r"

lemma link_core [simp]: "same_core r (setn i j bs x) = same_core r (bs x)" "same_core r (setp i j bs x) = same_core r (bs x)"
  by (simp_all add: same_core_def setn_def setp_def)

lemma same_core_refl [simp]: "same_core r r"
  by (simp add: same_core_def)

lemma relink_core: "same_core (B x) (fronted b (unlinked b B) x)"
  unfolding fronted_def unlinked_def Let_def by (simp only: link_core same_core_refl)

lemma released_core: "same_core ((bs(b := (bs b)\<lparr>b_refcnt := b_refcnt (bs b) - 1\<rparr>)) x) (released b bs x)"
proof -
  define bs1 where "bs1 = bs(b := (bs b)\<lparr>b_refcnt := b_refcnt (bs b) - 1\<rparr>)"
  have "released b bs = (if b_refcnt (bs b) - 1 = 0 then fronted b (unlinked b bs1) else bs1)"
    by (simp only: released_def Let_def bs1_def)
  then show ?thesis using relink_core [of bs1 x b] unfolding bs1_def [symmetric] by simp
qed

lemma quiet_slocks [simp]: "quiet (s\<lparr>slocks := x\<rparr>) = quiet s"
  by (simp add: quiet_def cpu_ok_def lock_free_def cid_def intr_enabled_def del: quietD)

lemma bcache_unlock:
  assumes c: "bcache p R H C D T s" and l: "\<exists>xs. linked B xs"
    and B: "\<And>x. same_core (bufs s x) (B x)" and k: "sl_locked k = 0" and ps: "roused (procs s) ps"
  shows "bcache p R (H(b := None)) C D T (s\<lparr>bufs := B, slocks := (slocks s)(BufLock b := k), procs := ps\<rparr>)"
proof -
  note bD = bcacheD [OF c]
  note cD = cacheD [OF bD(1)]
  let ?t = "s\<lparr>bufs := B, slocks := (slocks s)(BufLock b := k), procs := ps\<rparr>"
  have f: "b_dev (B x) = b_dev (bufs s x)" "b_blockno (B x) = b_blockno (bufs s x)" "b_data (B x) = b_data (bufs s x)"
    "b_refcnt (B x) = b_refcnt (bufs s x)" "b_valid (B x) = b_valid (bufs s x)" for x
    using B [of x] by (auto simp: same_core_def)
  have oc: "one_copy (bufs ?t)" using cD(3) by (simp add: one_copy_def f)
  have "cache p R (dom (H(b := None))) ?t"
    unfolding cache_def
  proof (intro conjI allI ballI impI)
    show "bio_env p ?t" using cD(1) by (simp add: bio_env_def)
    show "\<exists>xs. linked (bufs ?t) xs" using l by simp
    show "one_copy (bufs ?t)" by (rule oc)
    show "buf_ok R (vdisk ?t) (bufs ?t x)" if "x < NBUF" for x using cD(4) [OF that] by (simp add: buf_ok_def f)
    show "sl_locked (slocks ?t (BufLock x)) = 0" if "x < NBUF" "x \<notin> dom (H(b := None))" for x
      using that cD(5) [of x] k by (cases "x = b") auto
    fix x assume x: "x \<in> dom (H(b := None))"
    then have x': "x \<in> dom H" "x \<noteq> b" by (auto split: if_splits)
    show "x < NBUF" and "b_dev (bufs ?t x) = 1" and "sl_held_by (p_pid (procs ?t p)) (slocks ?t (BufLock x))"
      using x' cD(6) roused_pid [OF ps, of p] by (auto simp: f)
  next
    show "\<exists>y < NBUF. matches 1 x (bufs ?t y)" if "R x \<noteq> 0" for x using cD(7) [OF that] by (simp add: matches_def f)
  qed
  moreover have "look ?t x = look s x" for x by (rule look_cong [OF cD(3) oc]) (simp_all add: matches_def f)
  ultimately show ?thesis using bD(2,3,4,5) by (auto simp: bcache_def matches_def f split: if_splits)
qed

lemma brelse_ok:
  assumes c: "bcache p R H C D T s" and h: "H b = Some bn" and k: "R bn - 1 = 0 \<Longrightarrow> C bn = D (sector_of bn)"
  shows "\<exists>t. brelse b s = Ret () t \<and> bcache p (R(bn := R bn - 1)) (H(b := None)) C D T t \<and> rest_same s t"
proof -
  note B = bcacheD [OF c]
  have e: "bio_env p s" by (rule cacheD(1) [OF B(1)])
  let ?s1 = "s\<lparr>bufs := (bufs s)(b := (bufs s b)\<lparr>b_refcnt := R bn - 1\<rparr>)\<rparr>"
  let ?k = "(slocks s (BufLock b))\<lparr>sl_locked := 0, sl_pid := 0\<rparr>"
  let ?ps = "woken (Ch_sleeplock (BufLock b)) (procs s)"
  let ?t = "s\<lparr>bufs := released b (bufs s), slocks := (slocks s)(BufLock b := ?k), procs := ?ps\<rparr>"
  have b: "b < NBUF" using B(2) [OF h] by simp
  have r: "b_refcnt (bufs s b) = R bn" by (rule bcache_held(3) [OF c h])
  have c1: "bcache p (R(bn := R bn - 1)) H C D T ?s1" by (rule bcache_refcnt [OF c h k])
  obtain xs where xs: "linked (bufs ?s1) xs" using cacheD(2) [OF bcacheD(1) [OF c1]] by blast
  have "\<exists>xs. linked (released b (bufs s)) xs" using xs relinked [OF xs b] by (auto simp: released_def Let_def r)
  moreover have "same_core (bufs ?s1 x) (released b (bufs s) x)" for x
    using released_core [of "bufs s" b x] by (simp add: r)
  ultimately have "bcache p (R(bn := R bn - 1)) (H(b := None)) C D T (?s1\<lparr>bufs := released b (bufs s), slocks := (slocks ?s1)(BufLock b := ?k), procs := ?ps\<rparr>)"
    by (intro bcache_unlock [OF c1]) simp_all
  moreover have "brelse b s = Ret () ?t" by (rule brelse_held [OF e bcache_held(4,5) [OF c h]])
  ultimately show ?thesis by (intro exI [of _ ?t]) (simp add: rest_same_def)
qed

definition fresh_buf :: "buf \<Rightarrow> bool" where
  "fresh_buf r \<longleftrightarrow> b_dev r = 0 \<and> b_refcnt r = 0"

lemma quiet_initlock: "quiet s \<Longrightarrow> quiet (upd_lock l (\<lambda>_. \<lparr>lk_locked = 0, lk_name = nm, lk_cpu = None\<rparr>) s)"
  by (auto simp: quiet_def cpu_ok_def lock_free_def upd_lock_def cid_def intr_enabled_def simp del: quietD)

definition set_up :: "'z virtio_scheme \<Rightarrow> 'z virtio_scheme \<Rightarrow> bool" where
  "set_up s t \<longleftrightarrow> t = s\<lparr>locks := locks t, slocks := slocks t, bufs := bufs t\<rparr>"

lemma set_up_upd: "set_up s t \<Longrightarrow> set_up s (t\<lparr>locks := L, bufs := B, slocks := S\<rparr>)"
proof -
  assume "set_up s t"
  then obtain L' B' S' where "t = s\<lparr>locks := L', slocks := S', bufs := B'\<rparr>" unfolding set_up_def by blast
  then show ?thesis by (simp add: set_up_def)
qed

definition lists_of :: "nat \<Rightarrow> 'z virtio_scheme \<Rightarrow> nat \<Rightarrow> 'z virtio_scheme \<Rightarrow> bool" where
  "lists_of p s i t \<longleftrightarrow> set_up s t \<and> quiet t \<and> current p t \<and> vdev t = vdev s \<and> vdisk t = vdisk s \<and>
     chain (bufs t) (bhead # rev [0..<i] @ [bhead]) \<and> (\<forall>x. same_core (bufs s x) (bufs t x)) \<and>
     (\<forall>b < i. sl_locked (slocks t (BufLock b)) = 0)"

lemma binit_spec:
  assumes e: "bio_env p s"
  shows "\<exists>t. binit s = Ret () t \<and> lists_of p s NBUF t"
proof -
  let ?f = "\<lambda>b. bindK (bnext bhead) (\<lambda>h.
       thenK (set_next b h) (
       thenK (set_prev b bhead) (
       thenK (initsleeplock (BufLock b) ''buffer'') (
       bindK (bnext bhead) (\<lambda>h.
       thenK (set_prev h b)
             (set_next bhead b))))))"
  let ?s0 = "upd_lock Bcache_lock (\<lambda>_. \<lparr>lk_locked = 0, lk_name = ''bcache'', lk_cpu = None\<rparr>) s"
  let ?s1 = "?s0\<lparr>bufs := setn bhead bhead (setp bhead bhead (bufs ?s0))\<rparr>"
  have step: "\<exists>u. ?f i t = Ret () u \<and> lists_of p s (Suc i) u" if i: "i < NBUF" and t: "lists_of p s i t" for i t
  proof -
    let ?t1 = "upd_lock (Sleeplk (BufLock i)) (\<lambda>_. \<lparr>lk_locked = 0, lk_name = ''sleep lock'', lk_cpu = None\<rparr>) t"
    let ?u = "?t1\<lparr>bufs := fronted i (bufs t), slocks := (slocks t)(BufLock i := \<lparr>sl_locked = 0, sl_name = ''buffer'', sl_pid = 0\<rparr>)\<rparr>"
    have "?f i t = Ret () ?u"
      by (simp add: bnext_def set_next_eq set_prev_eq initsleeplock_def initlock_def upd_slock_def upd_lock_def fronted_def Let_def)
    moreover have "chain (fronted i (bufs t)) (bhead # i # rev [0..<i] @ [bhead])"
      using t i by (intro fronted_chain) (auto simp: lists_of_def bhead_def)
    moreover have "same_core (bufs s x) (fronted i (bufs t) x)" for x
      using t unfolding fronted_def Let_def by (simp only: link_core) (simp add: lists_of_def)
    moreover have "quiet ?t1" using t by (intro quiet_initlock) (simp add: lists_of_def)
    moreover have "set_up s ?u" using t unfolding upd_lock_def by (intro set_up_upd) (simp add: lists_of_def)
    ultimately show ?thesis using t
      by (intro exI [of _ ?u]) (auto simp: lists_of_def less_Suc_eq upd_lock_def cid_def)
  qed
  have "quiet ?s0" using e by (intro quiet_initlock) (simp add: bio_env_def)
  moreover have "same_core (bufs s x) (setn bhead bhead (setp bhead bhead (bufs ?s0)) x)" for x
    by (simp only: link_core) (simp add: upd_lock_def)
  moreover have "set_up s ?s1" by (simp add: set_up_def upd_lock_def)
  ultimately have "lists_of p s 0 ?s1" using e by (simp add: lists_of_def bio_env_def upd_lock_def follows_def cid_def)
  then obtain t where "eachK ?f [0..<NBUF] ?s1 = Ret () t" "lists_of p s NBUF t"
    using eachK_upt [of NBUF "lists_of p s" ?f ?s1] step by blast
  moreover have "binit s = eachK ?f [0..<NBUF] ?s1"
    by (simp add: binit_def initlock_def set_next_eq set_prev_eq)
  ultimately show ?thesis by simp
qed

lemma binit_ok:
  assumes e: "bio_env p s" and f: "\<forall>b < NBUF. fresh_buf (bufs s b)"
  shows "\<exists>t. binit s = Ret () t \<and> set_up s t \<and> bcache p (\<lambda>_. 0) Map.empty (\<lambda>bn. vd_sectors (vdisk s) (sector_of bn)) (vd_sectors (vdisk s)) (vd_trace (vdisk s)) t"
proof -
  obtain t where t: "binit s = Ret () t" "lists_of p s NBUF t" using binit_spec [OF e] by blast
  have b: "b_dev (bufs t b) = 0" "b_refcnt (bufs t b) = 0" if "b < NBUF" for b
    using t(2) f that by (auto simp: lists_of_def same_core_def fresh_buf_def)
  have "linked (bufs t) (rev [0..<NBUF])" using t(2) by (auto simp: linked_def lists_of_def)
  then have "cache p (\<lambda>_. 0) (dom Map.empty) t"
    using t(2) e b by (auto simp: cache_def lists_of_def bio_env_def one_copy_def buf_ok_def)
  moreover have "look t bn = vd_sectors (vdisk s) (sector_of bn)" for bn
    using look_uncached [of bn t] b t(2) by (simp add: matches_def lists_of_def)
  ultimately show ?thesis using t by (simp add: bcache_def lists_of_def)
qed

text \<open>
  C29: \<open>bread\<close> returns a locked buffer with the contents of the block as the kernel last wrote them, from the cache or
  from the disk, and leaves every other block and the disk as they were.
\<close>

theorem bread_returns_block:
  assumes "bcache p R H C D T s" and "bn \<notin> ran H" and "bn < 2 ^ 31" and "R bn + 1 \<noteq> 0"
    and "\<forall>x \<in> ran H. R x \<noteq> 0" and "R bn \<noteq> 0 \<or> card {bn. R bn \<noteq> 0} < NBUF"
  shows "\<exists>b t. bread 1 bn s = Ret b t \<and> b_blockno (bufs t b) = bn \<and> b_data (bufs t b) = C bn \<and> H b = None \<and>
    bcache p (R(bn := R bn + 1)) (H(b \<mapsto> bn)) C D T t"
proof -
  obtain b t where t: "bread 1 bn s = Ret b t" "H b = None" "bcache p (R(bn := R bn + 1)) (H(b \<mapsto> bn)) C D T t"
    using bread_ok [OF assms] by blast
  have "matches 1 bn (bufs t b)" using bcacheD(2) [OF t(3)] by simp
  then show ?thesis using t bcache_held(2) [OF t(3), of b bn] by (auto simp: matches_def)
qed

definition boot_disk :: "(u64 \<Rightarrow> block) \<Rightarrow> virtio" where
  "boot_disk D = run_as 0 (boot_virtio D (\<lambda>_. blank_buf))"

lemma boot_disk_simps [simp]:
  "bio_env 0 (boot_disk D)" "bufs (boot_disk D) = (\<lambda>_. blank_buf)" "vd_sectors (vdisk (boot_disk D)) = D" "vd_trace (vdisk (boot_disk D)) = []"
  using run_as_simps(2) [of 0 "boot_virtio D (\<lambda>_. blank_buf)"] boot_vdisk_idle [of D] demo_device_serves
  by (simp_all add: boot_disk_def bio_env_def del: run_as_simps(2)) (simp_all add: run_as_def upd_cpu_def boot_vdisk_def)

lemma fresh_blank [simp]: "fresh_buf blank_buf"
  by (simp add: fresh_buf_def blank_buf_def)

text \<open>
  C30: \<open>binit\<close> makes the zeroed buffers a circular doubly linked list of all \<open>NBUF\<close> buffers, in which no block is
  cached or referenced and every block has its contents on the disk.
\<close>

theorem binit_builds_cache:
  assumes "bio_env p s" and "\<forall>b < NBUF. fresh_buf (bufs s b)"
  shows "\<exists>t. binit s = Ret () t \<and> linked (bufs t) (rev [0..<NBUF]) \<and>
    bcache p (\<lambda>_. 0) Map.empty (\<lambda>bn. vd_sectors (vdisk s) (sector_of bn)) (vd_sectors (vdisk s)) (vd_trace (vdisk s)) t"
proof -
  obtain t where "binit s = Ret () t" "lists_of p s NBUF t" using binit_spec [OF assms(1)] by blast
  moreover from this have "linked (bufs t) (rev [0..<NBUF])" by (auto simp: linked_def lists_of_def)
  ultimately show ?thesis using binit_ok [OF assms] by auto
qed

theorem binit_builds_cache_witness: "\<exists>t. binit (boot_disk (\<lambda>_ _. 7)) = Ret () t \<and> linked (bufs t) (rev [0..<NBUF])"
  using binit_builds_cache [of 0 "boot_disk (\<lambda>_ _. 7)"] by auto

theorem bread_returns_block_witness:
  "\<exists>s b t. binit (boot_disk (\<lambda>_ _. 7)) = Ret () s \<and> bread 1 5 s = Ret b t \<and> b_data (bufs t b) = (\<lambda>_. 7)"
proof -
  obtain s where s: "binit (boot_disk (\<lambda>_ _. 7)) = Ret () s" "bcache 0 (\<lambda>_. 0) Map.empty (\<lambda>_ _. 7) (\<lambda>_ _. 7) [] s"
    using binit_ok [of 0 "boot_disk (\<lambda>_ _. 7)"] by auto
  then show ?thesis using bread_returns_block [OF s(2), of 5] by (auto simp: NBUF_def)
qed

text \<open>
  C31: \<open>brelse\<close> of the last reference to a clean block moves its buffer to the front of the list, keeps the list
  circular with every buffer in it once, and unlocks the buffer.
\<close>

theorem brelse_moves_to_front:
  assumes "bcache p R H C D T s" and "H b = Some bn" and "R bn = 1" and "C bn = D (sector_of bn)" and "linked (bufs s) xs"
  shows "\<exists>t. brelse b s = Ret () t \<and> linked (bufs t) (b # remove1 b xs) \<and> bcache p (R(bn := 0)) (H(b := None)) C D T t"
proof -
  have e: "bio_env p s" by (rule cacheD(1) [OF bcacheD(1) [OF assms(1)]])
  let ?bs = "(bufs s)(b := (bufs s b)\<lparr>b_refcnt := 0\<rparr>)"
  have b: "b < NBUF" using bcacheD(2) [OF assms(1,2)] by simp
  have "linked ?bs xs" by (rule linked_cong [OF assms(5)]) auto
  then have "linked (released b (bufs s)) (b # remove1 b xs)"
    using relinked [of ?bs xs b] b bcache_held(3) [OF assms(1,2)] assms(3) by (simp add: released_def Let_def)
  then show ?thesis using brelse_held [OF e bcache_held(4,5) [OF assms(1,2)]] brelse_ok [OF assms(1,2)] assms(3,4) by auto
qed

theorem brelse_moves_to_front_witness:
  "\<exists>s b t u. binit (boot_disk (\<lambda>_ _. 7)) = Ret () s \<and> bread 1 5 s = Ret b t \<and> brelse b t = Ret () u \<and> (\<exists>xs. linked (bufs u) (b # xs))"
proof -
  obtain s where s: "binit (boot_disk (\<lambda>_ _. 7)) = Ret () s" "bcache 0 (\<lambda>_. 0) Map.empty (\<lambda>_ _. 7) (\<lambda>_ _. 7) [] s"
    using binit_ok [of 0 "boot_disk (\<lambda>_ _. 7)"] by auto
  obtain b t where t: "bread 1 5 s = Ret b t" "bcache 0 ((\<lambda>_. 0)(5 := 1)) [b \<mapsto> 5] (\<lambda>_ _. 7) (\<lambda>_ _. 7) [] t"
    using bread_ok [OF s(2), of 5] by (auto simp: NBUF_def)
  obtain xs where "linked (bufs t) xs" using cacheD(2) [OF bcacheD(1) [OF t(2)]] by blast
  then show ?thesis using s t brelse_moves_to_front [OF t(2), of b 5 xs] by auto
qed

end
