(* ===== verification/Log.thy ===== *)
theory Log
  imports Bio
begin

text \<open>
  The write-ahead log \<^verbatim>\<open>kernel/log.c\<close>. The header block holds the number of logged blocks and their
  numbers as little-endian integers. A process that has to wait in \<open>begin_op\<close> sleeps and starts its
  loop again. The second half shows crash safety: the disk after every write of a commit, and what recovery makes
  of each of them.
\<close>

section \<open>State\<close>

definition MAXOPBLOCKS :: int where
  "MAXOPBLOCKS = 10"

definition LOGSIZE :: int where
  "LOGSIZE = MAXOPBLOCKS * 3"

record logheader =
  lh_n :: int
  lh_block :: "nat \<Rightarrow> u32"

record logstate =
  log_start :: u32
  log_size :: int
  log_outstanding :: int
  log_committing :: bool
  log_dev :: u32
  lh :: logheader

record superblock =
  sb_magic :: u32
  sb_size :: u32
  sb_nblocks :: u32
  sb_ninodes :: u32
  sb_nlog :: u32
  sb_logstart :: u32
  sb_inodestart :: u32
  sb_bmapstart :: u32

record logging = virtio +
  log :: logstate

definition upd_log :: "(logstate \<Rightarrow> logstate) \<Rightarrow> 'z logging_scheme \<Rightarrow> 'z logging_scheme" where
  "upd_log f s = s\<lparr>log := f (log s)\<rparr>"

text \<open>The \<open>k\<close>-th 32-bit word of a block.\<close>

definition word_at :: "block \<Rightarrow> nat \<Rightarrow> u32" where
  "word_at x k = le_word (get_bytes x (of_nat (4 * k)) 4)"

definition put_word :: "nat \<Rightarrow> u32 \<Rightarrow> block \<Rightarrow> block" where
  "put_word k v x = put_bytes x (of_nat (4 * k)) (le_bytes 4 v)"

section \<open>Operations\<close>

definition install_trans :: "(unit, 'z logging_scheme) kop" where
  "install_trans =
     bindK (getK log) (\<lambda>l.
     eachK (\<lambda>tail.
       bindK (bread (log_dev l) (log_start l + of_nat tail + 1)) (\<lambda>lbuf.
       bindK (bread (log_dev l) (lh_block (lh l) tail)) (\<lambda>dbuf.
       bindK (bdata lbuf) (\<lambda>x.
       thenK (set_bdata dbuf x) (
       thenK (bwrite dbuf) (
       thenK (bunpin dbuf) (
       thenK (brelse lbuf)
             (brelse dbuf)))))))) [0..<nat (lh_n (lh l))])"

definition read_head :: "(unit, 'z logging_scheme) kop" where
  "read_head =
     bindK (getK log) (\<lambda>l.
     bindK (bread (log_dev l) (log_start l)) (\<lambda>b.
     bindK (bdata b) (\<lambda>x.
     thenK (modK (upd_log (\<lambda>l. l\<lparr>lh := (lh l)\<lparr>lh_n := sint (word_at x 0)\<rparr>\<rparr>))) (
     thenK (eachK (\<lambda>i. modK (upd_log (\<lambda>l. l\<lparr>lh := (lh l)\<lparr>lh_block := (lh_block (lh l))(i := word_at x (i + 1))\<rparr>\<rparr>)))
              [0..<nat (sint (word_at x 0))])
           (brelse b)))))"

definition write_head :: "(unit, 'z logging_scheme) kop" where
  "write_head =
     bindK (getK log) (\<lambda>l.
     bindK (bread (log_dev l) (log_start l)) (\<lambda>b.
     bindK (bdata b) (\<lambda>x.
     thenK (set_bdata b (fold (\<lambda>i. put_word (i + 1) (lh_block (lh l) i)) [0..<nat (lh_n (lh l))]
                           (put_word 0 (word_of_int (lh_n (lh l))) x))) (
     thenK (bwrite b)
           (brelse b)))))"

definition clear_lh :: "(unit, 'z logging_scheme) kop" where
  "clear_lh = modK (upd_log (\<lambda>l. l\<lparr>lh := (lh l)\<lparr>lh_n := 0\<rparr>\<rparr>))"

definition recover_from_log :: "(unit, 'z logging_scheme) kop" where
  "recover_from_log =
     thenK read_head (
     thenK install_trans (
     thenK clear_lh
           write_head))"

definition initlog :: "u32 \<Rightarrow> superblock \<Rightarrow> (unit, 'z logging_scheme) kop" where
  "initlog dev sb =
     (if 4 + 4 * LOGSIZE \<ge> int BSIZE then panicK ''initlog: too big logheader''
      else thenK (initlock Log_lock ''log'') (
           thenK (modK (upd_log (\<lambda>l. l\<lparr>log_start := sb_logstart sb, log_size := sint (sb_nlog sb), log_dev := dev\<rparr>)))
                 recover_from_log))"

definition begin_op_loop :: "(unit, 'z logging_scheme) kop" where
  "begin_op_loop =
     bindK (getK log) (\<lambda>l.
     if log_committing l then sleep Ch_log Log_lock
     else if lh_n (lh l) + (log_outstanding l + 1) * MAXOPBLOCKS > LOGSIZE then sleep Ch_log Log_lock
     else thenK (modK (upd_log (\<lambda>l. l\<lparr>log_outstanding := log_outstanding l + 1\<rparr>)))
                (release Log_lock))"

definition begin_op :: "(unit, 'z logging_scheme) kop" where
  "begin_op = thenK (acquire Log_lock) begin_op_loop"

definition write_log :: "(unit, 'z logging_scheme) kop" where
  "write_log =
     bindK (getK log) (\<lambda>l.
     eachK (\<lambda>tail.
       bindK (bread (log_dev l) (log_start l + of_nat tail + 1)) (\<lambda>to.
       bindK (bread (log_dev l) (lh_block (lh l) tail)) (\<lambda>from.
       bindK (bdata from) (\<lambda>x.
       thenK (set_bdata to x) (
       thenK (bwrite to) (
       thenK (brelse from)
             (brelse to))))))) [0..<nat (lh_n (lh l))])"

definition commit :: "(unit, 'z logging_scheme) kop" where
  "commit =
     bindK (getK (\<lambda>s. lh_n (lh (log s)) > 0)) (\<lambda>some.
     whenK some
       (thenK write_log (
        thenK write_head (
        thenK install_trans (
        thenK clear_lh
              write_head)))))"

definition end_op :: "(unit, 'z logging_scheme) kop" where
  "end_op =
     thenK (acquire Log_lock) (
     thenK (modK (upd_log (\<lambda>l. l\<lparr>log_outstanding := log_outstanding l - 1\<rparr>))) (
     bindK (getK (\<lambda>s. log_committing (log s))) (\<lambda>committing.
     if committing then panicK ''log.committing''
     else bindK (getK (\<lambda>s. log_outstanding (log s) = 0)) (\<lambda>do_commit.
          thenK (if do_commit then modK (upd_log (\<lambda>l. l\<lparr>log_committing := True\<rparr>)) else wakeup Ch_log) (
          thenK (release Log_lock) (
          whenK do_commit
            (thenK commit (
             thenK (acquire Log_lock) (
             thenK (modK (upd_log (\<lambda>l. l\<lparr>log_committing := False\<rparr>))) (
             thenK (wakeup Ch_log)
                   (release Log_lock)))))))))))"

definition log_write :: "nat \<Rightarrow> (unit, 'z logging_scheme) kop" where
  "log_write b =
     bindK (getK log) (\<lambda>l.
     if lh_n (lh l) \<ge> LOGSIZE \<or> lh_n (lh l) \<ge> log_size l - 1 then panicK ''too big a transaction''
     else if log_outstanding l < 1 then panicK ''log_write outside of trans''
     else thenK (acquire Log_lock) (
          bindK (getK (\<lambda>s. b_blockno (bufs s b))) (\<lambda>bn.
          bindK (getK (\<lambda>s. let n = nat (lh_n (lh (log s))) in
                   case find (\<lambda>i. lh_block (lh (log s)) i = bn) [0..<n] of None \<Rightarrow> n | Some i \<Rightarrow> i)) (\<lambda>i.
          thenK (modK (upd_log (\<lambda>l. l\<lparr>lh := (lh l)\<lparr>lh_block := (lh_block (lh l))(i := bn)\<rparr>\<rparr>))) (
          bindK (getK (\<lambda>s. int i = lh_n (lh (log s)))) (\<lambda>new.
          thenK (whenK new
                   (thenK (bpin b)
                          (modK (upd_log (\<lambda>l. l\<lparr>lh := (lh l)\<lparr>lh_n := lh_n (lh l) + 1\<rparr>\<rparr>)))))
                (release Log_lock)))))))"

section \<open>Lock steps\<close>

lemma log_acq [simp]:
  "log (acq l s) = log s" "(acq l s)\<lparr>log := x\<rparr> = acq l (s\<lparr>log := x\<rparr>)"
  "quiet (s\<lparr>log := x\<rparr>) = quiet s" "cpu_ok (s\<lparr>log := x\<rparr>) = cpu_ok s" "cid (s\<lparr>log := x\<rparr>) = cid s"
  "lock_free l (s\<lparr>log := x\<rparr>) = lock_free l s" "proc_locks_free (s\<lparr>log := x\<rparr>) = proc_locks_free s"
  by (simp_all add: acq_def upd_lock_def pushed_def cid_def intr_enabled_def quiet_def cpu_ok_def lock_free_def proc_locks_free_def)

definition boot_log :: logstate where
  "boot_log = \<lparr>log_start = 2, log_size = 30, log_outstanding = 0, log_committing = False, log_dev = 1,
     lh = \<lparr>lh_n = 0, lh_block = (\<lambda>_. 0)\<rparr>\<rparr>"

section \<open>Log space\<close>



definition boot_logging :: logging where
  "boot_logging = virtio.extend (boot_virtio (\<lambda>_ _. 0) (\<lambda>_. blank_buf)) (logging.fields boot_log)"

lemma boot_logging_simps [simp]: "quiet boot_logging" "log boot_logging = boot_log"
  by (simp_all add: boot_logging_def boot_virtio_def boot_console_def boot_kmem_def boot_sleeplocks_def
      sleeplocks.defs kmem.defs vm.defs image.defs uart.defs kprint.defs console.defs virtio.defs logging.defs
      quiet_def cpu_ok_def lock_free_def intr_enabled_def cid_def SSTATUS_SIE_def)



section \<open>Blocks as bytes and words\<close>

definition put_at :: "10 word \<Rightarrow> nat \<Rightarrow> byte list \<Rightarrow> block \<Rightarrow> block" where
  "put_at a j bs x = put_bytes x (a + of_nat j) bs"

definition get_at :: "10 word \<Rightarrow> nat \<Rightarrow> nat \<Rightarrow> block \<Rightarrow> byte list" where
  "get_at a i n x = get_bytes x (a + of_nat i) n"

lemma region_at: "i + n \<le> 1024 \<Longrightarrow> in_region (a + of_nat i :: 10 word) n b \<longleftrightarrow> i \<le> unat (b - a) \<and> unat (b - a) < i + n"
proof -
  assume n: "i + n \<le> 1024"
  define c where "c = b - a"
  have e: "b - (a + of_nat i) = c - of_nat i" by (simp add: c_def)
  show ?thesis
  proof (cases "n = 0")
    case False
    then have i: "unat (of_nat i :: 10 word) = i" using n by (simp add: unsigned_of_nat take_bit_eq_mod)
    show ?thesis
    proof (cases "i \<le> unat c")
      case True
      then have "(of_nat i :: 10 word) \<le> c" by (simp add: word_le_nat_alt i)
      then have "unat (c - of_nat i) = unat c - i" by (simp add: unat_sub i)
      then show ?thesis using True by (auto simp: in_region_def e c_def [symmetric])
    next
      case False
      have "unat (c - of_nat i) = 1024 + unat c - i"
        using False n unsigned_less [of c] by (simp add: unat_sub_if' i word_le_nat_alt)
      then show ?thesis using False n by (auto simp: in_region_def e c_def [symmetric])
    qed
  qed (auto simp: in_region_def)
qed

lemma get_at_same: "length bs \<le> 1024 \<Longrightarrow> get_at a i (length bs) (put_at a i bs x) = bs"
  unfolding get_at_def put_at_def by (rule get_put_bytes) simp

lemma get_at_other:
  assumes "i + n \<le> j \<or> j + length bs \<le> i" and "i + n \<le> 1024" and "j + length bs \<le> 1024"
  shows "get_at a i n (put_at a j bs x) = get_at a i n x"
  unfolding get_at_def
proof (rule get_bytes_cong)
  fix b assume "in_region (a + of_nat i) n b"
  then have "\<not> in_region (a + of_nat j) (length bs) b" using assms by (simp add: region_at) linarith
  then show "put_at a j bs x b = x b" unfolding put_at_def using assms(3) by (simp add: put_bytes_apply)
qed (use assms in simp)


lemma word_of_bytes [simp]:
  "le_word (le_bytes 2 v) = (v :: u16)" "le_word (le_bytes 4 w) = (w :: u32)"
  by (simp_all add: le_word_le_bytes take_bit_word_full)

lemma word_at_put_word:
  assumes "j < 256" "k < 256"
  shows "word_at (put_word k v x) j = (if j = k then v else word_at x j)"
proof (cases "j = k")
  case True
  then show ?thesis using get_at_same [of "le_bytes 4 v" 0 "4 * k" x] by (simp add: word_at_def put_word_def get_at_def put_at_def)
next
  case False
  then have "4 * j + 4 \<le> 4 * k \<or> 4 * k + 4 \<le> 4 * j" by arith
  then show ?thesis using get_at_other [of "4 * j" 4 "4 * k" "le_bytes 4 v" 0 x] assms False
    by (simp add: word_at_def put_word_def get_at_def put_at_def)
qed

text \<open>The header block that \<open>write_head\<close> writes.\<close>

definition head_block :: "logheader \<Rightarrow> block \<Rightarrow> block" where
  "head_block h x = fold (\<lambda>i. put_word (i + 1) (lh_block h i)) [0..<nat (lh_n h)] (put_word 0 (word_of_int (lh_n h)) x)"

lemma head_words:
  "n \<le> 255 \<Longrightarrow> j < 256 \<Longrightarrow> word_at (fold (\<lambda>i. put_word (i + 1) (f i)) [0..<n] x) j =
     (if 0 < j \<and> j \<le> n then f (j - 1) else word_at x j)"
proof (induction n)
  case (Suc n)
  then show ?case by (auto simp: word_at_put_word)
qed auto

lemma head_block_words:
  assumes "0 \<le> lh_n h" "lh_n h \<le> LOGSIZE"
  shows "sint (word_at (head_block h x) 0) = lh_n h" and "i < nat (lh_n h) \<Longrightarrow> word_at (head_block h x) (Suc i) = lh_block h i"
proof -
  have n: "nat (lh_n h) \<le> 255" "lh_n h \<le> 30" using assms by (simp_all add: LOGSIZE_def MAXOPBLOCKS_def)
  show "i < nat (lh_n h) \<Longrightarrow> word_at (head_block h x) (Suc i) = lh_block h i"
    using head_words [of "nat (lh_n h)" "Suc i" "lh_block h"] n(1) by (simp add: head_block_def)
  have "word_at (head_block h x) 0 = word_of_int (lh_n h)"
    using head_words [of "nat (lh_n h)" 0 "lh_block h"] n(1) by (simp add: head_block_def word_at_put_word)
  moreover have "sint (word_of_int (lh_n h) :: u32) = lh_n h"
    using n(2) assms(1) by (simp add: sint_sbintrunc' signed_take_bit_int_eq_self)
  ultimately show "sint (word_at (head_block h x) 0) = lh_n h" by simp
qed

section \<open>Writes\<close>

text \<open>The contents of the blocks, and of the disk, after a list of block writes.\<close>

definition after :: "(u32 \<times> block) list \<Rightarrow> (u32 \<Rightarrow> block) \<Rightarrow> u32 \<Rightarrow> block" where
  "after ws C = fold (\<lambda>(bn, x) C. C(bn := x)) ws C"

definition on_disk :: "(u32 \<times> block) list \<Rightarrow> (u64 \<Rightarrow> block) \<Rightarrow> u64 \<Rightarrow> block" where
  "on_disk ws D = fold (\<lambda>(bn, x) D. D(sector_of bn := x)) ws D"

definition sectors_of :: "(u32 \<times> block) list \<Rightarrow> (u64 \<times> block) list" where
  "sectors_of ws = map (\<lambda>(bn, x). (sector_of bn, x)) ws"

lemma writes_append [simp]:
  "after (ws @ vs) C = after vs (after ws C)" "on_disk (ws @ vs) D = on_disk vs (on_disk ws D)"
  "sectors_of (ws @ vs) = sectors_of ws @ sectors_of vs"
  "after [] C = C" "on_disk [] D = D" "sectors_of [] = []"
  "after ((bn, x) # vs) C = after vs (C(bn := x))" "on_disk ((bn, x) # vs) D = on_disk vs (D(sector_of bn := x))"
  "sectors_of ((bn, x) # vs) = (sector_of bn, x) # sectors_of vs"
  by (simp_all add: after_def on_disk_def sectors_of_def)

lemma after_other: "bn \<notin> fst ` set ws \<Longrightarrow> after ws C bn = C bn"
  by (induction ws arbitrary: C) auto

lemma after_same: "(\<And>x. (bn, x) \<in> set ws \<Longrightarrow> x = v) \<Longrightarrow> bn \<in> fst ` set ws \<Longrightarrow> after ws C bn = v"
proof (induction ws rule: rev_induct)
  case (snoc w ws)
  obtain b x where w: "w = (b, x)" by (cases w)
  show ?case
  proof (cases "b = bn")
    case True
    then show ?thesis using snoc.prems(1) [of x] by (simp add: w)
  next
    case False
    then have "after ws C bn = v" using snoc by (auto simp: w)
    then show ?thesis using False by (simp add: w)
  qed
qed simp

lemma on_disk_blocks:
  "\<forall>w \<in> set ws. fst w < 2 ^ 31 \<Longrightarrow> bn < 2 ^ 31 \<Longrightarrow> on_disk ws D (sector_of bn) = after ws (\<lambda>bn. D (sector_of bn)) bn"
proof (induction ws rule: rev_induct)
  case (snoc w ws)
  then show ?case by (cases w) (auto simp: sector_of_inj)
qed simp

text \<open>\<open>stored p R C D T ws s\<close>: after the writes \<open>ws\<close>, no buffer is locked.\<close>

definition stored :: "nat \<Rightarrow> (u32 \<Rightarrow> u32) \<Rightarrow> (u32 \<Rightarrow> block) \<Rightarrow> (u64 \<Rightarrow> block) \<Rightarrow> (u64 \<times> block) list \<Rightarrow> (u32 \<times> block) list \<Rightarrow> 'z virtio_scheme \<Rightarrow> bool" where
  "stored p R C D T ws s \<longleftrightarrow> bcache p R Map.empty (after ws C) (on_disk ws D) (T @ sectors_of ws) s"

lemma rest_log: "rest_same s t \<Longrightarrow> log t = log s"
proof -
  assume "rest_same s t"
  then obtain B d L ps where "t = s\<lparr>bufs := B, vdisk := d, slocks := L, procs := ps\<rparr>" unfolding rest_same_def by blast
  then show ?thesis by simp
qed

lemma rest_refl [simp]: "rest_same s s"
  by (simp add: rest_same_def)

lemma look_log [simp]: "look (s\<lparr>log := l\<rparr>) = look s"
  by (simp add: look_def fun_eq_iff split: option.split)

lemma bcache_log [simp]: "bcache p R H C D T (s\<lparr>log := l\<rparr>) = bcache p R H C D T s"
  by (simp add: bcache_def cache_def bio_env_def)

lemma stored_log [simp]: "stored p R C D T ws (s\<lparr>log := l\<rparr>) = stored p R C D T ws s"
  by (simp add: stored_def)

section \<open>One round of the loops\<close>

lemma room_two:
  assumes "card ({x. R x \<noteq> 0} \<union> {a, b}) \<le> NBUF" and "R a = 0" and "(a :: u32) \<noteq> b"
  shows "card {x. R x \<noteq> (0 :: u32)} < NBUF" and "R b \<noteq> 0 \<or> card {x. (R(a := R a + 1)) x \<noteq> 0} < NBUF"
proof -
  have "{x. R x \<noteq> 0} \<subset> {x. R x \<noteq> 0} \<union> {a, b}" using assms(2) by auto
  then have "card {x. R x \<noteq> 0} < card ({x. R x \<noteq> 0} \<union> {a, b})" by (intro psubset_card_mono) simp_all
  then show "card {x. R x \<noteq> 0} < NBUF" using assms(1) by simp
  show "R b \<noteq> 0 \<or> card {x. (R(a := R a + 1)) x \<noteq> 0} < NBUF"
  proof (cases "R b = 0")
    case True
    then have "{x. (R(a := R a + 1)) x \<noteq> 0} \<subset> {x. R x \<noteq> 0} \<union> {a, b}" using assms(2,3) by auto
    then have "card {x. (R(a := R a + 1)) x \<noteq> 0} < card ({x. R x \<noteq> 0} \<union> {a, b})" by (intro psubset_card_mono) simp_all
    then show ?thesis using assms(1) by simp
  qed simp
qed

lemma two_reads:
  assumes c: "bcache p R Map.empty C D T s" and a: "a < 2 ^ 31" "R a = 0" and b: "b < 2 ^ 31" "R b + 1 \<noteq> 0" and ab: "a \<noteq> b"
    and room: "card ({x. R x \<noteq> 0} \<union> {a, b}) \<le> NBUF"
  shows "\<exists>i j t u. bread 1 a s = Ret i t \<and> bread 1 b t = Ret j u \<and> i \<noteq> j \<and> rest_same s u \<and>
    bcache p (R(a := 1, b := R b + 1)) [i \<mapsto> a, j \<mapsto> b] C D T u"
proof -
  note rm = room_two [OF room a(2) ab]
  obtain i t where t: "bread 1 a s = Ret i t" "bcache p (R(a := R a + 1)) [i \<mapsto> a] C D T t" "rest_same s t"
    using bread_ok [OF c, of a] a rm(1) by auto
  obtain j u where u: "bread 1 b t = Ret j u" "[i \<mapsto> a] j = None" "rest_same t u"
    "bcache p (R(a := R a + 1, b := (R(a := R a + 1)) b + 1)) [i \<mapsto> a, j \<mapsto> b] C D T u"
  proof -
    have "\<exists>j u. bread 1 b t = Ret j u \<and> [i \<mapsto> a] j = None \<and>
      bcache p (R(a := R a + 1, b := (R(a := R a + 1)) b + 1)) [i \<mapsto> a, j \<mapsto> b] C D T u \<and> rest_same t u"
      by (rule bread_ok [OF t(2)]) (use a b ab rm(2) in \<open>auto simp: ran_def\<close>)
    then show ?thesis using that by blast
  qed
  then show ?thesis using t ab a(2) rest_trans [OF t(3) u(3)] by (intro exI conjI) (auto split: if_splits)
qed

lemma log_round:
  assumes c: "bcache p R Map.empty C D T s" and a: "a < 2 ^ 31" "R a = 0" and b: "b < 2 ^ 31" "R b + 1 \<noteq> 0" "R b \<noteq> 0" and ab: "a \<noteq> b"
    and room: "card ({x. R x \<noteq> 0} \<union> {a, b}) \<le> NBUF"
  shows "\<exists>t. bindK (bread 1 a) (\<lambda>to. bindK (bread 1 b) (\<lambda>from. bindK (bdata from) (\<lambda>x.
      thenK (set_bdata to x) (thenK (bwrite to) (thenK (brelse from) (brelse to)))))) s = Ret () t \<and> rest_same s t \<and>
    bcache p R Map.empty (C(a := C b)) (D(sector_of a := C b)) (T @ [(sector_of a, C b)]) t"
proof -
  let ?C = "C(a := C b)" and ?D = "D(sector_of a := C b)" and ?T = "T @ [(sector_of a, C b)]"
  obtain i j s1 s2 where r: "bread 1 a s = Ret i s1" "bread 1 b s1 = Ret j s2" "i \<noteq> j" "rest_same s s2"
      "bcache p (R(a := 1, b := R b + 1)) [i \<mapsto> a, j \<mapsto> b] C D T s2"
    using two_reads [OF c a b(1,2) ab room] by blast
  obtain s3 where s3: "set_bdata i (C b) s2 = Ret () s3" "bcache p (R(a := 1, b := R b + 1)) [i \<mapsto> a, j \<mapsto> b] ?C D T s3" "rest_same s2 s3"
    using set_bdata_ok [OF r(5), of i a "C b"] r(3) ab by auto
  obtain s4 where s4: "bwrite i s3 = Ret () s4" "rest_same s3 s4" "bcache p (R(a := 1, b := R b + 1)) [i \<mapsto> a, j \<mapsto> b] ?C ?D ?T s4"
    using bwrite_ok [OF s3(2), of i a] r(3) by auto
  obtain s5 where s5: "brelse j s4 = Ret () s5" "bcache p (R(a := 1, b := R b)) [i \<mapsto> a] ?C ?D ?T s5" "rest_same s4 s5"
    using brelse_ok [OF s4(3), of j b] r(3) b(3) by (auto simp: fun_upd_twist)
  obtain s6 where s6: "brelse i s5 = Ret () s6" "bcache p (R(a := 0, b := R b)) Map.empty ?C ?D ?T s6" "rest_same s5 s6"
    using brelse_ok [OF s5(2), of i a] ab by (auto simp: fun_upd_twist)
  have R: "R(a := 0, b := R b) = R" using a(2) by auto
  have "rest_same s s6" using rest_trans [OF rest_trans [OF rest_trans [OF rest_trans [OF r(4) s3(3)] s4(2)] s5(3)] s6(3)] .
  then show ?thesis using r(1,2) s3(1) s4(1) s5(1) s6(1,2) bdata_ok [OF r(5), of j b] R by (intro exI [of _ s6]) simp
qed

lemma install_round:
  assumes c: "bcache p R Map.empty C D T s" and a: "a < 2 ^ 31" "R a = 0" and b: "b < 2 ^ 31" "R b + 1 \<noteq> 0" and ab: "a \<noteq> b"
    and room: "card ({x. R x \<noteq> 0} \<union> {a, b}) \<le> NBUF"
  shows "\<exists>t. bindK (bread 1 a) (\<lambda>lbuf. bindK (bread 1 b) (\<lambda>dbuf. bindK (bdata lbuf) (\<lambda>x.
      thenK (set_bdata dbuf x) (thenK (bwrite dbuf) (thenK (bunpin dbuf) (thenK (brelse lbuf) (brelse dbuf))))))) s = Ret () t \<and> rest_same s t \<and>
    bcache p (R(b := R b - 1)) Map.empty (C(b := C a)) (D(sector_of b := C a)) (T @ [(sector_of b, C a)]) t"
proof -
  let ?C = "C(b := C a)" and ?D = "D(sector_of b := C a)" and ?T = "T @ [(sector_of b, C a)]"
  obtain i j s1 s2 where r: "bread 1 a s = Ret i s1" "bread 1 b s1 = Ret j s2" "i \<noteq> j" "rest_same s s2"
      "bcache p (R(a := 1, b := R b + 1)) [i \<mapsto> a, j \<mapsto> b] C D T s2"
    using two_reads [OF c a b ab room] by blast
  obtain s3 where s3: "set_bdata j (C a) s2 = Ret () s3" "bcache p (R(a := 1, b := R b + 1)) [i \<mapsto> a, j \<mapsto> b] ?C D T s3" "rest_same s2 s3"
    using set_bdata_ok [OF r(5), of j b "C a"] b(2) by auto
  obtain s4 where s4: "bwrite j s3 = Ret () s4" "rest_same s3 s4" "bcache p (R(a := 1, b := R b + 1)) [i \<mapsto> a, j \<mapsto> b] ?C ?D ?T s4"
    using bwrite_ok [OF s3(2), of j b] by auto
  obtain s5 where s5: "bunpin j s4 = Ret () s5" "bcache p (R(a := 1, b := R b)) [i \<mapsto> a, j \<mapsto> b] ?C ?D ?T s5" "rest_same s4 s5"
    using bunpin_ok [OF s4(3), of j b] by auto
  have "?C a = ?D (sector_of a)" using bcache_clean [OF c a(2,1)] sector_of_inj [OF a(1) b(1)] ab by simp
  then obtain s6 where s6: "brelse i s5 = Ret () s6" "bcache p (R(a := 0, b := R b)) [j \<mapsto> b] ?C ?D ?T s6" "rest_same s5 s6"
    using brelse_ok [OF s5(2), of i a] ab r(3) by (auto simp: fun_upd_twist)
  obtain s7 where s7: "brelse j s6 = Ret () s7" "bcache p (R(a := 0, b := R b - 1)) Map.empty ?C ?D ?T s7" "rest_same s6 s7"
    using brelse_ok [OF s6(2), of j b] by auto
  have R: "R(a := 0, b := R b - 1) = R(b := R b - 1)" using a(2) by auto
  have "rest_same s s7" using rest_trans [OF rest_trans [OF rest_trans [OF rest_trans [OF rest_trans [OF r(4) s3(3)] s4(2)] s5(3)] s6(3)] s7(3)] .
  then show ?thesis using r(1,2,3) s3(1) s4(1) s5(1) s6(1) s7(1,2) bdata_ok [OF r(5), of i a] R by (intro exI [of _ s7]) simp
qed

lemma write_head_ok:
  assumes c: "bcache p R Map.empty C D T s" and l: "log_dev (log s) = 1" "log_start (log s) = a" and a: "a < 2 ^ 31" "R a = 0"
    and room: "card {x. R x \<noteq> 0} < NBUF"
  defines "x \<equiv> head_block (lh (log s)) (C a)"
  shows "\<exists>t. write_head s = Ret () t \<and> rest_same s t \<and>
    bcache p R Map.empty (C(a := x)) (D(sector_of a := x)) (T @ [(sector_of a, x)]) t"
proof -
  obtain i s1 where s1: "bread 1 a s = Ret i s1" "bcache p (R(a := 1)) [i \<mapsto> a] C D T s1" "rest_same s s1"
    using bread_ok [OF c, of a] a room by auto
  obtain s2 where s2: "set_bdata i x s1 = Ret () s2" "bcache p (R(a := 1)) [i \<mapsto> a] (C(a := x)) D T s2" "rest_same s1 s2"
    using set_bdata_ok [OF s1(2), of i a x] by auto
  obtain s3 where s3: "bwrite i s2 = Ret () s3" "rest_same s2 s3"
      "bcache p (R(a := 1)) [i \<mapsto> a] (C(a := x)) (D(sector_of a := x)) (T @ [(sector_of a, x)]) s3"
    using bwrite_ok [OF s2(2), of i a] by auto
  obtain s4 where s4: "brelse i s3 = Ret () s4" "rest_same s3 s4"
      "bcache p (R(a := 0)) Map.empty (C(a := x)) (D(sector_of a := x)) (T @ [(sector_of a, x)]) s4"
    using brelse_ok [OF s3(3), of i a] by auto
  have "R(a := 0) = R" using a(2) by auto
  moreover have "rest_same s s4" using rest_trans [OF rest_trans [OF rest_trans [OF s1(3) s2(3)] s3(2)] s4(2)] .
  ultimately show ?thesis
    using l s1(1) s2(1) s3(1) s4(1,3) bdata_ok [OF s1(2), of i a] by (intro exI [of _ s4]) (simp add: write_head_def x_def head_block_def)
qed

section \<open>The loops\<close>

text \<open>Where the log lies, and what it records.\<close>

definition log_block :: "logstate \<Rightarrow> nat \<Rightarrow> u32" where
  "log_block l i = log_start l + of_nat i + 1"

definition log_area :: "logstate \<Rightarrow> u32 set" where
  "log_area l = insert (log_start l) (log_block l ` {..<nat LOGSIZE})"

definition homes :: "logstate \<Rightarrow> u32 set" where
  "homes l = lh_block (lh l) ` {..<nat (lh_n (lh l))}"

definition log_ok :: "logstate \<Rightarrow> bool" where
  "log_ok l \<longleftrightarrow> log_dev l = 1 \<and> log_start l < 0x7fffff00 \<and> 0 \<le> lh_n (lh l) \<and> lh_n (lh l) < LOGSIZE \<and>
     inj_on (lh_block (lh l)) {..<nat (lh_n (lh l))} \<and> (\<forall>bn \<in> homes l. bn < 2 ^ 31 \<and> bn \<notin> log_area l)"

lemma log_block_props:
  assumes "log_start l < 0x7fffff00"
  shows "i < 31 \<Longrightarrow> log_block l i < 2 ^ 31" "i < 31 \<Longrightarrow> log_block l i \<noteq> log_start l"
    "i < 31 \<Longrightarrow> j < 31 \<Longrightarrow> log_block l i = log_block l j \<longleftrightarrow> i = j"
proof -
  have u: "unat (log_block l i) = unat (log_start l) + i + 1" if "i < 31" for i
  proof -
    have "unat (log_start l) < 0x7fffff00" using assms by (simp add: word_less_nat_alt)
    moreover have "unat (of_nat i :: u32) = i" using that by (simp add: unsigned_of_nat take_bit_nat_eq_self)
    ultimately show ?thesis using that by (simp add: log_block_def unat_word_ariths)
  qed
  show "i < 31 \<Longrightarrow> log_block l i < 2 ^ 31" using u [of i] assms by (simp add: word_less_nat_alt)
  show "i < 31 \<Longrightarrow> log_block l i \<noteq> log_start l" using u [of i] by (simp add: word_unat_eq_iff)
  show "i < 31 \<Longrightarrow> j < 31 \<Longrightarrow> log_block l i = log_block l j \<longleftrightarrow> i = j" using u [of i] u [of j] by (simp add: word_unat_eq_iff)
qed

definition log_refs :: "logstate \<Rightarrow> (u32 \<Rightarrow> u32) \<Rightarrow> bool" where
  "log_refs l R \<longleftrightarrow> (\<forall>bn \<in> log_area l. R bn = 0) \<and> (\<forall>bn \<in> homes l. R bn + 1 \<noteq> 0) \<and> card ({bn. R bn \<noteq> 0} \<union> homes l) < NBUF"

lemma log_okD:
  assumes l: "log_ok l" and i: "i < nat (lh_n (lh l))"
  shows "log_block l i < 2 ^ 31" "log_block l i \<in> log_area l" "lh_block (lh l) i < 2 ^ 31" "lh_block (lh l) i \<in> homes l"
    "lh_block (lh l) i \<notin> log_area l"
proof -
  have "0 \<le> lh_n (lh l)" "lh_n (lh l) < 30" using l by (simp_all add: log_ok_def LOGSIZE_def MAXOPBLOCKS_def)
  then have "nat (lh_n (lh l)) < 30" by linarith
  then have i30: "i < 30" using i by simp
  show "log_block l i < 2 ^ 31" using log_block_props(1) [of l i] l i30 by (simp add: log_ok_def)
  show "log_block l i \<in> log_area l" using i30 by (simp add: log_area_def LOGSIZE_def MAXOPBLOCKS_def)
  show "lh_block (lh l) i \<in> homes l" using i by (simp add: homes_def)
  then show "lh_block (lh l) i < 2 ^ 31" "lh_block (lh l) i \<notin> log_area l" using l by (simp_all add: log_ok_def)
qed

lemma log_room:
  assumes "card (S \<union> homes l) < NBUF" and "S' \<subseteq> S \<union> homes l" and "b \<in> homes l"
  shows "card (S' \<union> {a :: u32, b}) \<le> NBUF"
proof -
  have "card (S' \<union> {a, b}) \<le> card (insert a (S \<union> homes l))" using assms by (intro card_mono) auto
  also have "\<dots> \<le> Suc (card (S \<union> homes l))" by (simp add: card_insert_if)
  finally show ?thesis using assms(1) by simp
qed

abbreviation log_copies :: "logstate \<Rightarrow> (u32 \<Rightarrow> block) \<Rightarrow> nat \<Rightarrow> (u32 \<times> block) list" where
  "log_copies l C n \<equiv> map (\<lambda>i. (log_block l i, C (lh_block (lh l) i))) [0..<n]"

abbreviation home_copies :: "logstate \<Rightarrow> (u32 \<Rightarrow> block) \<Rightarrow> nat \<Rightarrow> (u32 \<times> block) list" where
  "home_copies l C n \<equiv> map (\<lambda>i. (lh_block (lh l) i, C (log_block l i))) [0..<n]"

lemma write_log_ok:
  assumes c: "bcache p R Map.empty C D T s" and l: "log_ok (log s)" and R: "log_refs (log s) R" and pin: "\<forall>bn \<in> homes (log s). R bn \<noteq> 0"
  shows "\<exists>t. write_log s = Ret () t \<and> rest_same s t \<and> stored p R C D T (log_copies (log s) C (nat (lh_n (lh (log s))))) t"
proof -
  let ?l = "log s"
  let ?n = "nat (lh_n (lh ?l))"
  let ?f = "\<lambda>tail. bindK (bread 1 (log_block ?l tail)) (\<lambda>to. bindK (bread 1 (lh_block (lh ?l) tail)) (\<lambda>from. bindK (bdata from) (\<lambda>x.
      thenK (set_bdata to x) (thenK (bwrite to) (thenK (brelse from) (brelse to))))))"
  let ?I = "\<lambda>i t. rest_same s t \<and> stored p R C D T (log_copies ?l C i) t"
  have "\<exists>u. ?f i t = Ret () u \<and> ?I (Suc i) u" if i: "i < ?n" and t: "?I i t" for i t
  proof -
    note o = log_okD [OF l i]
    let ?C = "after (log_copies ?l C i) C"
    have same: "?C (lh_block (lh ?l) i) = C (lh_block (lh ?l) i)"
    proof (rule after_other)
      have "log_block ?l j \<noteq> lh_block (lh ?l) i" if "j < i" for j using o(5) log_okD(2) [OF l, of j] that i by auto
      then show "lh_block (lh ?l) i \<notin> fst ` set (log_copies ?l C i)" by (simp add: image_iff) (metis atLeastLessThan_iff)
    qed
    have ne: "log_block ?l i \<noteq> lh_block (lh ?l) i" using o by metis
    have "\<exists>u. ?f i t = Ret () u \<and> rest_same t u \<and> bcache p R Map.empty (?C(log_block ?l i := ?C (lh_block (lh ?l) i)))
       ((on_disk (log_copies ?l C i) D)(sector_of (log_block ?l i) := ?C (lh_block (lh ?l) i)))
       ((T @ sectors_of (log_copies ?l C i)) @ [(sector_of (log_block ?l i), ?C (lh_block (lh ?l) i))]) u"
    proof (rule log_round)
      show "bcache p R Map.empty ?C (on_disk (log_copies ?l C i) D) (T @ sectors_of (log_copies ?l C i)) t" using t by (simp add: stored_def)
      show "card ({x. R x \<noteq> 0} \<union> {log_block ?l i, lh_block (lh ?l) i}) \<le> NBUF"
        using R o(4) by (intro log_room [of "{x. R x \<noteq> 0}" ?l]) (auto simp: log_refs_def)
    qed (use o ne R pin in \<open>auto simp: log_refs_def\<close>)
    then obtain u where u: "?f i t = Ret () u" "rest_same t u" "stored p R C D T (log_copies ?l C (Suc i)) u"
      by (auto simp: stored_def same)
    then show ?thesis using t rest_trans by blast
  qed
  moreover have "?I 0 s" using c by (simp add: stored_def)
  ultimately have "\<exists>t. eachK ?f [0..<?n] s = Ret () t \<and> ?I ?n t" by (intro eachK_upt) blast+
  moreover have "write_log s = eachK ?f [0..<?n] s" using l by (simp add: write_log_def log_ok_def log_block_def)
  ultimately show ?thesis by simp
qed

definition unpinned :: "u32 set \<Rightarrow> (u32 \<Rightarrow> u32) \<Rightarrow> u32 \<Rightarrow> u32" where
  "unpinned S R = (\<lambda>bn. if bn \<in> S then R bn - 1 else R bn)"

lemma install_trans_ok:
  assumes c: "bcache p R Map.empty C D T s" and l: "log_ok (log s)" and R: "log_refs (log s) R"
  shows "\<exists>t. install_trans s = Ret () t \<and> rest_same s t \<and>
    stored p (unpinned (homes (log s)) R) C D T (home_copies (log s) C (nat (lh_n (lh (log s))))) t"
proof -
  let ?l = "log s"
  let ?n = "nat (lh_n (lh ?l))"
  let ?b = "lh_block (lh ?l)"
  let ?f = "\<lambda>tail. bindK (bread 1 (log_block ?l tail)) (\<lambda>lbuf. bindK (bread 1 (?b tail)) (\<lambda>dbuf. bindK (bdata lbuf) (\<lambda>x.
      thenK (set_bdata dbuf x) (thenK (bwrite dbuf) (thenK (bunpin dbuf) (thenK (brelse lbuf) (brelse dbuf)))))))"
  let ?I = "\<lambda>i t. rest_same s t \<and> stored p (unpinned (?b ` {..<i}) R) C D T (home_copies ?l C i) t"
  have "\<exists>u. ?f i t = Ret () u \<and> ?I (Suc i) u" if i: "i < ?n" and t: "?I i t" for i t
  proof -
    note o = log_okD [OF l i]
    let ?C = "after (home_copies ?l C i) C"
    let ?R = "unpinned (?b ` {..<i}) R"
    have h: "?b ` {..<i} \<subseteq> homes ?l" using i by (auto simp: homes_def)
    have old: "?b i \<notin> ?b ` {..<i}" 
    proof
      assume "?b i \<in> ?b ` {..<i}"
      then obtain j where "j < i" "?b j = ?b i" by auto
      moreover have "inj_on ?b {..<?n}" using l by (simp add: log_ok_def)
      ultimately show False using i by (auto dest: inj_onD)
    qed
    have same: "?C (log_block ?l i) = C (log_block ?l i)"
    proof (rule after_other)
      have "?b j \<noteq> log_block ?l i" if "j < i" for j using o(2) log_okD(5) [OF l, of j] that i by auto
      then show "log_block ?l i \<notin> fst ` set (home_copies ?l C i)" by (simp add: image_iff) (metis atLeastLessThan_iff)
    qed
    have ne: "log_block ?l i \<noteq> ?b i" using o by metis
    have "log_block ?l i \<notin> ?b ` {..<i}" using h o(2) l by (auto simp: log_ok_def)
    then have Ra: "?R (log_block ?l i) = 0" using R o(2) by (simp add: unpinned_def log_refs_def)
    have Rb: "?R (?b i) = R (?b i)" using old by (simp add: unpinned_def)
    have "\<exists>u. ?f i t = Ret () u \<and> rest_same t u \<and> bcache p (?R(?b i := ?R (?b i) - 1)) Map.empty (?C(?b i := ?C (log_block ?l i)))
       ((on_disk (home_copies ?l C i) D)(sector_of (?b i) := ?C (log_block ?l i)))
       ((T @ sectors_of (home_copies ?l C i)) @ [(sector_of (?b i), ?C (log_block ?l i))]) u"
    proof (rule install_round)
      show "bcache p ?R Map.empty ?C (on_disk (home_copies ?l C i) D) (T @ sectors_of (home_copies ?l C i)) t" using t by (simp add: stored_def)
      show "card ({x. ?R x \<noteq> 0} \<union> {log_block ?l i, ?b i}) \<le> NBUF"
        using R o(4) h by (intro log_room [of "{x. R x \<noteq> 0}" ?l]) (auto simp: log_refs_def unpinned_def split: if_splits)
      show "?R (?b i) + 1 \<noteq> 0" using Rb R o(4) by (simp add: log_refs_def)
    qed (use o ne Ra in auto)
    moreover have "?R(?b i := ?R (?b i) - 1) = unpinned (?b ` {..<Suc i}) R"
      using old by (auto simp: unpinned_def lessThan_Suc fun_eq_iff)
    ultimately obtain u where u: "?f i t = Ret () u" "rest_same t u" "stored p (unpinned (?b ` {..<Suc i}) R) C D T (home_copies ?l C (Suc i)) u"
      by (auto simp: stored_def same)
    then show ?thesis using t rest_trans by blast
  qed
  moreover have "?I 0 s" using c by (simp add: stored_def unpinned_def)
  ultimately have "\<exists>t. eachK ?f [0..<?n] s = Ret () t \<and> ?I ?n t" by (intro eachK_upt) blast+
  moreover have "install_trans s = eachK ?f [0..<?n] s" using l by (simp add: install_trans_def log_ok_def log_block_def)
  ultimately show ?thesis by (simp add: homes_def)
qed

section \<open>Commit\<close>

lemma card_refs: "log_refs l R \<Longrightarrow> card {bn. R bn \<noteq> 0} < NBUF" "log_refs l R \<Longrightarrow> card {bn. unpinned (homes l) R bn \<noteq> 0} < NBUF"
proof -
  assume "log_refs l R"
  then have c: "card ({bn. R bn \<noteq> 0} \<union> homes l) < NBUF" by (simp add: log_refs_def)
  have "card {bn. R bn \<noteq> 0} \<le> card ({bn. R bn \<noteq> 0} \<union> homes l)" by (intro card_mono) auto
  then show "card {bn. R bn \<noteq> 0} < NBUF" using c by simp
  have "card {bn. unpinned (homes l) R bn \<noteq> 0} \<le> card ({bn. R bn \<noteq> 0} \<union> homes l)"
    by (intro card_mono) (auto simp: unpinned_def split: if_splits)
  then show "card {bn. unpinned (homes l) R bn \<noteq> 0} < NBUF" using c by simp
qed

definition cleared :: "logstate \<Rightarrow> logstate" where
  "cleared l = l\<lparr>lh := (lh l)\<lparr>lh_n := 0\<rparr>\<rparr>"

definition commit_writes :: "logstate \<Rightarrow> (u32 \<Rightarrow> block) \<Rightarrow> (u32 \<times> block) list" where
  "commit_writes l C = (let n = nat (lh_n (lh l)); x = head_block (lh l) (C (log_start l)) in
     log_copies l C n @ (log_start l, x) # map (\<lambda>i. (lh_block (lh l) i, C (lh_block (lh l) i))) [0..<n] @
     [(log_start l, head_block (lh (cleared l)) x)])"

lemma log_okH: "log_ok l \<Longrightarrow> log_start l < 2 ^ 31 \<and> log_start l \<in> log_area l \<and> log_start l \<notin> homes l"
  by (auto simp: log_ok_def log_area_def word_less_nat_alt)

lemma log_blocks:
  assumes "log_ok l" "i < nat (lh_n (lh l))"
  shows "log_block l i \<noteq> log_start l" "j < nat (lh_n (lh l)) \<Longrightarrow> log_block l i = log_block l j \<longleftrightarrow> i = j"
proof -
  have n: "0 \<le> lh_n (lh l)" "lh_n (lh l) < 30" "log_start l < 0x7fffff00" using assms by (simp_all add: log_ok_def LOGSIZE_def MAXOPBLOCKS_def)
  then have "nat (lh_n (lh l)) < 30" by linarith
  then show "log_block l i \<noteq> log_start l" "j < nat (lh_n (lh l)) \<Longrightarrow> log_block l i = log_block l j \<longleftrightarrow> i = j"
    using log_block_props(2,3) [OF n(3)] assms(2) by simp_all
qed

text \<open>What the log holds after \<open>write_log\<close> and \<open>write_head\<close>.\<close>

lemma after_log_copies:
  assumes l: "log_ok l"
  shows "i < nat (lh_n (lh l)) \<Longrightarrow> after (log_copies l C (nat (lh_n (lh l)))) C' (log_block l i) = C (lh_block (lh l) i)"
    and "bn \<notin> log_block l ` {..<n} \<Longrightarrow> after (log_copies l C n) C' bn = C' bn"
    and "k \<le> nat (lh_n (lh l)) \<Longrightarrow> after (log_copies l C k) C' (log_start l) = C' (log_start l)"
proof -
  show "i < nat (lh_n (lh l)) \<Longrightarrow> after (log_copies l C (nat (lh_n (lh l)))) C' (log_block l i) = C (lh_block (lh l) i)"
    by (rule after_same) (auto simp: log_blocks(2) [OF l] image_iff)
  show o: "bn \<notin> log_block l ` {..<n} \<Longrightarrow> after (log_copies l C n) C' bn = C' bn" for bn n
    by (rule after_other) (auto simp: image_iff)
  show "k \<le> nat (lh_n (lh l)) \<Longrightarrow> after (log_copies l C k) C' (log_start l) = C' (log_start l)"
    using log_blocks(1) [OF l] by (intro o) (metis imageE lessThan_iff less_le_trans)
qed

lemma clear_lh_eq: "clear_lh s = Ret () (s\<lparr>log := cleared (log s)\<rparr>)"
  by (simp add: clear_lh_def upd_log_def cleared_def)

text \<open>\<open>install_trans\<close> and the two steps that clear the header.\<close>

lemma install_and_clear:
  assumes c: "bcache p R Map.empty C D T s" and l: "log_ok (log s)" and R: "log_refs (log s) R"
  shows "\<exists>t. thenK install_trans (thenK clear_lh write_head) s = Ret () t \<and> log t = cleared (log s) \<and>
    stored p (unpinned (homes (log s)) R) C D T (home_copies (log s) C (nat (lh_n (lh (log s)))) @
      [(log_start (log s), head_block (lh (cleared (log s))) (C (log_start (log s))))]) t"
proof -
  let ?l = "log s" and ?R = "unpinned (homes (log s)) R"
  let ?ws = "home_copies ?l C (nat (lh_n (lh ?l)))"
  note H = log_okH [OF l]
  obtain t where t: "install_trans s = Ret () t" "rest_same s t" "stored p ?R C D T ?ws t"
    using install_trans_ok [OF c l R] by blast
  let ?t1 = "t\<lparr>log := cleared ?l\<rparr>"
  have "bcache p ?R Map.empty (after ?ws C) (on_disk ?ws D) (T @ sectors_of ?ws) ?t1" using t(3) by (simp add: stored_def)
  moreover have "after ?ws C (log_start ?l) = C (log_start ?l)"
    using H by (intro after_other) (auto simp: homes_def image_iff)
  moreover have "?R (log_start ?l) = 0" using H R by (simp add: unpinned_def log_refs_def)
  ultimately obtain u where u: "write_head ?t1 = Ret () u" "rest_same ?t1 u"
    "stored p ?R C D T (?ws @ [(log_start ?l, head_block (lh (cleared ?l)) (C (log_start ?l)))]) u"
    using write_head_ok [of p ?R "after ?ws C" "on_disk ?ws D" "T @ sectors_of ?ws" ?t1 "log_start ?l"] l H card_refs(2) [OF R]
    by (auto simp: stored_def cleared_def log_ok_def)
  then show ?thesis using t(1) rest_log [OF t(2)] rest_log [OF u(2)] by (intro exI [of _ u]) (simp add: clear_lh_eq)
qed

lemma commit_ok:
  assumes c: "bcache p R Map.empty C D T s" and l: "log_ok (log s)" and n: "0 < lh_n (lh (log s))"
    and R: "log_refs (log s) R" and pin: "\<forall>bn \<in> homes (log s). R bn \<noteq> 0"
  shows "\<exists>t. commit s = Ret () t \<and> log t = cleared (log s) \<and>
    stored p (unpinned (homes (log s)) R) C D T (commit_writes (log s) C) t"
proof -
  let ?l = "log s"
  let ?n = "nat (lh_n (lh ?l))"
  let ?x = "head_block (lh ?l) (C (log_start ?l))"
  let ?w1 = "log_copies ?l C ?n"
  let ?C2 = "(after ?w1 C)(log_start ?l := ?x)" and ?D2 = "(on_disk ?w1 D)(sector_of (log_start ?l) := ?x)"
  let ?T2 = "(T @ sectors_of ?w1) @ [(sector_of (log_start ?l), ?x)]"
  note H = log_okH [OF l]
  obtain t where t: "write_log s = Ret () t" "rest_same s t" "stored p R C D T ?w1 t"
    using write_log_ok [OF c l R pin] by blast
  obtain u where u: "write_head t = Ret () u" "rest_same t u" "bcache p R Map.empty ?C2 ?D2 ?T2 u"
    using write_head_ok [of p R "after ?w1 C" "on_disk ?w1 D" "T @ sectors_of ?w1" t "log_start ?l"] l H card_refs(1) [OF R] R t(3)
      after_log_copies(3) [OF l, of ?n C C] rest_log [OF t(2)]
    by (auto simp: stored_def log_ok_def log_refs_def)
  have lu: "log u = ?l" using rest_log [OF t(2)] rest_log [OF u(2)] by simp
  obtain v where v: "thenK install_trans (thenK clear_lh write_head) u = Ret () v" "log v = cleared ?l"
    "stored p (unpinned (homes ?l) R) ?C2 ?D2 ?T2 (home_copies ?l ?C2 ?n @ [(log_start ?l, head_block (lh (cleared ?l)) ?x)]) v"
    using install_and_clear [OF u(3)] l R by (auto simp: lu)
  have "?C2 (log_block ?l i) = C (lh_block (lh ?l) i)" if "i < ?n" for i
    using log_blocks(1) [OF l that] after_log_copies(1) [OF l that] by simp
  then have w: "home_copies ?l ?C2 ?n = map (\<lambda>i. (lh_block (lh ?l) i, C (lh_block (lh ?l) i))) [0..<?n]" by simp
  have "stored p (unpinned (homes ?l) R) C D T (commit_writes ?l C) v"
    using v(3) unfolding w by (simp add: stored_def commit_writes_def Let_def)
  then show ?thesis using t(1) u(1) v(1,2) n by (intro exI [of _ v]) (simp add: commit_def)
qed

section \<open>Recovery\<close>

text \<open>The log state that \<open>read_head\<close> takes from a header block.\<close>

definition head_read :: "block \<Rightarrow> nat \<Rightarrow> logstate \<Rightarrow> logstate" where
  "head_read x n l = l\<lparr>lh := \<lparr>lh_n = sint (word_at x 0), lh_block = (\<lambda>i. if i < n then word_at x (Suc i) else lh_block (lh l) i)\<rparr>\<rparr>"

lemma head_read_0: "l\<lparr>lh := (lh l)\<lparr>lh_n := sint (word_at x 0)\<rparr>\<rparr> = head_read x 0 l"
  by (simp add: head_read_def)

lemma read_head_ok:
  assumes c: "bcache p R Map.empty C D T s" and l: "log_dev (log s) = 1" "log_start (log s) = a" and a: "a < 2 ^ 31" "R a = 0"
    and room: "card {x. R x \<noteq> 0} < NBUF"
  shows "\<exists>t. read_head s = Ret () t \<and> bcache p R Map.empty C D T t \<and> log t = head_read (C a) (nat (sint (word_at (C a) 0))) (log s)"
proof -
  let ?x = "C a"
  let ?n = "nat (sint (word_at ?x 0))"
  obtain i s1 where s1: "bread 1 a s = Ret i s1" "bcache p (R(a := 1)) [i \<mapsto> a] C D T s1" "rest_same s s1"
    using bread_ok [OF c, of a] a room by auto
  let ?s2 = "s1\<lparr>log := head_read ?x ?n (log s1)\<rparr>"
  obtain s3 where s3: "brelse i ?s2 = Ret () s3" "rest_same ?s2 s3" "bcache p (R(a := 0)) Map.empty C D T s3"
  proof -
    have "bcache p (R(a := 1)) [i \<mapsto> a] C D T ?s2" using s1(2) by simp
    from brelse_ok [OF this, of i a] show ?thesis using that bcache_clean [OF c a(2,1)] by auto
  qed
  have "\<exists>t. eachK (\<lambda>i. modK (upd_log (\<lambda>l. l\<lparr>lh := (lh l)\<lparr>lh_block := (lh_block (lh l))(i := word_at ?x (i + 1))\<rparr>\<rparr>))) [0..<?n]
      (s1\<lparr>log := head_read ?x 0 (log s1)\<rparr>) = Ret () t \<and> t = s1\<lparr>log := head_read ?x ?n (log s1)\<rparr>"
    by (rule eachK_upt) (auto simp: upd_log_def head_read_def fun_eq_iff less_Suc_eq)
  then have "read_head s = Ret () s3"
    using s1(1) bdata_ok [OF s1(2), of i a] s3(1) l
    by (simp add: read_head_def upd_log_def head_read_0)
  moreover have "R(a := 0) = R" using a(2) by auto
  ultimately show ?thesis using s3 rest_log [OF s3(2)] rest_log [OF s1(3)] by (intro exI [of _ s3]) simp
qed

definition head_of :: "block \<Rightarrow> logstate \<Rightarrow> logstate" where
  "head_of x l = head_read x (nat (sint (word_at x 0))) l"

lemma recover_ok:
  assumes c: "bcache p (\<lambda>_. 0) Map.empty C D T s" and l: "log_dev (log s) = 1" "log_start (log s) < 0x7fffff00"
    and ok: "log_ok (head_of (C (log_start (log s))) (log s))"
  shows "\<exists>t. recover_from_log s = Ret () t \<and> (let l = head_of (C (log_start (log s))) (log s) in log t = cleared l \<and>
    stored p (unpinned (homes l) (\<lambda>_. 0)) C D T
      (home_copies l C (nat (lh_n (lh l))) @ [(log_start l, head_block (lh (cleared l)) (C (log_start l)))]) t)"
proof -
  let ?l = "head_of (C (log_start (log s))) (log s)"
  have a: "log_start (log s) < 2 ^ 31" using l(2) by (auto simp: word_less_nat_alt)
  obtain t where t: "read_head s = Ret () t" "bcache p (\<lambda>_. 0) Map.empty C D T t" "log t = ?l"
    using read_head_ok [OF c l(1) refl a] by (auto simp: NBUF_def head_of_def)
  have "card (homes ?l) \<le> nat (lh_n (lh ?l))" unfolding homes_def using card_image_le [of "{..<nat (lh_n (lh ?l))}"] by simp
  moreover have "lh_n (lh ?l) < 30" using ok by (simp add: log_ok_def LOGSIZE_def MAXOPBLOCKS_def)
  then have "nat (lh_n (lh ?l)) < NBUF" unfolding NBUF_def by linarith
  ultimately have "log_refs (log t) (\<lambda>_. 0)" by (simp add: log_refs_def t(3))
  from install_and_clear [OF t(2) _ this] ok show ?thesis
    by (auto simp: recover_from_log_def t(1,3) Let_def)
qed

section \<open>Crashes\<close>

text \<open>The disk after some of the writes it was sent.\<close>

definition played :: "(u64 \<times> block) list \<Rightarrow> (u64 \<Rightarrow> block) \<Rightarrow> u64 \<Rightarrow> block" where
  "played tr D = fold (\<lambda>(sec, x) D. D(sec := x)) tr D"

lemma played_on_disk: "played (sectors_of ws) D = on_disk ws D"
  by (induction ws arbitrary: D) (auto simp: played_def on_disk_def sectors_of_def)

lemma after_homes: "after (map (\<lambda>i. (f i, C (f i))) [0..<n]) C' bn = (if bn \<in> f ` {..<n} then C bn else C' bn)"
proof (cases "bn \<in> f ` {..<n}")
  case True
  then show ?thesis by (subst after_same [where v = "C bn"]) (auto simp: image_image)
next
  case False
  then show ?thesis by (subst after_other) auto
qed

text \<open>The three kinds of disk a crash during \<open>commit\<close> can leave.\<close>

lemma crash_cases:
  fixes E :: "u32 \<Rightarrow> block"
  assumes l: "log_ok l" and k: "k \<le> length (commit_writes l C)"
  defines "n \<equiv> nat (lh_n (lh l))" and "E' \<equiv> after (take k (commit_writes l C)) E" and "x \<equiv> head_block (lh l) (C (log_start l))"
  shows "k \<le> n \<and> E' (log_start l) = E (log_start l) \<and> (\<forall>bn. bn \<notin> log_area l \<longrightarrow> E' bn = E bn) \<or>
    n < k \<and> k \<le> 2 * n + 1 \<and> E' (log_start l) = x \<and> (\<forall>i < n. E' (log_block l i) = C (lh_block (lh l) i)) \<and>
      (\<forall>bn. bn \<notin> log_area l \<longrightarrow> bn \<notin> homes l \<longrightarrow> E' bn = E bn) \<or>
    n < k \<and> E' (log_start l) = head_block (lh (cleared l)) x \<and>
      (\<forall>bn. bn \<notin> log_area l \<longrightarrow> E' bn = (if bn \<in> homes l then C bn else E bn))"
proof -
  let ?h = "log_start l" and ?b = "lh_block (lh l)"
  let ?A = "log_copies l C n" and ?B = "map (\<lambda>i. (?b i, C (?b i))) [0..<n]"
  have w: "commit_writes l C = ?A @ (?h, x) # ?B @ [(?h, head_block (lh (cleared l)) x)]"
    by (simp add: commit_writes_def Let_def n_def x_def)
  have lA: "length ?A = n" "length ?B = n" by simp_all
  have n30: "n \<le> nat LOGSIZE" using l by (auto simp: n_def log_ok_def intro: nat_mono)
  have H: "?h \<notin> homes l" and hB: "homes l = ?b ` {..<n}" using log_okH [OF l] by (simp_all add: homes_def n_def)
  have out: "bn \<notin> log_block l ` {..<j}" if "bn \<notin> log_area l" "j \<le> n" for bn j
    using that n30 by (auto simp: log_area_def)
  have lb: "log_block l i \<notin> homes l" "log_block l i \<noteq> ?h" if "i < n" for i
    using log_okD(2) [OF l, of i] log_blocks(1) [OF l, of i] that l by (auto simp: n_def log_ok_def)
  have AA: "after ?A E (log_block l i) = C (?b i)" if "i < n" for i using after_log_copies(1) [OF l] that by (simp add: n_def)
  have oa: "bn \<noteq> ?h" if "bn \<notin> log_area l" for bn using that by (auto simp: log_area_def)
  consider "k \<le> n" | "n < k" "k \<le> 2 * n + 1" | "k = 2 * n + 2" using k unfolding w by fastforce
  then show ?thesis
  proof cases
    case 1
    then have "take k (commit_writes l C) = log_copies l C k" unfolding w by (simp add: take_map)
    then show ?thesis using 1 after_log_copies(2) [OF l out] after_log_copies(3) [OF l] unfolding E'_def n_def by simp
  next
    case 2
    then obtain j where j: "k = n + Suc j" "j \<le> n" using less_imp_Suc_add [of n k] by auto
    have "take k (commit_writes l C) = ?A @ (?h, x) # map (\<lambda>i. (?b i, C (?b i))) [0..<j]" unfolding w j using j(2) by (simp add: take_map)
    then have E': "E' bn = (if bn \<in> ?b ` {..<j} then C bn else if bn = ?h then x else after ?A E bn)" for bn
      by (simp add: E'_def after_homes)
    have sub: "?b ` {..<j} \<subseteq> homes l" using j(2) by (auto simp: hB)
    show ?thesis
    proof (rule disjI2, rule disjI1, intro conjI allI impI)
      show "E' ?h = x" using H sub by (auto simp: E')
      show "E' (log_block l i) = C (?b i)" if "i < n" for i using lb [OF that] sub AA [OF that] by (auto simp: E')
      show "E' bn = E bn" if "bn \<notin> log_area l" "bn \<notin> homes l" for bn
        using that oa sub after_log_copies(2) [OF l out [OF that(1)]] by (auto simp: E')
    qed (use 2 in simp_all)
  next
    case 3
    then have "take k (commit_writes l C) = commit_writes l C" unfolding w by simp
    then have E': "E' bn = (if bn = ?h then head_block (lh (cleared l)) x else if bn \<in> homes l then C bn else after ?A E bn)" for bn
      by (simp add: E'_def w after_homes hB)
    show ?thesis
    proof (intro disjI2 conjI allI impI)
      show "E' bn = (if bn \<in> homes l then C bn else E bn)" if "bn \<notin> log_area l" for bn
        using oa [OF that] after_log_copies(2) [OF l out [OF that]] by (simp add: E')
    qed (use 3 in \<open>simp_all add: E'\<close>)
  qed
qed

text \<open>A boot: the cache is set up, then the log recovers.\<close>

lemma bcache_initlock:
  "bcache p R H C D T s \<Longrightarrow> bcache p R H C D T (upd_lock l (\<lambda>_. \<lparr>lk_locked = 0, lk_name = nm, lk_cpu = None\<rparr>) s)"
proof -
  assume c: "bcache p R H C D T s"
  let ?t = "upd_lock l (\<lambda>_. \<lparr>lk_locked = 0, lk_name = nm, lk_cpu = None\<rparr>) s"
  have f: "bufs ?t = bufs s" "vdisk ?t = vdisk s" "slocks ?t = slocks s" "procs ?t = procs s" "vdev ?t = vdev s" "cpus ?t = cpus s" "cid ?t = cid s"
    by (simp_all add: upd_lock_def cid_def)
  have "look ?t = look s" unfolding look_def fun_eq_iff by (simp add: f split: option.split)
  then show ?thesis using c quiet_initlock [of s l nm] by (simp add: bcache_def cache_def bio_env_def f)
qed

lemma set_up_log: "set_up s t \<Longrightarrow> log t = log s"
proof -
  assume "set_up s t"
  then obtain L B S where "t = s\<lparr>locks := L, slocks := S, bufs := B\<rparr>" unfolding set_up_def by blast
  then show ?thesis by simp
qed

lemma boot_recovers:
  assumes e: "bio_env p s" and f: "\<forall>b < NBUF. fresh_buf (bufs s b)" and a: "sb_logstart super < 0x7fffff00"
  defines "E \<equiv> \<lambda>bn. vd_sectors (vdisk s) (sector_of bn)"
  defines "l \<equiv> head_of (E (sb_logstart super)) ((log s)\<lparr>log_start := sb_logstart super, log_size := sint (sb_nlog super), log_dev := 1\<rparr>)"
  assumes ok: "log_ok l"
  shows "\<exists>t. thenK binit (initlog 1 super) s = Ret () t \<and> (\<forall>bn < 2 ^ 31. bn \<notin> log_area l \<longrightarrow>
    vd_sectors (vdisk t) (sector_of bn) = after (home_copies l E (nat (lh_n (lh l)))) E bn)"
proof -
  let ?D = "vd_sectors (vdisk s)" and ?T = "vd_trace (vdisk s)"
  let ?ws = "home_copies l E (nat (lh_n (lh l)))" and ?x = "head_block (lh (cleared l)) (E (log_start l))"
  obtain t where t: "binit s = Ret () t" "set_up s t" "bcache p (\<lambda>_. 0) Map.empty E ?D ?T t"
    using binit_ok [OF e f] unfolding E_def by blast
  let ?l0 = "(log s)\<lparr>log_start := sb_logstart super, log_size := sint (sb_nlog super), log_dev := 1\<rparr>"
  let ?t1 = "(upd_lock Log_lock (\<lambda>_. \<lparr>lk_locked = 0, lk_name = ''log'', lk_cpu = None\<rparr>) t)\<lparr>log := ?l0\<rparr>"
  have c: "bcache p (\<lambda>_. 0) Map.empty E ?D ?T ?t1" using bcache_initlock [OF t(3)] by simp
  obtain u where u: "recover_from_log ?t1 = Ret () u"
      "stored p (unpinned (homes l) (\<lambda>_. 0)) E ?D ?T (?ws @ [(log_start l, ?x)]) u"
    using recover_ok [OF c] a ok by (auto simp: l_def Let_def)
  have "thenK binit (initlog 1 super) s = Ret () u"
    using t(1) u(1) set_up_log [OF t(2)]
    by (simp add: initlog_def initlock_def upd_log_def upd_lock_def LOGSIZE_def MAXOPBLOCKS_def BSIZE_def)
  moreover have "vd_sectors (vdisk u) (sector_of bn) = after ?ws E bn" if bn: "bn < 2 ^ 31" "bn \<notin> log_area l" for bn
  proof -
    have "\<forall>w \<in> set (?ws @ [(log_start l, ?x)]). fst w < 2 ^ 31" using log_okD(3) [OF ok] log_okH [OF ok] by auto
    then have "on_disk (?ws @ [(log_start l, ?x)]) ?D (sector_of bn) = after (?ws @ [(log_start l, ?x)]) E bn"
      using on_disk_blocks [of "?ws @ [(log_start l, ?x)]" bn ?D] bn(1) by (simp only: E_def)
    moreover have "bn \<noteq> log_start l" using bn(2) by (auto simp: log_area_def)
    ultimately show ?thesis using bcacheD(4) [OF u(2) [unfolded stored_def]] by simp
  qed
  ultimately show ?thesis by blast
qed

text \<open>A machine that starts with the disk contents \<open>D\<close>.\<close>

definition powered_up :: "nat \<Rightarrow> (u64 \<Rightarrow> block) \<Rightarrow> 'z virtio_scheme \<Rightarrow> bool" where
  "powered_up p D s \<longleftrightarrow> bio_env p s \<and> (\<forall>b < NBUF. fresh_buf (bufs s b)) \<and> vd_sectors (vdisk s) = D"

lemma same_log:
  assumes "log_start l' = log_start l" "log_dev l' = 1" "lh_n (lh l') = lh_n (lh l)" "\<forall>i < nat (lh_n (lh l)). lh_block (lh l') i = lh_block (lh l) i"
  shows "log_block l' = log_block l" "log_area l' = log_area l" "homes l' = homes l" "log_ok l \<Longrightarrow> log_ok l'"
proof -
  show b: "log_block l' = log_block l" using assms(1) by (simp add: log_block_def fun_eq_iff)
  then show a: "log_area l' = log_area l" using assms(1) by (simp add: log_area_def)
  show h: "homes l' = homes l" using assms(3,4) by (auto simp: homes_def)
  show "log_ok l \<Longrightarrow> log_ok l'"
    using assms h a inj_on_cong [of "{..<nat (lh_n (lh l))}" "lh_block (lh l')" "lh_block (lh l)"] by (simp add: log_ok_def)
qed

lemma empty_log: "log_start l < 0x7fffff00 \<Longrightarrow> log_dev l = 1 \<Longrightarrow> lh_n (lh l) = 0 \<Longrightarrow> log_ok l"
  by (simp add: log_ok_def homes_def LOGSIZE_def MAXOPBLOCKS_def)

lemma recover_empty:
  assumes u: "powered_up q D' u" and a: "sb_logstart super = log_start l" "log_start l < 0x7fffff00"
    and e: "sint (word_at (D' (sector_of (log_start l))) 0) = 0"
  shows "\<exists>v. thenK binit (initlog 1 super) u = Ret () v \<and> (\<forall>bn < 2 ^ 31. bn \<notin> log_area l \<longrightarrow> vd_sectors (vdisk v) (sector_of bn) = D' (sector_of bn))"
proof -
  let ?l = "head_of (D' (sector_of (log_start l))) ((log u)\<lparr>log_start := log_start l, log_size := sint (sb_nlog super), log_dev := 1\<rparr>)"
  have n: "lh_n (lh ?l) = 0" "log_start ?l = log_start l" "log_dev ?l = 1" using e by (simp_all add: head_of_def head_read_def)
  have ok: "log_ok ?l" by (rule empty_log) (simp_all add: n a)
  have "log_area ?l = log_area l" using n(2) by (simp add: log_area_def log_block_def)
  then show ?thesis using boot_recovers [of q u super] u a ok n(1) by (simp add: powered_up_def)
qed

lemma recover_full:
  assumes u: "powered_up q D' u" and a: "sb_logstart super = log_start l" and l: "log_ok l"
    and h: "D' (sector_of (log_start l)) = head_block (lh l) x"
    and b: "\<forall>i < nat (lh_n (lh l)). D' (sector_of (log_block l i)) = C (lh_block (lh l) i)"
  shows "\<exists>v. thenK binit (initlog 1 super) u = Ret () v \<and> (\<forall>bn < 2 ^ 31. bn \<notin> log_area l \<longrightarrow>
    vd_sectors (vdisk v) (sector_of bn) = (if bn \<in> homes l then C bn else D' (sector_of bn)))"
proof -
  let ?l = "head_of (D' (sector_of (log_start l))) ((log u)\<lparr>log_start := log_start l, log_size := sint (sb_nlog super), log_dev := 1\<rparr>)"
  let ?n = "nat (lh_n (lh l))" and ?E = "\<lambda>bn. D' (sector_of bn)"
  have n: "0 \<le> lh_n (lh l)" "lh_n (lh l) \<le> LOGSIZE" "log_start l < 0x7fffff00" using l by (simp_all add: log_ok_def)
  have w: "sint (word_at (head_block (lh l) x) 0) = lh_n (lh l)" "\<forall>i < ?n. word_at (head_block (lh l) x) (Suc i) = lh_block (lh l) i"
    using head_block_words [OF n(1,2)] by blast+
  have s: "log_start ?l = log_start l" "log_dev ?l = 1" "lh_n (lh ?l) = lh_n (lh l)" "\<forall>i < ?n. lh_block (lh ?l) i = lh_block (lh l) i"
    using w by (simp_all add: h head_of_def head_read_def)
  note sl = same_log [OF s]
  have w2: "home_copies ?l ?E ?n = map (\<lambda>i. (lh_block (lh l) i, C (lh_block (lh l) i))) [0..<?n]" using s(4) b by (simp add: sl(1))
  have "after (home_copies ?l ?E ?n) ?E bn = (if bn \<in> homes l then C bn else D' (sector_of bn))" for bn
    unfolding w2 by (simp add: after_homes homes_def)
  moreover obtain v where "thenK binit (initlog 1 super) u = Ret () v"
    "\<forall>bn < 2 ^ 31. bn \<notin> log_area l \<longrightarrow> vd_sectors (vdisk v) (sector_of bn) = after (home_copies ?l ?E ?n) ?E bn"
    using boot_recovers [of q u super] u a n(3) sl(2) sl(4) [OF l] s(3) by (auto simp: powered_up_def)
  ultimately show ?thesis by (intro exI [of _ v]) simp
qed

lemma crash_recovery:
  assumes l: "log_ok l" and k: "k \<le> length (commit_writes l C)" and clear: "sint (word_at (D (sector_of (log_start l))) 0) = 0"
    and u: "powered_up q (on_disk (take k (commit_writes l C)) D) u" and a: "sb_logstart super = log_start l"
  shows "\<exists>v. thenK binit (initlog 1 super) u = Ret () v \<and> (\<forall>bn < 2 ^ 31. bn \<notin> log_area l \<longrightarrow>
    vd_sectors (vdisk v) (sector_of bn) = (if nat (lh_n (lh l)) < k \<and> bn \<in> homes l then C bn else D (sector_of bn)))"
proof -
  let ?W = "take k (commit_writes l C)" and ?E = "\<lambda>bn. D (sector_of bn)" and ?n = "nat (lh_n (lh l))"
  let ?D = "on_disk ?W D" and ?x = "head_block (lh l) (C (log_start l))"
  note H = log_okH [OF l]
  have s: "log_start l < 0x7fffff00" using l by (simp add: log_ok_def)
  have "\<forall>w \<in> set (commit_writes l C). fst w < 2 ^ 31"
    using log_okD(1,3) [OF l] H by (auto simp: commit_writes_def Let_def)
  then have W: "\<forall>w \<in> set ?W. fst w < 2 ^ 31" by (meson in_set_takeD)
  have E: "?D (sector_of bn) = after ?W ?E bn" if "bn < 2 ^ 31" for bn by (rule on_disk_blocks [OF W that])
  have h0: "sint (word_at (head_block (lh (cleared l)) x) 0) = 0" for x
    using head_block_words(1) [of "lh (cleared l)" x] by (simp add: cleared_def LOGSIZE_def MAXOPBLOCKS_def)
  consider
    "k \<le> ?n" "after ?W ?E (log_start l) = ?E (log_start l)" "\<forall>bn. bn \<notin> log_area l \<longrightarrow> after ?W ?E bn = ?E bn"
  | "?n < k" "after ?W ?E (log_start l) = ?x" "\<forall>i < ?n. after ?W ?E (log_block l i) = C (lh_block (lh l) i)"
      "\<forall>bn. bn \<notin> log_area l \<longrightarrow> bn \<notin> homes l \<longrightarrow> after ?W ?E bn = ?E bn"
  | "?n < k" "after ?W ?E (log_start l) = head_block (lh (cleared l)) ?x"
      "\<forall>bn. bn \<notin> log_area l \<longrightarrow> after ?W ?E bn = (if bn \<in> homes l then C bn else ?E bn)"
    using crash_cases [OF l k, of ?E] by blast
  then show ?thesis
  proof cases
    case 1
    then show ?thesis using recover_empty [OF u a s] E H clear by auto
  next
    case 2
    have "\<exists>v. thenK binit (initlog 1 super) u = Ret () v \<and> (\<forall>bn < 2 ^ 31. bn \<notin> log_area l \<longrightarrow>
      vd_sectors (vdisk v) (sector_of bn) = (if bn \<in> homes l then C bn else ?D (sector_of bn)))"
      using E H 2 log_okD(1) [OF l] by (intro recover_full [OF u a l]) simp_all
    then show ?thesis using 2 E by (elim exE) (auto simp del: split_paired_Ex intro!: exI)
  next
    case 3
    then show ?thesis using recover_empty [OF u a s] E H h0 by auto
  qed
qed


lemma log_fields [simp]:
  "log_block (l\<lparr>log_outstanding := a\<rparr>) = log_block l" "log_area (l\<lparr>log_outstanding := a\<rparr>) = log_area l"
  "homes (l\<lparr>log_outstanding := a\<rparr>) = homes l" "log_ok (l\<lparr>log_outstanding := a\<rparr>) = log_ok l"
  "log_refs (l\<lparr>log_outstanding := a\<rparr>) R = log_refs l R" "commit_writes (l\<lparr>log_outstanding := a\<rparr>) C = commit_writes l C"
  "log_block (l\<lparr>log_committing := c\<rparr>) = log_block l" "log_area (l\<lparr>log_committing := c\<rparr>) = log_area l"
  "homes (l\<lparr>log_committing := c\<rparr>) = homes l" "log_ok (l\<lparr>log_committing := c\<rparr>) = log_ok l"
  "log_refs (l\<lparr>log_committing := c\<rparr>) R = log_refs l R" "commit_writes (l\<lparr>log_committing := c\<rparr>) C = commit_writes l C"
  by (simp_all add: log_block_def log_area_def homes_def log_ok_def log_refs_def commit_writes_def cleared_def Let_def fun_eq_iff)

lemma end_op_ok:
  assumes c: "bcache p R Map.empty C D T s" and l: "log_ok (log s)" and n: "0 < lh_n (lh (log s))"
    and R: "log_refs (log s) R" and pin: "\<forall>bn \<in> homes (log s). R bn \<noteq> 0"
    and o: "log_outstanding (log s) = 1" "\<not> log_committing (log s)"
  shows "\<exists>t. end_op s = Ret () t \<and> log t = cleared ((log s)\<lparr>log_outstanding := 0\<rparr>) \<and>
    vd_sectors (vdisk t) = on_disk (commit_writes (log s) C) D \<and> vd_trace (vdisk t) = T @ sectors_of (commit_writes (log s) C)"
proof -
  let ?s = "s\<lparr>log := (log s)\<lparr>log_outstanding := 0, log_committing := True\<rparr>\<rparr>"
  obtain t where t: "commit ?s = Ret () t" "log t = cleared (log ?s)" "stored p (unpinned (homes (log s)) R) C D T (commit_writes (log s) C) t"
    using commit_ok [of p R C D T ?s] c l n R pin by auto
  have q: "quiet s" "quiet t" using cacheD(1) [OF bcacheD(1) [OF c]] cacheD(1) [OF bcacheD(1) [OF t(3) [unfolded stored_def]]] by (simp_all add: bio_env_def)
  let ?t = "t\<lparr>log := (log t)\<lparr>log_committing := False\<rparr>, procs := woken Ch_log (procs t)\<rparr>"
  have "end_op s = Ret () ?t"
    using q o t(1) by (simp add: end_op_def lock_steps upd_log_def wakeup_woken)
  moreover have "log ?t = cleared ((log s)\<lparr>log_outstanding := 0\<rparr>)" using o(2) by (simp add: t(2) cleared_def)
  ultimately show ?thesis using bcacheD(4,5) [OF t(3) [unfolded stored_def]] by (intro exI [of _ ?t]) simp
qed

definition logged :: "u32 \<Rightarrow> logstate \<Rightarrow> logstate" where
  "logged bn l = (if bn \<in> homes l then l
     else l\<lparr>lh := \<lparr>lh_n = lh_n (lh l) + 1, lh_block = (lh_block (lh l))(nat (lh_n (lh l)) := bn)\<rparr>\<rparr>)"

lemma log_write_ok:
  assumes c: "bcache p R H C D T s" and h: "H b = Some bn" and k: "R bn + 1 \<noteq> 0" and n: "0 \<le> lh_n (lh (log s))"
    and g: "lh_n (lh (log s)) < LOGSIZE" "lh_n (lh (log s)) < log_size (log s) - 1" "1 \<le> log_outstanding (log s)"
  shows "\<exists>t. log_write b s = Ret () t \<and> log t = logged bn (log s) \<and>
    bcache p (if bn \<in> homes (log s) then R else R(bn := R bn + 1)) H C D T t"
proof -
  let ?l = "log s"
  let ?n = "nat (lh_n (lh ?l))"
  have q: "quiet s" using cacheD(1) [OF bcacheD(1) [OF c]] by (simp add: bio_env_def)
  have bn: "b_blockno (bufs s b) = bn" using bcacheD(2) [OF c h] by (simp add: matches_def)
  show ?thesis
  proof (cases "find (\<lambda>i. lh_block (lh ?l) i = bn) [0..<?n]")
    case None
    then have nh: "bn \<notin> homes ?l" by (auto simp: find_None_iff homes_def)
    let ?t = "s\<lparr>bufs := (bufs s)(b := (bufs s b)\<lparr>b_refcnt := b_refcnt (bufs s b) + 1\<rparr>), log := logged bn ?l\<rparr>"
    have "log_write b s = Ret () ?t"
      using q g bn None nh n by (simp add: log_write_def lock_steps upd_log_def bpin_def upd_buf_def logged_def)
    moreover have "bcache p (R(bn := R bn + 1)) H C D T ?t"
      using bcache_refcnt [OF c h, of "R bn + 1"] k bcache_held(3) [OF c h] by simp
    ultimately show ?thesis using nh by (intro exI [of _ ?t]) simp
  next
    case (Some i)
    then have i: "i < ?n" "lh_block (lh ?l) i = bn" by (auto simp: find_Some_iff)
    then have hm: "bn \<in> homes ?l" by (auto simp: homes_def)
    have "int i \<noteq> lh_n (lh ?l)" using i(1) n by linarith
    moreover have "(lh_block (lh ?l))(i := bn) = lh_block (lh ?l)" using i(2) by auto
    ultimately have "log_write b s = Ret () s" using q g bn Some i by (simp add: log_write_def lock_steps upd_log_def)
    then show ?thesis using hm c by (intro exI [of _ s]) (simp add: logged_def)
  qed
qed



text \<open>
  C33: Recovery unpins buffers that were never pinned: after \<open>recover_from_log\<close> the buffer of each recovered block has
  the reference count 0xffffffff.
\<close>

theorem recovery_underflows_refcnt:
  assumes c: "bcache p (\<lambda>_. 0) Map.empty C D T s" and l: "log_dev (log s) = 1" "log_start (log s) < 0x7fffff00"
    and ok: "log_ok (head_of (C (log_start (log s))) (log s))"
  shows "\<exists>t. recover_from_log s = Ret () t \<and> (\<forall>bn \<in> homes (head_of (C (log_start (log s))) (log s)).
    \<exists>b < NBUF. b_dev (bufs t b) = 1 \<and> b_blockno (bufs t b) = bn \<and> b_refcnt (bufs t b) = 0xffffffff)"
proof -
  let ?l = "head_of (C (log_start (log s))) (log s)" and ?R = "unpinned (homes (head_of (C (log_start (log s))) (log s))) (\<lambda>_. 0)"
  obtain t C' D' T' where t: "recover_from_log s = Ret () t" "bcache p ?R Map.empty C' D' T' t"
    using recover_ok [OF c l ok] by (auto simp: Let_def stored_def)
  have "\<exists>b < NBUF. b_dev (bufs t b) = 1 \<and> b_blockno (bufs t b) = bn \<and> b_refcnt (bufs t b) = 0xffffffff" if "bn \<in> homes ?l" for bn
  proof -
    note k = bcacheD(1) [OF t(2)]
    have "?R bn = 0xffffffff" using that by (simp add: unpinned_def)
    then obtain b where "b < NBUF" "matches 1 bn (bufs t b)" using cacheD(7) [OF k, of bn] by auto
    then show ?thesis using cacheD(4) [OF k, of b] \<open>?R bn = 0xffffffff\<close> by (auto simp: buf_ok_def matches_def)
  qed
  then show ?thesis using t(1) by blast
qed

definition boot_machine :: "logstate \<Rightarrow> (u64 \<Rightarrow> block) \<Rightarrow> logging" where
  "boot_machine l D = run_as 0 (boot_logging\<lparr>vdisk := boot_vdisk D, log := l\<rparr>)"

lemma boot_logging_fields: "vdev boot_logging = demo_device" "bufs boot_logging = (\<lambda>_. blank_buf)"
  by (simp_all add: boot_logging_def boot_virtio_def boot_console_def boot_kmem_def boot_sleeplocks_def
      sleeplocks.defs kmem.defs vm.defs image.defs uart.defs kprint.defs console.defs virtio.defs logging.defs)

lemma boot_machine_up: "powered_up 0 D (boot_machine l D)" and boot_machine_log [simp]: "log (boot_machine l D) = l"
  and boot_machine_trace [simp]: "vd_trace (vdisk (boot_machine l D)) = []"
proof -
  let ?s = "boot_logging\<lparr>vdisk := boot_vdisk D, log := l\<rparr>"
  have "quiet ?s" "vdev ?s = demo_device" "bufs ?s = (\<lambda>_. blank_buf)"
    using boot_logging_simps(1) by (simp_all add: boot_logging_fields)
  then show "powered_up 0 D (boot_machine l D)"
    using run_as_simps(2) [of 0 ?s] boot_vdisk_idle [of D] demo_device_serves
    by (simp add: powered_up_def boot_machine_def bio_env_def del: run_as_simps(2)) (simp add: run_as_def upd_cpu_def boot_vdisk_def)
  show "log (boot_machine l D) = l" "vd_trace (vdisk (boot_machine l D)) = []"
    by (simp_all add: boot_machine_def run_as_def upd_cpu_def boot_vdisk_def)
qed

lemma boot_machine_cache:
  "\<exists>s. binit (boot_machine l D) = Ret () s \<and> log s = l \<and> bcache 0 (\<lambda>_. 0) Map.empty (\<lambda>bn. D (sector_of bn)) D [] s"
  using boot_machine_up [of D l] binit_ok [of 0 "boot_machine l D"] set_up_log [of "boot_machine l D"]
  by (auto simp: powered_up_def)

text \<open>One operation that changes block 50.\<close>

definition demo_op :: "(unit, 'z logging_scheme) kop" where
  "demo_op = bindK (bread 1 50) (\<lambda>b. thenK (set_bdata b (\<lambda>_. 1)) (thenK (log_write b) (brelse b)))"

definition demo_log :: logstate where
  "demo_log = boot_log\<lparr>log_outstanding := 1\<rparr>"

lemma fifty: "(50 :: u32) \<notin> log_area demo_log"
proof -
  have "unat (log_block demo_log i) = 3 + i" if "i < 30" for i
    using that by (simp add: log_block_def demo_log_def boot_log_def unat_word_ariths unsigned_of_nat take_bit_nat_eq_self)
  then have "log_block demo_log i \<noteq> 50" if "i < 30" for i using that by fastforce
  then show ?thesis by (auto simp: log_area_def demo_log_def boot_log_def LOGSIZE_def MAXOPBLOCKS_def)
qed

lemma demo_log_ok: "log_ok demo_log" "homes demo_log = {}"
  by (simp_all add: log_ok_def homes_def demo_log_def boot_log_def LOGSIZE_def MAXOPBLOCKS_def)

lemma demo_op_run:
  "\<exists>s. thenK binit demo_op (boot_machine demo_log (\<lambda>_ _. 0)) = Ret () s \<and> log s = logged 50 demo_log \<and>
    bcache 0 ((\<lambda>_. 0)(50 := 1)) Map.empty ((\<lambda>_ _. 0)(50 := (\<lambda>_. 1))) (\<lambda>_ _. 0) [] s"
proof -
  let ?C = "(\<lambda>_ _. 0)(50 := (\<lambda>_. 1))"
  obtain s0 where s0: "binit (boot_machine demo_log (\<lambda>_ _. 0)) = Ret () s0" "log s0 = demo_log"
      "bcache 0 (\<lambda>_. 0) Map.empty (\<lambda>_ _. 0) (\<lambda>_ _. 0) [] s0"
    using boot_machine_cache [of demo_log "\<lambda>_ _. 0"] by auto
  obtain b s1 where s1: "bread 1 50 s0 = Ret b s1" "bcache 0 ((\<lambda>_. 0)(50 := 1)) [b \<mapsto> 50] (\<lambda>_ _. 0) (\<lambda>_ _. 0) [] s1" "rest_same s0 s1"
    using bread_ok [OF s0(3), of 50] by (auto simp: NBUF_def)
  obtain s2 where s2: "set_bdata b (\<lambda>_. 1) s1 = Ret () s2" "bcache 0 ((\<lambda>_. 0)(50 := 1)) [b \<mapsto> 50] ?C (\<lambda>_ _. 0) [] s2" "rest_same s1 s2"
    using set_bdata_ok [OF s1(2), of b 50 "\<lambda>_. 1"] by auto
  have l2: "log s2 = demo_log" using rest_log [OF s1(3)] rest_log [OF s2(3)] s0(2) by simp
  obtain s3 where s3: "log_write b s2 = Ret () s3" "log s3 = logged 50 demo_log" "bcache 0 ((\<lambda>_. 0)(50 := 2)) [b \<mapsto> 50] ?C (\<lambda>_ _. 0) [] s3"
    using log_write_ok [OF s2(2), of b 50] demo_log_ok(2) by (auto simp: l2 demo_log_def boot_log_def LOGSIZE_def MAXOPBLOCKS_def)
  obtain s4 where s4: "brelse b s3 = Ret () s4" "bcache 0 ((\<lambda>_. 0)(50 := 1)) Map.empty ?C (\<lambda>_ _. 0) [] s4" "rest_same s3 s4"
    using brelse_ok [OF s3(3), of b 50] by auto
  show ?thesis using s0(1) s1(1) s2(1) s3(1,2) s4(1,2) rest_log [OF s4(3)] by (intro exI [of _ s4]) (simp add: demo_op_def)
qed

lemma word_at_zero [simp]: "word_at (\<lambda>_. 0) k = 0"
proof -
  have "le_word (get_bytes (\<lambda>_. 0) a n) = (0 :: u32)" for a :: "10 word" and n by (induction n arbitrary: a) simp_all
  then show ?thesis by (simp add: word_at_def)
qed

lemma demo_logged:
  "log_ok (logged 50 demo_log)" "homes (logged 50 demo_log) = {50}" "lh_n (lh (logged 50 demo_log)) = 1" "log_start (logged 50 demo_log) = 2"
  "log_outstanding (logged 50 demo_log) = 1" "\<not> log_committing (logged 50 demo_log)" "log_area (logged 50 demo_log) = log_area demo_log"
proof -
  have e: "logged 50 demo_log = demo_log\<lparr>lh := \<lparr>lh_n = 1, lh_block = (\<lambda>_. 0)(0 := 50)\<rparr>\<rparr>"
    using demo_log_ok(2) by (simp add: logged_def demo_log_def boot_log_def)
  show a: "log_area (logged 50 demo_log) = log_area demo_log" by (simp add: e log_area_def log_block_def)
  show h: "homes (logged 50 demo_log) = {50}" by (simp add: e homes_def lessThan_Suc)
  show "log_ok (logged 50 demo_log)" using fifty unfolding log_ok_def a h unfolding e
    by (simp add: demo_log_def boot_log_def LOGSIZE_def MAXOPBLOCKS_def lessThan_Suc)
  show "lh_n (lh (logged 50 demo_log)) = 1" "log_start (logged 50 demo_log) = 2"
    "log_outstanding (logged 50 demo_log) = 1" "\<not> log_committing (logged 50 demo_log)"
    unfolding e by (simp_all add: demo_log_def boot_log_def)
qed

definition demo_super :: superblock where
  "demo_super = \<lparr>sb_magic = 0x10203040, sb_size = 1000, sb_nblocks = 954, sb_ninodes = 200, sb_nlog = 30, sb_logstart = 2,
     sb_inodestart = 32, sb_bmapstart = 45\<rparr>"



definition crash_disk :: "u64 \<Rightarrow> block" where
  "crash_disk = (\<lambda>_ _. 0)(sector_of 2 := head_block \<lparr>lh_n = 1, lh_block = (\<lambda>_. 50)\<rparr> (\<lambda>_. 0))"

theorem recovery_underflows_refcnt_witness:
  "\<exists>s t b. binit (boot_machine boot_log crash_disk) = Ret () s \<and> recover_from_log s = Ret () t \<and>
     b_blockno (bufs t b) = 50 \<and> b_refcnt (bufs t b) = 0xffffffff"
proof -
  obtain s where s: "binit (boot_machine boot_log crash_disk) = Ret () s" "log s = boot_log"
      "bcache 0 (\<lambda>_. 0) Map.empty (\<lambda>bn. crash_disk (sector_of bn)) crash_disk [] s"
    using boot_machine_cache [of boot_log crash_disk] by auto
  have 2: "log_start boot_log = 2" "log_dev boot_log = 1" by (simp_all add: boot_log_def)
  let ?h = "\<lparr>lh_n = 1, lh_block = (\<lambda>_. 50)\<rparr>"
  let ?l = "head_of (crash_disk (sector_of 2)) boot_log"
  have c: "crash_disk (sector_of 2) = head_block ?h (\<lambda>_. 0)" by (simp add: crash_disk_def)
  have w: "sint (word_at (head_block ?h (\<lambda>_. 0)) 0) = 1" "word_at (head_block ?h (\<lambda>_. 0)) (Suc 0) = 50"
    using head_block_words [where h = ?h and x = "\<lambda>_. 0"] by (simp_all add: LOGSIZE_def MAXOPBLOCKS_def)
  have l: "lh_n (lh (logged 50 demo_log)) = 1" "lh_block (lh (logged 50 demo_log)) 0 = 50" "log_start (logged 50 demo_log) = 2"
    using demo_log_ok(2) by (simp_all add: logged_def) (simp_all add: demo_log_def boot_log_def)
  have "log_start ?l = log_start (logged 50 demo_log)" "log_dev ?l = 1" "lh_n (lh ?l) = lh_n (lh (logged 50 demo_log))"
    "\<forall>i < nat (lh_n (lh (logged 50 demo_log))). lh_block (lh ?l) i = lh_block (lh (logged 50 demo_log)) i"
    using w by (simp_all add: c l 2 head_of_def head_read_def)
  note sl = same_log(3,4) [OF this]
  have "log_ok ?l" "homes ?l = {50}" using sl demo_logged(1,2) by simp_all
  then show ?thesis using recovery_underflows_refcnt [OF s(3)] s(1,2) 2 by auto
qed

end
