(* ===== verification/Fs.thy ===== *)
theory Fs
  imports Log
begin

text \<open>
  The file system \<^verbatim>\<open>kernel/fs.c\<close>: the block allocator, inodes and their cache, file contents,
  directories and path names. Inodes of the cache are numbered as in \<^verbatim>\<open>icache.inode\<close>. Path names, file
  names and directory entries are byte lists; a string is given without its final NUL.
\<close>

section \<open>State\<close>

definition ROOTINO :: u32 where
  "ROOTINO = 1"

definition ROOTDEV :: u32 where
  "ROOTDEV = 1"

definition FSMAGIC :: u32 where
  "FSMAGIC = 0x10203040"

definition NDIRECT :: nat where
  "NDIRECT = 12"

definition NINDIRECT :: nat where
  "NINDIRECT = BSIZE div 4"

definition MAXFILE :: nat where
  "MAXFILE = NDIRECT + NINDIRECT"

definition NINODE :: nat where
  "NINODE = 50"

text \<open>\<^verbatim>\<open>sizeof(struct dinode)\<close> is 64: four 16-bit fields, the size and 13 addresses.\<close>

definition IPB :: nat where
  "IPB = BSIZE div 64"

definition BPB :: nat where
  "BPB = BSIZE * 8"

definition DIRSIZ :: nat where
  "DIRSIZ = 14"

definition T_DIR :: u16 where
  "T_DIR = 1"

definition T_FILE :: u16 where
  "T_FILE = 2"

definition T_DEVICE :: u16 where
  "T_DEVICE = 3"

record inode =
  i_dev :: u32
  i_inum :: u32
  i_ref :: int
  i_valid :: bool
  i_type :: u16
  i_major :: u16
  i_minor :: u16
  i_nlink :: u16
  i_size :: u32
  i_addrs :: "nat \<Rightarrow> u32"

record dinode =
  di_type :: u16
  di_major :: u16
  di_minor :: u16
  di_nlink :: u16
  di_size :: u32
  di_addrs :: "nat \<Rightarrow> u32"

record stat =
  st_dev :: u32
  st_ino :: u32
  st_type :: u16
  st_nlink :: u16
  st_size :: u64

record dirent =
  de_inum :: u16
  de_name :: "byte list"

record fs = logging +
  sb :: superblock
  inodes :: "nat \<Rightarrow> inode"

definition upd_inode :: "nat \<Rightarrow> (inode \<Rightarrow> inode) \<Rightarrow> 'z fs_scheme \<Rightarrow> 'z fs_scheme" where
  "upd_inode i f s = s\<lparr>inodes := (inodes s)(i := f (inodes s i))\<rparr>"

definition IBLOCK :: "u32 \<Rightarrow> superblock \<Rightarrow> u32" where
  "IBLOCK i b = i div of_nat IPB + sb_inodestart b"

definition BBLOCK :: "u32 \<Rightarrow> superblock \<Rightarrow> u32" where
  "BBLOCK i b = i div of_nat BPB + sb_bmapstart b"

text \<open>The layout of \<^verbatim>\<open>struct dinode\<close> at slot \<open>k\<close> of an inode block.\<close>

definition get16 :: "block \<Rightarrow> 10 word \<Rightarrow> u16" where
  "get16 x a = le_word (get_bytes x a 2)"

definition get32 :: "block \<Rightarrow> 10 word \<Rightarrow> u32" where
  "get32 x a = le_word (get_bytes x a 4)"

definition put16 :: "10 word \<Rightarrow> u16 \<Rightarrow> block \<Rightarrow> block" where
  "put16 a v x = put_bytes x a (le_bytes 2 v)"

definition put32 :: "10 word \<Rightarrow> u32 \<Rightarrow> block \<Rightarrow> block" where
  "put32 a v x = put_bytes x a (le_bytes 4 v)"

definition dinode_at :: "u32 \<Rightarrow> 10 word" where
  "dinode_at inum = of_nat (64 * (unat inum mod IPB))"

definition get_dinode :: "block \<Rightarrow> 10 word \<Rightarrow> dinode" where
  "get_dinode x a =
     \<lparr>di_type = get16 x a, di_major = get16 x (a + 2), di_minor = get16 x (a + 4), di_nlink = get16 x (a + 6),
      di_size = get32 x (a + 8), di_addrs = (\<lambda>k. if k \<le> NDIRECT then get32 x (a + 12 + of_nat (4 * k)) else 0)\<rparr>"

definition put_dinode :: "10 word \<Rightarrow> dinode \<Rightarrow> block \<Rightarrow> block" where
  "put_dinode a d x =
     fold (\<lambda>k. put32 (a + 12 + of_nat (4 * k)) (di_addrs d k)) [0..<NDIRECT + 1]
       (put32 (a + 8) (di_size d) (put16 (a + 6) (di_nlink d) (put16 (a + 4) (di_minor d)
          (put16 (a + 2) (di_major d) (put16 a (di_type d) x)))))"

definition zero_dinode :: dinode where
  "zero_dinode = \<lparr>di_type = 0, di_major = 0, di_minor = 0, di_nlink = 0, di_size = 0, di_addrs = (\<lambda>_. 0)\<rparr>"

section \<open>Blocks\<close>

definition readsb :: "u32 \<Rightarrow> (unit, 'z fs_scheme) kop" where
  "readsb dev =
     bindK (bread dev 1) (\<lambda>bp.
     bindK (bdata bp) (\<lambda>x.
     thenK (modK (\<lambda>s. s\<lparr>sb := \<lparr>sb_magic = word_at x 0, sb_size = word_at x 1, sb_nblocks = word_at x 2,
                          sb_ninodes = word_at x 3, sb_nlog = word_at x 4, sb_logstart = word_at x 5,
                          sb_inodestart = word_at x 6, sb_bmapstart = word_at x 7\<rparr>\<rparr>))
           (brelse bp)))"

definition fsinit :: "u32 \<Rightarrow> (unit, 'z fs_scheme) kop" where
  "fsinit dev =
     thenK (readsb dev) (
     bindK (getK sb) (\<lambda>b.
     if sb_magic b \<noteq> FSMAGIC then panicK ''invalid file system''
     else initlog dev b))"

definition bzero :: "u32 \<Rightarrow> u32 \<Rightarrow> (unit, 'z fs_scheme) kop" where
  "bzero dev bno =
     bindK (bread dev bno) (\<lambda>bp.
     thenK (set_bdata bp (\<lambda>_. 0)) (
     thenK (log_write bp)
           (brelse bp)))"

definition in_use :: "block \<Rightarrow> nat \<Rightarrow> bool" where
  "in_use x bi \<longleftrightarrow> x (of_nat (bi div 8)) AND push_bit (bi mod 8) 1 \<noteq> 0"

definition mark_used :: "nat \<Rightarrow> block \<Rightarrow> block" where
  "mark_used bi x = x(of_nat (bi div 8) := x (of_nat (bi div 8)) OR push_bit (bi mod 8) 1)"

definition mark_free :: "nat \<Rightarrow> block \<Rightarrow> block" where
  "mark_free bi x = x(of_nat (bi div 8) := x (of_nat (bi div 8)) AND NOT (push_bit (bi mod 8) 1))"

text \<open>The body of the outer loop of \<open>balloc\<close>, for the bitmap block of \<open>b\<close>; the inner loop is \<open>find\<close>.\<close>

definition balloc_group :: "u32 \<Rightarrow> nat \<Rightarrow> (u32 option, 'z fs_scheme) kop" where
  "balloc_group dev b =
     bindK (getK sb) (\<lambda>sbk.
     bindK (bread dev (BBLOCK (of_nat b) sbk)) (\<lambda>bp.
     bindK (bdata bp) (\<lambda>x.
     case find (\<lambda>bi. \<not> in_use x bi) [0..<min BPB (unat (sb_size sbk) - b)] of
       Some bi \<Rightarrow>
         thenK (set_bdata bp (mark_used bi x)) (
         thenK (log_write bp) (
         thenK (brelse bp) (
         thenK (bzero dev (of_nat (b + bi)))
               (retK (Some (of_nat (b + bi)))))))
     | None \<Rightarrow> thenK (brelse bp) (retK None))))"

definition balloc :: "u32 \<Rightarrow> (u32, 'z fs_scheme) kop" where
  "balloc dev =
     bindK (getK (\<lambda>s. unat (sb_size (sb s)))) (\<lambda>sz.
     bindK (searchK (balloc_group dev) (map (\<lambda>k. k * BPB) [0..<(sz + BPB - 1) div BPB])) (\<lambda>r.
     case r of
       Some b \<Rightarrow> retK b
     | None \<Rightarrow> panicK ''balloc: out of blocks''))"

definition bfree :: "u32 \<Rightarrow> u32 \<Rightarrow> (unit, 'z fs_scheme) kop" where
  "bfree dev b =
     bindK (getK sb) (\<lambda>sbk.
     bindK (bread dev (BBLOCK b sbk)) (\<lambda>bp.
     bindK (bdata bp) (\<lambda>x.
     let bi = unat b mod BPB in
     if \<not> in_use x bi then panicK ''freeing free block''
     else thenK (set_bdata bp (mark_free bi x)) (
          thenK (log_write bp)
                (brelse bp)))))"

section \<open>Inodes\<close>

definition iinit :: "(unit, 'z fs_scheme) kop" where
  "iinit =
     thenK (initlock Icache_lock ''icache'')
           (eachK (\<lambda>i. initsleeplock (InodeLock i) ''inode'') [0..<NINODE])"

text \<open>
  The search of \<open>iget\<close>: the entry of the inode, or else the first unused one that the loop remembers
  in \<^verbatim>\<open>empty\<close>.
\<close>

definition iget :: "u32 \<Rightarrow> u32 \<Rightarrow> (nat, 'z fs_scheme) kop" where
  "iget dev inum =
     thenK (acquire Icache_lock) (
     bindK (getK inodes) (\<lambda>ic.
     case find (\<lambda>i. i_ref (ic i) > 0 \<and> i_dev (ic i) = dev \<and> i_inum (ic i) = inum) [0..<NINODE] of
       Some ip \<Rightarrow>
         thenK (modK (upd_inode ip (\<lambda>r. r\<lparr>i_ref := i_ref r + 1\<rparr>))) (
         thenK (release Icache_lock)
               (retK ip))
     | None \<Rightarrow>
         (case find (\<lambda>i. i_ref (ic i) = 0) [0..<NINODE] of
            None \<Rightarrow> panicK ''iget: no inodes''
          | Some ip \<Rightarrow>
              thenK (modK (upd_inode ip (\<lambda>r. r\<lparr>i_dev := dev, i_inum := inum, i_ref := 1, i_valid := False\<rparr>))) (
              thenK (release Icache_lock)
                    (retK ip)))))"

definition try_ialloc :: "u32 \<Rightarrow> u16 \<Rightarrow> nat \<Rightarrow> (nat option, 'z fs_scheme) kop" where
  "try_ialloc dev ty inum =
     bindK (getK sb) (\<lambda>sbk.
     bindK (bread dev (IBLOCK (of_nat inum) sbk)) (\<lambda>bp.
     bindK (bdata bp) (\<lambda>x.
     let a = dinode_at (of_nat inum) in
     if di_type (get_dinode x a) = 0
     then thenK (set_bdata bp (put_dinode a (zero_dinode\<lparr>di_type := ty\<rparr>) x)) (
          thenK (log_write bp) (
          thenK (brelse bp) (
          bindK (iget dev (of_nat inum)) (\<lambda>ip. retK (Some ip)))))
     else thenK (brelse bp) (retK None))))"

definition ialloc :: "u32 \<Rightarrow> u16 \<Rightarrow> (nat, 'z fs_scheme) kop" where
  "ialloc dev ty =
     bindK (getK (\<lambda>s. unat (sb_ninodes (sb s)))) (\<lambda>n.
     bindK (searchK (try_ialloc dev ty) [1..<n]) (\<lambda>r.
     case r of
       Some ip \<Rightarrow> retK ip
     | None \<Rightarrow> panicK ''ialloc: no inodes''))"

definition dinode_of :: "inode \<Rightarrow> dinode" where
  "dinode_of r = \<lparr>di_type = i_type r, di_major = i_major r, di_minor = i_minor r, di_nlink = i_nlink r,
     di_size = i_size r, di_addrs = i_addrs r\<rparr>"

definition iupdate :: "nat \<Rightarrow> (unit, 'z fs_scheme) kop" where
  "iupdate ip =
     bindK (getK sb) (\<lambda>sbk.
     bindK (getK (\<lambda>s. inodes s ip)) (\<lambda>r.
     bindK (bread (i_dev r) (IBLOCK (i_inum r) sbk)) (\<lambda>bp.
     bindK (bdata bp) (\<lambda>x.
     thenK (set_bdata bp (put_dinode (dinode_at (i_inum r)) (dinode_of r) x)) (
     thenK (log_write bp)
           (brelse bp))))))"

definition idup :: "nat \<Rightarrow> (nat, 'z fs_scheme) kop" where
  "idup ip =
     thenK (acquire Icache_lock) (
     thenK (modK (upd_inode ip (\<lambda>r. r\<lparr>i_ref := i_ref r + 1\<rparr>))) (
     thenK (release Icache_lock)
           (retK ip)))"

definition ilock :: "nat option \<Rightarrow> (unit, 'z fs_scheme) kop" where
  "ilock ip =
     (case ip of None \<Rightarrow> panicK ''ilock'' | Some ip \<Rightarrow>
     bindK (getK (\<lambda>s. i_ref (inodes s ip) < 1)) (\<lambda>bad.
     if bad then panicK ''ilock''
     else thenK (acquiresleep (InodeLock ip)) (
     bindK (getK (\<lambda>s. inodes s ip)) (\<lambda>r.
     if i_valid r then retK ()
     else bindK (getK sb) (\<lambda>sbk.
          bindK (bread (i_dev r) (IBLOCK (i_inum r) sbk)) (\<lambda>bp.
          bindK (bdata bp) (\<lambda>x.
          let d = get_dinode x (dinode_at (i_inum r)) in
          thenK (modK (upd_inode ip (\<lambda>r. r\<lparr>i_type := di_type d, i_major := di_major d, i_minor := di_minor d,
                   i_nlink := di_nlink d, i_size := di_size d, i_addrs := di_addrs d\<rparr>))) (
          thenK (brelse bp) (
          thenK (modK (upd_inode ip (\<lambda>r. r\<lparr>i_valid := True\<rparr>)))
                (if di_type d = 0 then panicK ''ilock: no type'' else retK ()))))))))))"

definition iunlock :: "nat option \<Rightarrow> (unit, 'z fs_scheme) kop" where
  "iunlock ip =
     (case ip of None \<Rightarrow> panicK ''iunlock'' | Some ip \<Rightarrow>
     bindK (holdingsleep (InodeLock ip)) (\<lambda>h.
     bindK (getK (\<lambda>s. i_ref (inodes s ip) < 1)) (\<lambda>bad.
     if \<not> h \<or> bad then panicK ''iunlock''
     else releasesleep (InodeLock ip))))"

section \<open>Contents\<close>

text \<open>An address of the inode, or one allocated and stored in its place.\<close>

definition bmap_direct :: "nat \<Rightarrow> nat \<Rightarrow> (u32, 'z fs_scheme) kop" where
  "bmap_direct ip k =
     bindK (getK (\<lambda>s. inodes s ip)) (\<lambda>r.
     if i_addrs r k \<noteq> 0 then retK (i_addrs r k)
     else bindK (balloc (i_dev r)) (\<lambda>addr.
          thenK (modK (upd_inode ip (\<lambda>r. r\<lparr>i_addrs := (i_addrs r)(k := addr)\<rparr>)))
                (retK addr)))"

definition bmap :: "nat \<Rightarrow> nat \<Rightarrow> (u32, 'z fs_scheme) kop" where
  "bmap ip bn =
     (if bn < NDIRECT then bmap_direct ip bn
      else if bn - NDIRECT < NINDIRECT
      then bindK (bmap_direct ip NDIRECT) (\<lambda>addr.
           bindK (getK (\<lambda>s. i_dev (inodes s ip))) (\<lambda>dev.
           bindK (bread dev addr) (\<lambda>bp.
           bindK (bdata bp) (\<lambda>x.
           bindK (if word_at x (bn - NDIRECT) \<noteq> 0 then retK (word_at x (bn - NDIRECT))
                  else bindK (balloc dev) (\<lambda>addr.
                       thenK (modK (upd_buf bp (\<lambda>r. r\<lparr>b_data := put_word (bn - NDIRECT) addr (b_data r)\<rparr>))) (
                       thenK (log_write bp)
                             (retK addr)))) (\<lambda>addr.
           thenK (brelse bp)
                 (retK addr))))))
      else panicK ''bmap: out of range'')"

definition itrunc :: "nat \<Rightarrow> (unit, 'z fs_scheme) kop" where
  "itrunc ip =
     bindK (getK (\<lambda>s. i_dev (inodes s ip))) (\<lambda>dev.
     thenK (eachK (\<lambda>i.
       bindK (getK (\<lambda>s. i_addrs (inodes s ip) i)) (\<lambda>a.
       whenK (a \<noteq> 0)
         (thenK (bfree dev a)
                (modK (upd_inode ip (\<lambda>r. r\<lparr>i_addrs := (i_addrs r)(i := 0)\<rparr>)))))) [0..<NDIRECT]) (
     bindK (getK (\<lambda>s. i_addrs (inodes s ip) NDIRECT)) (\<lambda>a.
     thenK (whenK (a \<noteq> 0)
       (bindK (bread dev a) (\<lambda>bp.
        thenK (eachK (\<lambda>j.
          bindK (bdata bp) (\<lambda>x.
          whenK (word_at x j \<noteq> 0) (bfree dev (word_at x j)))) [0..<NINDIRECT]) (
        thenK (brelse bp) (
        thenK (bfree dev a)
              (modK (upd_inode ip (\<lambda>r. r\<lparr>i_addrs := (i_addrs r)(NDIRECT := 0)\<rparr>)))))))) (
     thenK (modK (upd_inode ip (\<lambda>r. r\<lparr>i_size := 0\<rparr>)))
           (iupdate ip)))))"

definition iput :: "nat \<Rightarrow> (unit, 'z fs_scheme) kop" where
  "iput ip =
     thenK (acquire Icache_lock) (
     bindK (getK (\<lambda>s. inodes s ip)) (\<lambda>r.
     thenK (whenK (i_ref r = 1 \<and> i_valid r \<and> i_nlink r = 0)
              (thenK (acquiresleep (InodeLock ip)) (
               thenK (release Icache_lock) (
               thenK (itrunc ip) (
               thenK (modK (upd_inode ip (\<lambda>r. r\<lparr>i_type := 0\<rparr>))) (
               thenK (iupdate ip) (
               thenK (modK (upd_inode ip (\<lambda>r. r\<lparr>i_valid := False\<rparr>))) (
               thenK (releasesleep (InodeLock ip))
                     (acquire Icache_lock))))))))) (
     thenK (modK (upd_inode ip (\<lambda>r. r\<lparr>i_ref := i_ref r - 1\<rparr>)))
           (release Icache_lock))))"

definition iunlockput :: "nat \<Rightarrow> (unit, 'z fs_scheme) kop" where
  "iunlockput ip = thenK (iunlock (Some ip)) (iput ip)"

definition stati :: "nat \<Rightarrow> (stat, 'z fs_scheme) kop" where
  "stati ip =
     bindK (getK (\<lambda>s. inodes s ip)) (\<lambda>r.
     retK \<lparr>st_dev = i_dev r, st_ino = i_inum r, st_type = i_type r, st_nlink = i_nlink r, st_size = ucast (i_size r)\<rparr>)"

text \<open>\<^verbatim>\<open>m = min(n - tot, BSIZE - off%BSIZE)\<close>, which is positive while \<^verbatim>\<open>tot < n\<close>.\<close>

definition rw_chunk :: "nat \<Rightarrow> nat \<Rightarrow> nat" where
  "rw_chunk rest off = min rest (BSIZE - off mod BSIZE)"

lemma rw_chunk_pos: "0 < rest \<Longrightarrow> 0 < rw_chunk rest off"
  by (simp add: rw_chunk_def BSIZE_def)

text \<open>
  The loop of \<open>readi\<close> with \<open>rest\<close> bytes to go. It gives the bytes it has delivered to the destination;
  \<^verbatim>\<open>tot\<close> is their number. The sum \<^verbatim>\<open>off + n\<close> has been checked not to wrap, so the offsets are numbers.
\<close>

function readi_loop :: "nat \<Rightarrow> place \<Rightarrow> nat \<Rightarrow> nat \<Rightarrow> (byte list, 'z fs_scheme) kop" where
  "readi_loop ip dst off rest =
     (if rest = 0 then retK []
      else bindK (bmap ip (off div BSIZE)) (\<lambda>addr.
           bindK (getK (\<lambda>s. i_dev (inodes s ip))) (\<lambda>dev.
           bindK (bread dev addr) (\<lambda>bp.
           bindK (bdata bp) (\<lambda>x.
           let m = rw_chunk rest off; bs = get_bytes x (of_nat (off mod BSIZE)) m in
           bindK (either_copyout dst bs) (\<lambda>e.
           thenK (brelse bp) (
           if e = -1 then retK []
           else bindK (readi_loop ip (place_add dst (of_nat m)) (off + m) (rest - m)) (\<lambda>bs'.
                retK (bs @ bs')))))))))"
  by pat_completeness auto
termination
  by (relation "measure (\<lambda>(ip, dst, off, rest). rest)") (simp_all add: rw_chunk_pos)

declare readi_loop.simps [simp del]

definition readi :: "nat \<Rightarrow> place \<Rightarrow> u32 \<Rightarrow> u32 \<Rightarrow> (byte list, 'z fs_scheme) kop" where
  "readi ip dst off n =
     bindK (getK (\<lambda>s. i_size (inodes s ip))) (\<lambda>sz.
     if off > sz \<or> off + n < off then retK []
     else readi_loop ip dst (unat off) (if off + n > sz then unat (sz - off) else unat n))"

text \<open>The bytes that \<open>copyin\<close> has stored when it stops, whether it has copied all or not.\<close>

function copyin_done :: "u64 \<Rightarrow> u64 \<Rightarrow> nat \<Rightarrow> (byte list, 'z kmem_scheme) kop" where
  "copyin_done pagetable srcva len =
     (if len = 0 then retK []
      else let va0 = PGROUNDDOWN srcva; n = first_chunk srcva len in
           bindK (walkaddr pagetable va0) (\<lambda>pa0.
           if pa0 = 0 then retK []
           else bindK (getK (\<lambda>s. get_bytes (mem s) (pa0 + (srcva - va0)) n)) (\<lambda>bs.
                bindK (copyin_done pagetable (va0 + PGSIZE) (len - n)) (\<lambda>bs'.
                retK (bs @ bs')))))"
  by pat_completeness auto
termination
  by (relation "measure (\<lambda>(pt, d, len). len)") (simp_all add: first_chunk_pos)

declare copyin_done.simps [simp del]

definition either_copyin_done :: "place \<Rightarrow> byte list \<Rightarrow> nat \<Rightarrow> (byte list, 'z kmem_scheme) kop" where
  "either_copyin_done src v len =
     bindK myproc (\<lambda>p.
     case src of
       User a \<Rightarrow> derefK p (\<lambda>p. bindK (getK (\<lambda>s. p_pagetable (procs s p))) (\<lambda>pt. copyin_done pt a len))
     | Kern a \<Rightarrow> getK (\<lambda>s. get_bytes (mem s) a len)
     | Var \<Rightarrow> retK (take len v))"

text \<open>The loop of \<open>writei\<close>; it gives the offset it has reached. \<open>v\<close> holds the bytes of a kernel variable.\<close>

function writei_loop :: "nat \<Rightarrow> place \<Rightarrow> byte list \<Rightarrow> nat \<Rightarrow> nat \<Rightarrow> (nat, 'z fs_scheme) kop" where
  "writei_loop ip src v off rest =
     (if rest = 0 then retK off
      else bindK (bmap ip (off div BSIZE)) (\<lambda>addr.
           bindK (getK (\<lambda>s. i_dev (inodes s ip))) (\<lambda>dev.
           bindK (bread dev addr) (\<lambda>bp.
           let m = rw_chunk rest off in
           bindK (either_copyin_done src v m) (\<lambda>bs.
           thenK (modK (upd_buf bp (\<lambda>r. r\<lparr>b_data := put_bytes (b_data r) (of_nat (off mod BSIZE)) bs\<rparr>))) (
           if length bs < m
           then thenK (brelse bp) (retK off)
           else thenK (log_write bp) (
                thenK (brelse bp)
                      (writei_loop ip (place_add src (of_nat m)) (drop m v) (off + m) (rest - m)))))))))"
  by pat_completeness auto
termination
  by (relation "measure (\<lambda>(ip, src, v, off, rest). rest)") (simp_all add: rw_chunk_pos)

declare writei_loop.simps [simp del]

definition writei :: "nat \<Rightarrow> place \<Rightarrow> byte list \<Rightarrow> u32 \<Rightarrow> u32 \<Rightarrow> (int, 'z fs_scheme) kop" where
  "writei ip src v off n =
     bindK (getK (\<lambda>s. i_size (inodes s ip))) (\<lambda>sz.
     if off > sz \<or> off + n < off then retK (-1)
     else if unat (off + n) > MAXFILE * BSIZE then retK (-1)
     else bindK (writei_loop ip src v (unat off) (unat n)) (\<lambda>off'.
          thenK (whenK (0 < n)
                   (thenK (modK (upd_inode ip (\<lambda>r. r\<lparr>i_size := (if of_nat off' > i_size r then of_nat off' else i_size r)\<rparr>)))
                          (iupdate ip)))
                (retK (sint n))))"

section \<open>Directories\<close>

text \<open>\<open>strncmp\<close> and \<open>strncpy\<close> of \<open>DIRSIZ\<close> characters between arrays that are not in pages.\<close>

definition arrays :: "byte list \<Rightarrow> byte list \<Rightarrow> ram" where
  "arrays p q = put_bytes (put_bytes (\<lambda>_. 0) 0 p) 0x100000000 q"

definition namecmp :: "byte list \<Rightarrow> byte list \<Rightarrow> int" where
  "namecmp s t = strncmp (arrays s t) 0 0x100000000 (of_nat DIRSIZ)"

definition strncpy_name :: "byte list \<Rightarrow> byte list" where
  "strncpy_name name = get_bytes (strncpy (arrays [] name) 0 0x100000000 (of_nat DIRSIZ)) 0 DIRSIZ"

definition dirent_of :: "byte list \<Rightarrow> dirent" where
  "dirent_of bs = \<lparr>de_inum = le_word (take 2 bs), de_name = drop 2 bs\<rparr>"

definition dirent_bytes :: "dirent \<Rightarrow> byte list" where
  "dirent_bytes de = le_bytes 2 (de_inum de) @ de_name de"

text \<open>The offsets at which the loops over a directory of a given size read, \<^verbatim>\<open>sizeof(struct dirent)\<close> = 16.\<close>

definition dir_offs :: "u32 \<Rightarrow> nat list" where
  "dir_offs sz = map (\<lambda>k. k * 16) [0..<(unat sz + 15) div 16]"

definition read_dirent :: "nat \<Rightarrow> nat \<Rightarrow> string \<Rightarrow> (dirent, 'z fs_scheme) kop" where
  "read_dirent dp off msg =
     bindK (readi dp Var (of_nat off) 16) (\<lambda>bs.
     if length bs \<noteq> 16 then panicK msg else retK (dirent_of bs))"

definition dirlookup_at :: "nat \<Rightarrow> byte list \<Rightarrow> nat \<Rightarrow> ((nat \<times> nat) option, 'z fs_scheme) kop" where
  "dirlookup_at dp name off =
     bindK (read_dirent dp off ''dirlookup read'') (\<lambda>de.
     if de_inum de = 0 then retK None
     else if namecmp name (de_name de) = 0
     then bindK (getK (\<lambda>s. i_dev (inodes s dp))) (\<lambda>dev.
          bindK (iget dev (ucast (de_inum de))) (\<lambda>ip.
          retK (Some (ip, off))))
     else retK None)"

text \<open>\<open>dirlookup\<close> gives the inode and the offset of its entry, which C stores in \<^verbatim>\<open>*poff\<close>.\<close>

definition dirlookup :: "nat \<Rightarrow> byte list \<Rightarrow> ((nat \<times> nat) option, 'z fs_scheme) kop" where
  "dirlookup dp name =
     bindK (getK (\<lambda>s. inodes s dp)) (\<lambda>r.
     if i_type r \<noteq> T_DIR then panicK ''dirlookup not DIR''
     else searchK (dirlookup_at dp name) (dir_offs (i_size r)))"

definition empty_dirent_at :: "nat \<Rightarrow> nat \<Rightarrow> (nat option, 'z fs_scheme) kop" where
  "empty_dirent_at dp off =
     bindK (read_dirent dp off ''dirlink read'') (\<lambda>de.
     retK (if de_inum de = 0 then Some off else None))"

definition dirlink :: "nat \<Rightarrow> byte list \<Rightarrow> u32 \<Rightarrow> (int, 'z fs_scheme) kop" where
  "dirlink dp name inum =
     bindK (dirlookup dp name) (\<lambda>r.
     case r of
       Some (ip, _) \<Rightarrow> thenK (iput ip) (retK (-1))
     | None \<Rightarrow>
         bindK (getK (\<lambda>s. i_size (inodes s dp))) (\<lambda>sz.
         bindK (searchK (empty_dirent_at dp) (dir_offs sz)) (\<lambda>e.
         let off = (case e of Some off \<Rightarrow> off | None \<Rightarrow> 16 * ((unat sz + 15) div 16));
             de = \<lparr>de_inum = ucast inum, de_name = strncpy_name name\<rparr> in
         bindK (writei dp Var (dirent_bytes de) (of_nat off) 16) (\<lambda>n.
         if n \<noteq> 16 then panicK ''dirlink'' else retK 0))))"

section \<open>Paths\<close>

definition slash :: byte where
  "slash = 0x2F"

text \<open>\<open>skipelem\<close> gives the element, cut to \<open>DIRSIZ\<close> characters, and the rest of the pathname.\<close>

definition skipelem :: "byte list \<Rightarrow> (byte list \<times> byte list) option" where
  "skipelem pathname =
     (let p = dropWhile (\<lambda>c. c = slash) pathname in
      if p = [] then None
      else Some (take DIRSIZ (takeWhile (\<lambda>c. c \<noteq> slash) p),
                 dropWhile (\<lambda>c. c = slash) (dropWhile (\<lambda>c. c \<noteq> slash) p)))"

lemma skipelem_shorter: "skipelem pathname = Some (name, rest) \<Longrightarrow> length rest < length pathname"
proof -
  assume a: "skipelem pathname = Some (name, rest)"
  define p where "p = dropWhile (\<lambda>c. c = slash) pathname"
  have p: "p \<noteq> []" "rest = dropWhile (\<lambda>c. c = slash) (dropWhile (\<lambda>c. c \<noteq> slash) p)"
    using a by (auto simp: skipelem_def p_def Let_def split: if_splits)
  then have "hd p \<noteq> slash" using hd_dropWhile [of "\<lambda>c. c = slash" pathname] by (simp add: p_def)
  then have "length (dropWhile (\<lambda>c. c \<noteq> slash) p) < length p"
    using p(1) by (cases p) (auto simp: less_Suc_eq_le length_dropWhile_le)
  then have "length rest < length p" using p(2) length_dropWhile_le le_less_trans by metis
  also have "\<dots> \<le> length pathname" by (simp add: p_def length_dropWhile_le)
  finally show ?thesis .
qed

function namex_loop :: "nat \<Rightarrow> byte list \<Rightarrow> bool \<Rightarrow> byte list \<Rightarrow> ((nat \<times> byte list) option, 'z fs_scheme) kop" where
  "namex_loop ip pathname parent name =
     (case skipelem pathname of
        None \<Rightarrow>
          if parent then thenK (iput ip) (retK None) else retK (Some (ip, name))
      | Some (name, rest) \<Rightarrow>
          thenK (ilock (Some ip)) (
          bindK (getK (\<lambda>s. i_type (inodes s ip))) (\<lambda>ty.
          if ty \<noteq> T_DIR then thenK (iunlockput ip) (retK None)
          else if parent \<and> rest = [] then thenK (iunlock (Some ip)) (retK (Some (ip, name)))
          else bindK (dirlookup ip name) (\<lambda>r.
               case r of
                 None \<Rightarrow> thenK (iunlockput ip) (retK None)
               | Some (nxt, _) \<Rightarrow>
                   thenK (iunlockput ip)
                         (namex_loop nxt rest parent name)))))"
  by pat_completeness auto
termination
  by (relation "measure (\<lambda>(ip, pathname, parent, name). length pathname)") (auto dest: skipelem_shorter)

declare namex_loop.simps [simp del]

text \<open>\<open>namex\<close> gives the inode and the last element copied to \<^verbatim>\<open>name\<close>.\<close>

definition namex :: "byte list \<Rightarrow> bool \<Rightarrow> ((nat \<times> byte list) option, 'z fs_scheme) kop" where
  "namex pathname parent =
     bindK (if pathname \<noteq> [] \<and> hd pathname = slash then iget ROOTDEV ROOTINO
            else bindK myproc (\<lambda>p. derefK p (\<lambda>p.
                 bindK (getK (\<lambda>s. p_cwd (procs s p))) (\<lambda>cwd. derefK cwd idup)))) (\<lambda>ip.
     namex_loop ip pathname parent [])"

definition namei :: "byte list \<Rightarrow> (nat option, 'z fs_scheme) kop" where
  "namei pathname = bindK (namex pathname False) (\<lambda>r. retK (map_option fst r))"

definition nameiparent :: "byte list \<Rightarrow> ((nat \<times> byte list) option, 'z fs_scheme) kop" where
  "nameiparent pathname = namex pathname True"

section \<open>Lock steps\<close>

lemma fs_acq [simp]:
  "sb (acq l s) = sb s" "inodes (acq l s) = inodes s"
  "(acq l s)\<lparr>sb := x\<rparr> = acq l (s\<lparr>sb := x\<rparr>)" "(acq l s)\<lparr>inodes := y\<rparr> = acq l (s\<lparr>inodes := y\<rparr>)"
  "quiet (s\<lparr>sb := x\<rparr>) = quiet s" "cpu_ok (s\<lparr>sb := x\<rparr>) = cpu_ok s" "cid (s\<lparr>sb := x\<rparr>) = cid s"
  "quiet (s\<lparr>inodes := y\<rparr>) = quiet s" "cpu_ok (s\<lparr>inodes := y\<rparr>) = cpu_ok s" "cid (s\<lparr>inodes := y\<rparr>) = cid s"
  "lock_free l (s\<lparr>inodes := y\<rparr>) = lock_free l s" "proc_locks_free (s\<lparr>inodes := y\<rparr>) = proc_locks_free s"
  by (simp_all add: acq_def upd_lock_def pushed_def cid_def intr_enabled_def quiet_def cpu_ok_def lock_free_def proc_locks_free_def)

definition boot_sb :: superblock where
  "boot_sb = \<lparr>sb_magic = FSMAGIC, sb_size = 1000, sb_nblocks = 954, sb_ninodes = 200, sb_nlog = 30, sb_logstart = 2,
     sb_inodestart = 32, sb_bmapstart = 45\<rparr>"

definition blank_inode :: inode where
  "blank_inode = \<lparr>i_dev = 0, i_inum = 0, i_ref = 0, i_valid = False, i_type = 0, i_major = 0, i_minor = 0, i_nlink = 0,
     i_size = 0, i_addrs = (\<lambda>_. 0)\<rparr>"

definition boot_fs :: "(u64 \<Rightarrow> block) \<Rightarrow> (nat \<Rightarrow> buf) \<Rightarrow> fs" where
  "boot_fs x bs = logging.extend (virtio.extend (boot_virtio x bs) (logging.fields boot_log)) (fs.fields boot_sb (\<lambda>_. blank_inode))"

section \<open>Inodes on disk\<close>

abbreviation (input) put_addr :: "10 word \<Rightarrow> dinode \<Rightarrow> nat \<Rightarrow> block \<Rightarrow> block" where
  "put_addr a d k \<equiv> put_at a (12 + 4 * k) (le_bytes 4 (di_addrs d k))"

definition put_head :: "10 word \<Rightarrow> dinode \<Rightarrow> block \<Rightarrow> block" where
  "put_head a d x = put_at a 8 (le_bytes 4 (di_size d)) (put_at a 6 (le_bytes 2 (di_nlink d))
     (put_at a 4 (le_bytes 2 (di_minor d)) (put_at a 2 (le_bytes 2 (di_major d)) (put_at a 0 (le_bytes 2 (di_type d)) x))))"

lemma put_dinode_alt: "put_dinode a d x = fold (put_addr a d) [0..<NDIRECT + 1] (put_head a d x)"
  by (simp add: put_dinode_def put_head_def put_at_def [abs_def] put16_def put32_def [abs_def] add.assoc)

lemma get_dinode_alt:
  "get_dinode x a = \<lparr>di_type = le_word (get_at a 0 2 x), di_major = le_word (get_at a 2 2 x), di_minor = le_word (get_at a 4 2 x),
     di_nlink = le_word (get_at a 6 2 x), di_size = le_word (get_at a 8 4 x),
     di_addrs = (\<lambda>k. if k \<le> NDIRECT then le_word (get_at a (12 + 4 * k) 4 x) else 0)\<rparr>"
  by (simp add: get_dinode_def get_at_def get16_def get32_def add.assoc cong: if_cong)

lemma get_at_addrs_other:
  "\<forall>k \<in> set ks. k \<le> 12 \<Longrightarrow> i + n \<le> 12 \<or> 64 \<le> i \<and> i + n \<le> 1024 \<Longrightarrow>
   get_at a i n (fold (put_addr a d) ks x) = get_at a i n x"
  by (induction ks rule: rev_induct) (auto simp: get_at_other)

lemma get_at_addrs:
  "\<forall>k \<in> set ks. k \<le> 12 \<Longrightarrow> k \<in> set ks \<Longrightarrow>
   get_at a (12 + 4 * k) 4 (fold (put_addr a d) ks x) = le_bytes 4 (di_addrs d k)"
proof (induction ks rule: rev_induct)
  case (snoc j ks)
  show ?case
  proof (cases "k = j")
    case True
    then show ?thesis using get_at_same [of "le_bytes 4 (di_addrs d j)" a "12 + 4 * j"] by simp
  next
    case False
    then have "12 + 4 * k + 4 \<le> 12 + 4 * j \<or> 12 + 4 * j + 4 \<le> 12 + 4 * k" by linarith
    moreover have "k \<in> set ks" "k \<le> 12" "j \<le> 12" using False snoc.prems by auto
    moreover have "get_at a (12 + 4 * k) 4 (fold (put_addr a d) ks x) = le_bytes 4 (di_addrs d k)"
      using snoc.IH snoc.prems False by simp
    ultimately show ?thesis
      using get_at_other [of "12 + 4 * k" 4 "12 + 4 * j" "le_bytes 4 (di_addrs d j)" a] by simp
  qed
qed simp

lemma get_at_head:
  "get_at a 0 2 (put_head a d x) = le_bytes 2 (di_type d)" "get_at a 2 2 (put_head a d x) = le_bytes 2 (di_major d)"
  "get_at a 4 2 (put_head a d x) = le_bytes 2 (di_minor d)" "get_at a 6 2 (put_head a d x) = le_bytes 2 (di_nlink d)"
  "get_at a 8 4 (put_head a d x) = le_bytes 4 (di_size d)"
  using get_at_same [of "le_bytes 2 (di_type d)" a 0] get_at_same [of "le_bytes 2 (di_major d)" a 2]
    get_at_same [of "le_bytes 2 (di_minor d)" a 4] get_at_same [of "le_bytes 2 (di_nlink d)" a 6]
    get_at_same [of "le_bytes 4 (di_size d)" a 8]
  by (simp_all add: put_head_def get_at_other)

lemma get_at_head_other: "12 \<le> i \<Longrightarrow> i + n \<le> 1024 \<Longrightarrow> get_at a i n (put_head a d x) = get_at a i n x"
  by (simp add: put_head_def get_at_other)

lemma get_at_put_dinode: "64 \<le> i \<Longrightarrow> i + n \<le> 1024 \<Longrightarrow> get_at a i n (put_dinode a d x) = get_at a i n x"
  unfolding put_dinode_alt by (subst get_at_addrs_other) (auto simp: NDIRECT_def get_at_head_other)

lemma get_put_dinode: "get_dinode (put_dinode a d x) a = d\<lparr>di_addrs := (\<lambda>k. if k \<le> NDIRECT then di_addrs d k else 0)\<rparr>"
proof -
  have ks: "\<forall>k \<in> set [0..<NDIRECT + 1]. k \<le> 12" by (auto simp: NDIRECT_def)
  have "get_at a (12 + 4 * k) 4 (put_dinode a d x) = le_bytes 4 (di_addrs d k)" if "k \<le> NDIRECT" for k
    unfolding put_dinode_alt by (rule get_at_addrs [OF ks]) (use that in auto)
  moreover have "get_at a i n (put_dinode a d x) = get_at a i n (put_head a d x)" if "i + n \<le> 12" for i n
    unfolding put_dinode_alt by (rule get_at_addrs_other [OF ks]) (simp add: that)
  ultimately show ?thesis
    unfolding get_dinode_alt by (cases d) (simp add: get_at_head cong: if_cong)
qed

lemma get_at_shift: "get_at (a + of_nat k) i n x = get_at a (k + i) n x"
  by (simp add: get_at_def add.assoc)

text \<open>The slot of an inode in its block, and what is at the other slots.\<close>

lemma dinode_at_diff:
  "unat i mod IPB \<noteq> unat j mod IPB \<Longrightarrow>
   \<exists>k. 64 \<le> k \<and> k + 64 \<le> 1024 \<and> dinode_at j = dinode_at i + of_nat k"
proof -
  assume ne: "unat i mod IPB \<noteq> unat j mod IPB"
  define p q where "p = unat i mod IPB" and "q = unat j mod IPB"
  have b: "p < 16" "q < 16" "p \<noteq> q" using ne by (simp_all add: p_def q_def IPB_def BSIZE_def)
  define k where "k = (if p < q then 64 * (q - p) else 1024 - 64 * (p - q))"
  have k: "64 \<le> k" "k + 64 \<le> 1024" using b by (auto simp: k_def)
  have "64 * p + k = 64 * q \<or> 64 * p + k = 1024 + 64 * q" using b by (auto simp: k_def)
  then have "(64 * q) mod 1024 = (64 * p + k) mod 1024" by auto
  then have "(of_nat (64 * q) :: 10 word) = of_nat (64 * p + k)"
    by (simp only: word_unat_eq_iff unsigned_of_nat take_bit_eq_mod) simp
  then have "(of_nat (64 * q) :: 10 word) = of_nat (64 * p) + of_nat k" by (simp only: of_nat_add)
  then show ?thesis using k by (auto simp: dinode_at_def p_def [symmetric] q_def [symmetric])
qed

lemma get_dinode_other:
  assumes "unat i mod IPB \<noteq> unat j mod IPB"
  shows "get_dinode (put_dinode (dinode_at i) d x) (dinode_at j) = get_dinode x (dinode_at j)"
proof -
  obtain k where k: "64 \<le> k" "k + 64 \<le> 1024" "dinode_at j = dinode_at i + of_nat k"
    using dinode_at_diff [OF assms] by blast
  have "get_at (dinode_at j) off n (put_dinode (dinode_at i) d x) = get_at (dinode_at j) off n x" if "off + n \<le> 64" for off n
    unfolding k(3) get_at_shift by (rule get_at_put_dinode) (use k that in simp_all)
  then show ?thesis unfolding get_dinode_alt by (simp add: NDIRECT_def cong: if_cong)
qed



section \<open>Path elements\<close>

text \<open>The names \<open>namex\<close> looks up, one \<open>skipelem\<close> at a time.\<close>

function path_names :: "byte list \<Rightarrow> byte list list" where
  "path_names pathname = (case skipelem pathname of None \<Rightarrow> [] | Some (name, rest) \<Rightarrow> name # path_names rest)"
  by pat_completeness auto
termination
  by (relation "measure length") (auto dest: skipelem_shorter)

declare path_names.simps [simp del]

text \<open>The reference: the pieces between slashes, the empty ones dropped.\<close>

primrec pieces :: "byte list \<Rightarrow> byte list list" where
  "pieces [] = [[]]"
| "pieces (c # cs) = (if c = slash then [] # pieces cs else (c # hd (pieces cs)) # tl (pieces cs))"

definition components :: "byte list \<Rightarrow> byte list list" where
  "components cs = filter (\<lambda>e. e \<noteq> []) (pieces cs)"

lemma pieces_ne [simp]: "pieces cs \<noteq> []"
  by (cases cs) simp_all

lemma pieces_span:
  "pieces cs = takeWhile (\<lambda>c. c \<noteq> slash) cs #
     (case dropWhile (\<lambda>c. c \<noteq> slash) cs of [] \<Rightarrow> [] | _ # cs' \<Rightarrow> pieces cs')"
  by (induction cs) simp_all

lemma components_slash: "components (dropWhile (\<lambda>c. c = slash) cs) = components cs"
  by (induction cs) (simp_all add: components_def)

lemma components_word:
  assumes "cs \<noteq> []" and "hd cs \<noteq> slash"
  shows "components cs = takeWhile (\<lambda>c. c \<noteq> slash) cs # components (dropWhile (\<lambda>c. c \<noteq> slash) cs)"
proof -
  have ne: "takeWhile (\<lambda>c. c \<noteq> slash) cs \<noteq> []" using assms by (cases cs) simp_all
  show ?thesis
  proof (cases "dropWhile (\<lambda>c. c \<noteq> slash) cs")
    case Nil
    show ?thesis unfolding components_def pieces_span [of cs] Nil using ne by simp
  next
    case (Cons c cs')
    then have "c = slash" using hd_dropWhile [of "\<lambda>c. c \<noteq> slash" cs] by simp
    then show ?thesis using ne Cons by (simp add: components_def pieces_span [of cs])
  qed
qed

text \<open>
  C22: Taking a path apart with \<open>skipelem\<close> gives exactly the non-empty pieces between its slashes, each
  cut to \<open>DIRSIZ\<close> characters.
\<close>

theorem skipelem_splits_path: "path_names pathname = map (take DIRSIZ) (components pathname)"
proof (induction pathname rule: path_names.induct)
  case (1 pathname)
  define p where "p = dropWhile (\<lambda>c. c = slash) pathname"
  show ?case
  proof (cases "p = []")
    case True
    have "components p = components pathname" unfolding p_def by (rule components_slash)
    then have "components pathname = []" unfolding True by (simp add: components_def)
    moreover have "skipelem pathname = None" using True unfolding skipelem_def p_def [symmetric] by simp
    ultimately show ?thesis by (subst path_names.simps) simp
  next
    case False
    let ?rest = "dropWhile (\<lambda>c. c = slash) (dropWhile (\<lambda>c. c \<noteq> slash) p)"
    have sk: "skipelem pathname = Some (take DIRSIZ (takeWhile (\<lambda>c. c \<noteq> slash) p), ?rest)"
      using False by (simp add: skipelem_def p_def Let_def)
    have "hd p \<noteq> slash" using False hd_dropWhile [of "\<lambda>c. c = slash" pathname] by (simp add: p_def)
    then have "components pathname = takeWhile (\<lambda>c. c \<noteq> slash) p # components ?rest"
      using components_word [OF False] components_slash [of pathname] components_slash [of "dropWhile (\<lambda>c. c \<noteq> slash) p"]
      by (simp add: p_def)
    then show ?thesis using 1 [OF sk refl] sk by (subst path_names.simps) simp
  qed
qed

section \<open>The inode cache\<close>

definition icache_ok :: "(nat \<Rightarrow> inode) \<Rightarrow> bool" where
  "icache_ok ic \<longleftrightarrow> (\<forall>i < NINODE. 0 \<le> i_ref (ic i)) \<and>
     (\<forall>i < NINODE. \<forall>j < NINODE. 0 < i_ref (ic i) \<longrightarrow> 0 < i_ref (ic j) \<longrightarrow>
        i_dev (ic i) = i_dev (ic j) \<longrightarrow> i_inum (ic i) = i_inum (ic j) \<longrightarrow> i = j)"

definition cached :: "u32 \<Rightarrow> u32 \<Rightarrow> (nat \<Rightarrow> inode) \<Rightarrow> bool" where
  "cached dev inum ic \<longleftrightarrow> (\<exists>i < NINODE. 0 < i_ref (ic i) \<and> i_dev (ic i) = dev \<and> i_inum (ic i) = inum)"

lemma find_upt_Some: "find P [0..<n] = Some i \<Longrightarrow> i < n \<and> P i"
  by (auto simp: find_Some_iff)

lemma find_upt_None: "find P [0..<n] = None \<longleftrightarrow> (\<forall>i < n. \<not> P i)"
  by (auto simp: find_None_iff)

text \<open>
  C23: \<open>iget\<close> keeps at most one cache entry per inode, gives the entry of the inode asked for with one
  more reference, leaves a cached inode valid and changes no other entry.
\<close>

theorem iget_one_entry:
  assumes q: "quiet s" and ok: "icache_ok (inodes s)" and run: "iget dev inum s = Ret ip t"
  shows "icache_ok (inodes t) \<and> ip < NINODE \<and> i_dev (inodes t ip) = dev \<and> i_inum (inodes t ip) = inum \<and>
    i_ref (inodes t ip) = i_ref (inodes s ip) + 1 \<and>
    (cached dev inum (inodes s) \<longrightarrow> inodes t ip = (inodes s ip)\<lparr>i_ref := i_ref (inodes s ip) + 1\<rparr>) \<and>
    (\<not> cached dev inum (inodes s) \<longrightarrow> i_ref (inodes s ip) = 0 \<and> \<not> i_valid (inodes t ip)) \<and>
    (\<forall>j. j \<noteq> ip \<longrightarrow> inodes t j = inodes s j)"
proof (cases "find (\<lambda>i. i_ref (inodes s i) > 0 \<and> i_dev (inodes s i) = dev \<and> i_inum (inodes s i) = inum) [0..<NINODE]")
  case (Some i)
  note i = find_upt_Some [OF Some]
  then have "ip = i" "inodes t = (inodes s)(i := (inodes s i)\<lparr>i_ref := i_ref (inodes s i) + 1\<rparr>)"
    using run q Some by (auto simp: iget_def lock_steps upd_inode_def)
  moreover have "cached dev inum (inodes s)" using i by (auto simp: cached_def)
  ultimately show ?thesis using i ok by (auto simp: icache_ok_def)
next
  case None
  then have nc: "\<not> cached dev inum (inodes s)" by (auto simp: find_upt_None cached_def)
  show ?thesis
  proof (cases "find (\<lambda>i. i_ref (inodes s i) = 0) [0..<NINODE]")
    case N2: None
    then show ?thesis using run q None by (simp add: iget_def lock_steps)
  next
    case (Some i)
    note i = find_upt_Some [OF Some]
    have t: "ip = i" "inodes t = (inodes s)(i := (inodes s i)\<lparr>i_dev := dev, i_inum := inum, i_ref := 1, i_valid := False\<rparr>)"
      using run q None Some by (auto simp: iget_def lock_steps upd_inode_def)
    have "icache_ok (inodes t)" using ok nc i unfolding icache_ok_def cached_def t by auto
    then show ?thesis using t i nc by simp
  qed
qed

lemma boot_fs_quiet [simp]: "quiet (boot_fs x bs)" "inodes (boot_fs x bs) = (\<lambda>_. blank_inode)" "log (boot_fs x bs) = boot_log"
  by (simp_all add: boot_fs_def boot_virtio_def boot_console_def boot_kmem_def boot_sleeplocks_def
      sleeplocks.defs kmem.defs vm.defs image.defs uart.defs kprint.defs console.defs virtio.defs logging.defs fs.defs
      quiet_def cpu_ok_def lock_free_def intr_enabled_def cid_def SSTATUS_SIE_def)

theorem iget_one_entry_witness:
  "\<exists>ip t. iget 1 7 (boot_fs (\<lambda>_ _. 0) (\<lambda>_. blank_buf)) = Ret ip t \<and> i_inum (inodes t ip) = 7 \<and> i_ref (inodes t ip) = 1"
proof -
  let ?s = "boot_fs (\<lambda>_ _. 0) (\<lambda>_. blank_buf)"
  have ok: "icache_ok (inodes ?s)" by (simp add: icache_ok_def blank_inode_def)
  have f: "find (\<lambda>_. True) [0..<NINODE] = Some 0" "find (\<lambda>_. False) [0..<NINODE] = None"
    by (simp_all add: NINODE_def upt_conv_Cons find_None_iff)
  have "\<exists>ip t. iget 1 7 ?s = Ret ip t"
    by (simp add: iget_def lock_steps f blank_inode_def upd_inode_def)
  then obtain ip t where run: "iget 1 7 ?s = Ret ip t" by blast
  then show ?thesis using iget_one_entry [OF boot_fs_quiet(1) ok run] by (auto simp: blank_inode_def)
qed

end
