(* ===== verification/Fifo_Spec.thy ===== *)
theory Fifo_Spec
  imports Prelude
begin

text \<open>
  The contract of a bounded queue, as a locale: \<open>put\<close> appends while there is room, \<open>get\<close> takes the
  oldest element. What a client puts comes out unchanged and in order. The ring buffer of a pipe is
  an instance, with counters that wrap around.
\<close>

primrec gets :: "('r \<Rightarrow> 'b \<times> 'r) \<Rightarrow> nat \<Rightarrow> 'r \<Rightarrow> 'b list \<times> 'r" where
  "gets get 0 r = ([], r)"
| "gets get (Suc n) r = (let (x, r1) = get r; (xs, r2) = gets get n r1 in (x # xs, r2))"

locale fifo =
  fixes ok :: "'r \<Rightarrow> bool"
    and content :: "'r \<Rightarrow> 'b list"
    and cap :: nat
    and put :: "'b \<Rightarrow> 'r \<Rightarrow> 'r"
    and get :: "'r \<Rightarrow> 'b \<times> 'r"
  assumes put_ok: "ok r \<Longrightarrow> length (content r) < cap \<Longrightarrow> ok (put x r)"
    and put_content: "ok r \<Longrightarrow> length (content r) < cap \<Longrightarrow> content (put x r) = content r @ [x]"
    and get_ok: "ok r \<Longrightarrow> content r \<noteq> [] \<Longrightarrow> ok (snd (get r))"
    and get_content: "ok r \<Longrightarrow> content r \<noteq> [] \<Longrightarrow> content r = fst (get r) # content (snd (get r))"
begin

lemma puts_content:
  "ok r \<Longrightarrow> length (content r) + length xs \<le> cap \<Longrightarrow>
   ok (fold put xs r) \<and> content (fold put xs r) = content r @ xs"
  by (induction xs arbitrary: r) (simp_all add: put_ok put_content)

lemma gets_content:
  "ok r \<Longrightarrow> n \<le> length (content r) \<Longrightarrow>
   fst (gets get n r) = take n (content r) \<and> content (snd (gets get n r)) = drop n (content r) \<and> ok (snd (gets get n r))"
proof (induction n arbitrary: r)
  case 0
  then show ?case by simp
next
  case (Suc n)
  then have ne: "content r \<noteq> []" by auto
  note c = get_content [OF Suc.prems(1) ne]
  have "n \<le> length (content (snd (get r)))" using Suc.prems(2) by (subst (asm) c) simp
  note ih = Suc.IH [OF get_ok [OF Suc.prems(1) ne] this]
  have "take (Suc n) (content r) = fst (get r) # take n (content (snd (get r)))" by (subst c) simp
  moreover have "drop (Suc n) (content r) = drop n (content (snd (get r)))" by (subst c) simp
  ultimately show ?case using ih by (simp add: split_def Let_def)
qed

lemma out_in_order:
  "ok r \<Longrightarrow> length (content r) + length xs \<le> cap \<Longrightarrow>
   fst (gets get (length (content r) + length xs) (fold put xs r)) = content r @ xs"
  using puts_content [of r xs] gets_content [of "fold put xs r" "length (content r) + length xs"] by simp

end

end
