(* ===== verification/File.thy ===== *)
theory File
  imports Fs Fifo_Spec
begin

text \<open>
  Open files and pipes: \<^verbatim>\<open>kernel/file.c\<close>, \<^verbatim>\<open>kernel/pipe.c\<close> and \<open>consoleinit\<close> of \<^verbatim>\<open>kernel/console.c\<close>. A pipe is
  named by the address of the page it was allocated in. Its two counters run freely as 32-bit
  numbers and index the 512 = 2 ^ 9 bytes of data by their value modulo that size.
\<close>

section \<open>State\<close>

definition NFILE :: nat where
  "NFILE = 100"

definition NDEV :: int where
  "NDEV = 10"

definition CONSOLE :: nat where
  "CONSOLE = 1"

definition PIPESIZE :: u32 where
  "PIPESIZE = 512"

datatype ftype = FD_NONE | FD_PIPE | FD_INODE | FD_DEVICE

record openfile =
  f_type :: ftype
  f_ref :: int
  f_readable :: bool
  f_writable :: bool
  f_pipe :: u64
  f_ip :: nat
  f_off :: u32
  f_major :: u16

record pipe =
  pi_data :: "9 word \<Rightarrow> byte"
  pi_nread :: u32
  pi_nwrite :: u32
  pi_readopen :: bool
  pi_writeopen :: bool

text \<open>The functions that \<^verbatim>\<open>devsw[]\<close> may point to; the console sets its entry, the others are null.\<close>

datatype devfn = Consoleread | Consolewrite

record devsw =
  dev_read :: "devfn option"
  dev_write :: "devfn option"

record ftable = fs +
  files :: "nat \<Rightarrow> openfile"
  pipes :: "u64 \<Rightarrow> pipe"
  devsws :: "nat \<Rightarrow> devsw"
  stat_pad :: "byte list"

definition upd_file :: "nat \<Rightarrow> (openfile \<Rightarrow> openfile) \<Rightarrow> 'z ftable_scheme \<Rightarrow> 'z ftable_scheme" where
  "upd_file i f s = s\<lparr>files := (files s)(i := f (files s i))\<rparr>"

definition upd_pipe :: "u64 \<Rightarrow> (pipe \<Rightarrow> pipe) \<Rightarrow> 'z ftable_scheme \<Rightarrow> 'z ftable_scheme" where
  "upd_pipe a f s = s\<lparr>pipes := (pipes s)(a := f (pipes s a))\<rparr>"

definition consoleinit :: "(unit, 'z ftable_scheme) kop" where
  "consoleinit =
     thenK (initlock Cons_lock ''cons'') (
     thenK uartinit
           (modK (\<lambda>s. s\<lparr>devsws := (devsws s)(CONSOLE := \<lparr>dev_read = Some Consoleread, dev_write = Some Consolewrite\<rparr>)\<rparr>)))"

section \<open>Pipes\<close>

definition pipeclose :: "u64 \<Rightarrow> bool \<Rightarrow> (unit, 'z ftable_scheme) kop" where
  "pipeclose pi writable =
     thenK (acquire (Pipe_lock pi)) (
     thenK (if writable
            then thenK (modK (upd_pipe pi (\<lambda>r. r\<lparr>pi_writeopen := False\<rparr>))) (wakeup (Ch_pipe_nread pi))
            else thenK (modK (upd_pipe pi (\<lambda>r. r\<lparr>pi_readopen := False\<rparr>))) (wakeup (Ch_pipe_nwrite pi))) (
     bindK (getK (\<lambda>s. \<not> pi_readopen (pipes s pi) \<and> \<not> pi_writeopen (pipes s pi))) (\<lambda>closed.
     if closed then thenK (release (Pipe_lock pi)) (kfree pi)
     else release (Pipe_lock pi))))"

definition pi_put :: "byte \<Rightarrow> pipe \<Rightarrow> pipe" where
  "pi_put ch r = r\<lparr>pi_data := (pi_data r)(ucast (pi_nwrite r) := ch), pi_nwrite := pi_nwrite r + 1\<rparr>"

text \<open>
  The loop of \<open>pipewrite\<close> with \<open>k\<close> bytes to go after \<open>i\<close>; \<open>None\<close> is the return of -1 from inside. A
  writer that sleeps on a full pipe goes on with the same byte.
\<close>

primrec pipewrite_loop :: "u64 \<Rightarrow> nat \<Rightarrow> u64 \<Rightarrow> nat \<Rightarrow> nat \<Rightarrow> (nat option, 'z ftable_scheme) kop" where
  "pipewrite_loop pi pr addr i 0 = retK (Some i)"
| "pipewrite_loop pi pr addr i (Suc k) =
     bindK (getK (\<lambda>s. pi_nwrite (pipes s pi) = pi_nread (pipes s pi) + PIPESIZE)) (\<lambda>full.
     if full
     then bindK (getK (\<lambda>s. \<not> pi_readopen (pipes s pi) \<or> p_killed (procs s pr))) (\<lambda>stop.
          if stop then thenK (release (Pipe_lock pi)) (retK None)
          else thenK (wakeup (Ch_pipe_nread pi)) (sleep (Ch_pipe_nwrite pi) (Pipe_lock pi)))
     else bindK (getK (\<lambda>s. p_pagetable (procs s pr))) (\<lambda>pt.
          bindK (copyin pt (addr + of_nat i) 1) (\<lambda>r.
          case r of
            None \<Rightarrow> retK (Some i)
          | Some bs \<Rightarrow>
              thenK (modK (upd_pipe pi (pi_put (hd bs))))
                    (pipewrite_loop pi pr addr (i + 1) k))))"

definition pipewrite :: "u64 \<Rightarrow> u64 \<Rightarrow> u32 \<Rightarrow> (int, 'z ftable_scheme) kop" where
  "pipewrite pi addr n =
     bindK myproc (\<lambda>pr. derefK pr (\<lambda>pr.
     thenK (acquire (Pipe_lock pi)) (
     bindK (pipewrite_loop pi pr addr 0 (nat (sint n))) (\<lambda>r.
     case r of
       None \<Rightarrow> retK (-1)
     | Some i \<Rightarrow>
         thenK (wakeup (Ch_pipe_nread pi)) (
         thenK (release (Pipe_lock pi))
               (retK (int i)))))))"

definition pi_get :: "pipe \<Rightarrow> byte \<times> pipe" where
  "pi_get r = (pi_data r (ucast (pi_nread r)), r\<lparr>pi_nread := pi_nread r + 1\<rparr>)"

primrec piperead_loop :: "u64 \<Rightarrow> nat \<Rightarrow> u64 \<Rightarrow> nat \<Rightarrow> nat \<Rightarrow> (nat, 'z ftable_scheme) kop" where
  "piperead_loop pi pr addr i 0 = retK i"
| "piperead_loop pi pr addr i (Suc k) =
     bindK (getK (\<lambda>s. pi_nread (pipes s pi) = pi_nwrite (pipes s pi))) (\<lambda>empty.
     if empty then retK i
     else bindK (getK (\<lambda>s. fst (pi_get (pipes s pi)))) (\<lambda>ch.
          thenK (modK (upd_pipe pi (\<lambda>r. snd (pi_get r)))) (
          bindK (getK (\<lambda>s. p_pagetable (procs s pr))) (\<lambda>pt.
          bindK (copyout pt (addr + of_nat i) [ch]) (\<lambda>e.
          if e = -1 then retK i
          else piperead_loop pi pr addr (i + 1) k)))))"

text \<open>A reader that sleeps on an empty pipe starts again at the test of \<open>piperead_locked\<close>.\<close>

definition piperead_locked :: "u64 \<Rightarrow> nat \<Rightarrow> u64 \<Rightarrow> u32 \<Rightarrow> (int, 'z ftable_scheme) kop" where
  "piperead_locked pi pr addr n =
     bindK (getK (\<lambda>s. pi_nread (pipes s pi) = pi_nwrite (pipes s pi) \<and> pi_writeopen (pipes s pi))) (\<lambda>wait.
     if wait
     then bindK (getK (\<lambda>s. p_killed (procs s pr))) (\<lambda>killed.
          if killed then thenK (release (Pipe_lock pi)) (retK (-1))
          else sleep (Ch_pipe_nread pi) (Pipe_lock pi))
     else bindK (piperead_loop pi pr addr 0 (nat (sint n))) (\<lambda>i.
          thenK (wakeup (Ch_pipe_nwrite pi)) (
          thenK (release (Pipe_lock pi))
                (retK (int i)))))"

definition piperead :: "u64 \<Rightarrow> u64 \<Rightarrow> u32 \<Rightarrow> (int, 'z ftable_scheme) kop" where
  "piperead pi addr n =
     bindK myproc (\<lambda>pr. derefK pr (\<lambda>pr.
     thenK (acquire (Pipe_lock pi))
           (piperead_locked pi pr addr n)))"

section \<open>Open files\<close>

definition fileinit :: "(unit, 'z ftable_scheme) kop" where
  "fileinit = initlock Ftable_lock ''ftable''"

definition filealloc :: "(nat option, 'z ftable_scheme) kop" where
  "filealloc =
     thenK (acquire Ftable_lock) (
     bindK (getK files) (\<lambda>ft.
     case find (\<lambda>i. f_ref (ft i) = 0) [0..<NFILE] of
       Some f \<Rightarrow>
         thenK (modK (upd_file f (\<lambda>r. r\<lparr>f_ref := 1\<rparr>))) (
         thenK (release Ftable_lock)
               (retK (Some f)))
     | None \<Rightarrow> thenK (release Ftable_lock) (retK None)))"

definition filedup :: "nat \<Rightarrow> (nat, 'z ftable_scheme) kop" where
  "filedup f =
     thenK (acquire Ftable_lock) (
     bindK (getK (\<lambda>s. f_ref (files s f) < 1)) (\<lambda>bad.
     if bad then panicK ''filedup''
     else thenK (modK (upd_file f (\<lambda>r. r\<lparr>f_ref := f_ref r + 1\<rparr>))) (
          thenK (release Ftable_lock)
                (retK f))))"

definition fileclose :: "nat \<Rightarrow> (unit, 'z ftable_scheme) kop" where
  "fileclose f =
     thenK (acquire Ftable_lock) (
     bindK (getK (\<lambda>s. f_ref (files s f) < 1)) (\<lambda>bad.
     if bad then panicK ''fileclose''
     else thenK (modK (upd_file f (\<lambda>r. r\<lparr>f_ref := f_ref r - 1\<rparr>))) (
          bindK (getK (\<lambda>s. files s f)) (\<lambda>ff.
          if f_ref ff > 0 then release Ftable_lock
          else thenK (modK (upd_file f (\<lambda>r. r\<lparr>f_ref := 0, f_type := FD_NONE\<rparr>))) (
               thenK (release Ftable_lock) (
               if f_type ff = FD_PIPE then pipeclose (f_pipe ff) (f_writable ff)
               else if f_type ff = FD_INODE \<or> f_type ff = FD_DEVICE
               then thenK begin_op (thenK (iput (f_ip ff)) end_op)
               else retK ()))))))"

text \<open>\<^verbatim>\<open>struct stat\<close> in memory: 4 + 4 + 2 + 2 bytes, 4 bytes of padding, then the 64-bit size. The padding is
  never assigned; \<open>stat_pad\<close> is what the kernel stack holds there.\<close>

definition stat_bytes :: "stat \<Rightarrow> byte list \<Rightarrow> byte list" where
  "stat_bytes st pad = le_bytes 4 (st_dev st) @ le_bytes 4 (st_ino st) @ le_bytes 2 (st_type st) @
     le_bytes 2 (st_nlink st) @ take 4 pad @ le_bytes 8 (st_size st)"

definition filestat :: "nat \<Rightarrow> u64 \<Rightarrow> (int, 'z ftable_scheme) kop" where
  "filestat f addr =
     bindK myproc (\<lambda>p. derefK p (\<lambda>p.
     bindK (getK (\<lambda>s. files s f)) (\<lambda>r.
     if f_type r = FD_INODE \<or> f_type r = FD_DEVICE
     then thenK (ilock (Some (f_ip r))) (
          bindK (stati (f_ip r)) (\<lambda>st.
          thenK (iunlock (Some (f_ip r))) (
          bindK (getK (\<lambda>s. p_pagetable (procs s p))) (\<lambda>pt.
          bindK (getK stat_pad) (\<lambda>pad.
          bindK (copyout pt addr (stat_bytes st pad)) (\<lambda>e.
          retK (if e < 0 then -1 else 0)))))))
     else retK (-1))))"

definition call_dev :: "devfn \<Rightarrow> u64 \<Rightarrow> u32 \<Rightarrow> (int, 'z ftable_scheme) kop" where
  "call_dev fn addr n =
     (case fn of Consoleread \<Rightarrow> consoleread (User addr) n | Consolewrite \<Rightarrow> consolewrite (User addr) [] n)"

definition fileread :: "nat \<Rightarrow> u64 \<Rightarrow> u32 \<Rightarrow> (int, 'z ftable_scheme) kop" where
  "fileread f addr n =
     bindK (getK (\<lambda>s. files s f)) (\<lambda>r.
     if \<not> f_readable r then retK (-1)
     else case f_type r of
       FD_PIPE \<Rightarrow> piperead (f_pipe r) addr n
     | FD_DEVICE \<Rightarrow>
         if sint (f_major r) < 0 \<or> sint (f_major r) \<ge> NDEV then retK (-1)
         else bindK (getK (\<lambda>s. dev_read (devsws s (unat (f_major r))))) (\<lambda>fn.
              case fn of None \<Rightarrow> retK (-1) | Some fn \<Rightarrow> call_dev fn addr n)
     | FD_INODE \<Rightarrow>
         thenK (ilock (Some (f_ip r))) (
         bindK (readi (f_ip r) (User addr) (f_off r) n) (\<lambda>bs.
         thenK (whenK (0 < length bs) (modK (upd_file f (\<lambda>r. r\<lparr>f_off := f_off r + of_nat (length bs)\<rparr>)))) (
         thenK (iunlock (Some (f_ip r)))
               (retK (int (length bs))))))
     | FD_NONE \<Rightarrow> panicK ''fileread'')"

definition write_max :: nat where
  "write_max = (nat MAXOPBLOCKS - 1 - 1 - 2) div 2 * BSIZE"

text \<open>The loop of \<open>filewrite\<close> with \<open>rest\<close> bytes to go after \<open>i\<close>; it gives the value of \<^verbatim>\<open>i\<close> at its end.\<close>

function filewrite_loop :: "nat \<Rightarrow> nat \<Rightarrow> u64 \<Rightarrow> nat \<Rightarrow> nat \<Rightarrow> (nat, 'z ftable_scheme) kop" where
  "filewrite_loop f ip addr i rest =
     (if rest = 0 then retK i
      else let n1 = min rest write_max in
           thenK begin_op (
           thenK (ilock (Some ip)) (
           bindK (getK (\<lambda>s. f_off (files s f))) (\<lambda>off.
           bindK (writei ip (User (addr + of_nat i)) [] off (of_nat n1)) (\<lambda>r.
           thenK (whenK (0 < r) (modK (upd_file f (\<lambda>x. x\<lparr>f_off := f_off x + word_of_int r\<rparr>)))) (
           thenK (iunlock (Some ip)) (
           thenK end_op (
           if r < 0 then retK i
           else if r \<noteq> int n1 then panicK ''short filewrite''
           else filewrite_loop f ip addr (i + n1) (rest - n1)))))))))"
  by pat_completeness auto
termination
  by (relation "measure (\<lambda>(f, ip, addr, i, rest). rest)") (simp_all add: write_max_def BSIZE_def MAXOPBLOCKS_def)

declare filewrite_loop.simps [simp del]

definition filewrite :: "nat \<Rightarrow> u64 \<Rightarrow> u32 \<Rightarrow> (int, 'z ftable_scheme) kop" where
  "filewrite f addr n =
     bindK (getK (\<lambda>s. files s f)) (\<lambda>r.
     if \<not> f_writable r then retK (-1)
     else case f_type r of
       FD_PIPE \<Rightarrow> pipewrite (f_pipe r) addr n
     | FD_DEVICE \<Rightarrow>
         if sint (f_major r) < 0 \<or> sint (f_major r) \<ge> NDEV then retK (-1)
         else bindK (getK (\<lambda>s. dev_write (devsws s (unat (f_major r))))) (\<lambda>fn.
              case fn of None \<Rightarrow> retK (-1) | Some fn \<Rightarrow> call_dev fn addr n)
     | FD_INODE \<Rightarrow>
         bindK (filewrite_loop f (f_ip r) addr 0 (nat (sint n))) (\<lambda>i.
         retK (if int i = sint n then sint n else -1))
     | FD_NONE \<Rightarrow> panicK ''filewrite'')"

section \<open>Creating pipes\<close>

definition pipealloc_bad :: "nat option \<Rightarrow> nat option \<Rightarrow> ((nat \<times> nat) option, 'z ftable_scheme) kop" where
  "pipealloc_bad f0 f1 =
     thenK (case f0 of None \<Rightarrow> retK () | Some f \<Rightarrow> fileclose f) (
     thenK (case f1 of None \<Rightarrow> retK () | Some f \<Rightarrow> fileclose f)
           (retK None))"

definition pipealloc :: "((nat \<times> nat) option, 'z ftable_scheme) kop" where
  "pipealloc =
     bindK filealloc (\<lambda>f0.
     case f0 of None \<Rightarrow> pipealloc_bad None None | Some a \<Rightarrow>
     bindK filealloc (\<lambda>f1.
     case f1 of None \<Rightarrow> pipealloc_bad f0 None | Some b \<Rightarrow>
     bindK kalloc (\<lambda>pi.
     if pi = 0 then pipealloc_bad f0 f1
     else thenK (modK (upd_pipe pi (\<lambda>r. r\<lparr>pi_readopen := True, pi_writeopen := True, pi_nwrite := 0, pi_nread := 0\<rparr>))) (
          thenK (initlock (Pipe_lock pi) ''pipe'') (
          thenK (modK (upd_file a (\<lambda>r. r\<lparr>f_type := FD_PIPE, f_readable := True, f_writable := False, f_pipe := pi\<rparr>))) (
          thenK (modK (upd_file b (\<lambda>r. r\<lparr>f_type := FD_PIPE, f_readable := False, f_writable := True, f_pipe := pi\<rparr>)))
                (retK (Some (a, b)))))))))"

section \<open>Lock steps\<close>

lemma mem_quiet [simp]:
  "quiet (s\<lparr>mem := x\<rparr>) = quiet s" "cpu_ok (s\<lparr>mem := x\<rparr>) = cpu_ok s" "cid (s\<lparr>mem := x\<rparr>) = cid s"
  "lock_free l (s\<lparr>mem := x\<rparr>) = lock_free l s" "proc_locks_free (s\<lparr>mem := x\<rparr>) = proc_locks_free s"
  by (simp_all add: cid_def intr_enabled_def quiet_def cpu_ok_def lock_free_def proc_locks_free_def)

lemma ftable_acq [simp]:
  "files (acq l s) = files s" "pipes (acq l s) = pipes s"
  "(acq l s)\<lparr>files := x\<rparr> = acq l (s\<lparr>files := x\<rparr>)" "(acq l s)\<lparr>pipes := y\<rparr> = acq l (s\<lparr>pipes := y\<rparr>)"
  "quiet (s\<lparr>files := x\<rparr>) = quiet s" "cpu_ok (s\<lparr>files := x\<rparr>) = cpu_ok s" "cid (s\<lparr>files := x\<rparr>) = cid s"
  "quiet (s\<lparr>pipes := y\<rparr>) = quiet s" "cpu_ok (s\<lparr>pipes := y\<rparr>) = cpu_ok s" "cid (s\<lparr>pipes := y\<rparr>) = cid s"
  "lock_free l (s\<lparr>files := x\<rparr>) = lock_free l s" "proc_locks_free (s\<lparr>files := x\<rparr>) = proc_locks_free s"
  "lock_free l (s\<lparr>pipes := y\<rparr>) = lock_free l s" "proc_locks_free (s\<lparr>pipes := y\<rparr>) = proc_locks_free s"
  by (simp_all add: acq_def upd_lock_def pushed_def cid_def intr_enabled_def quiet_def cpu_ok_def lock_free_def proc_locks_free_def)

section \<open>The ring buffer of a pipe\<close>

definition pi_count :: "pipe \<Rightarrow> nat" where
  "pi_count r = unat (pi_nwrite r - pi_nread r)"

definition pi_ok :: "pipe \<Rightarrow> bool" where
  "pi_ok r \<longleftrightarrow> pi_count r \<le> 512"

definition pi_queue :: "pipe \<Rightarrow> byte list" where
  "pi_queue r = map (\<lambda>k. pi_data r (ucast (pi_nread r) + of_nat k)) [0..<pi_count r]"

lemma length_pi_queue [simp]: "length (pi_queue r) = pi_count r"
  by (simp add: pi_queue_def)

lemma ucast_9_add: "(ucast (a + b :: u32) :: 9 word) = ucast a + ucast b"
proof -
  have "((unat a + unat b) mod 2 ^ 32) mod 2 ^ 9 = (unat a mod 2 ^ 9 + unat b mod 2 ^ 9) mod 2 ^ 9"
    by (simp add: mod_mod_cancel mod_add_eq)
  then show ?thesis
    by (simp add: word_unat_eq_iff unsigned_ucast_eq unat_word_ariths(1) take_bit_eq_mod)
qed

lemma ucast_nwrite: "(ucast (pi_nwrite r) :: 9 word) = ucast (pi_nread r) + of_nat (pi_count r)"
  using ucast_9_add [of "pi_nread r" "pi_nwrite r - pi_nread r"] by (simp add: pi_count_def)

lemma of_nat_9_inj: "i < 512 \<Longrightarrow> j < 512 \<Longrightarrow> (of_nat i :: 9 word) = of_nat j \<longleftrightarrow> i = j"
  by (simp add: word_unat_eq_iff unsigned_of_nat take_bit_eq_mod)

lemma unat_Suc_u32: "unat (x :: u32) < 2 ^ 32 - 1 \<Longrightarrow> unat (x + 1) = Suc (unat x)"
  by (simp add: unat_word_ariths(1))

lemma pi_count_put: "pi_count r < 512 \<Longrightarrow> pi_count (pi_put x r) = Suc (pi_count r)"
  using unat_Suc_u32 [of "pi_nwrite r - pi_nread r"] by (simp add: pi_count_def pi_put_def algebra_simps)

lemma pi_put_queue:
  assumes "pi_count r < 512"
  shows "pi_queue (pi_put x r) = pi_queue r @ [x]"
proof -
  have "(of_nat k :: 9 word) \<noteq> of_nat (pi_count r)" if "k < pi_count r" for k
    using of_nat_9_inj [of k "pi_count r"] that assms by simp
  then show ?thesis
    using assms by (simp add: pi_queue_def pi_count_put) (simp add: pi_put_def ucast_nwrite)
qed

lemma pi_get_queue:
  assumes "pi_count r \<noteq> 0"
  shows "pi_queue r = fst (pi_get r) # pi_queue (snd (pi_get r))" and "pi_count r = Suc (pi_count (snd (pi_get r)))"
proof -
  show c: "pi_count r = Suc (pi_count (snd (pi_get r)))"
  proof -
    have "pi_nwrite r - pi_nread r = (pi_nwrite r - pi_nread r - 1) + 1" by simp
    moreover have "unat (pi_nwrite r - pi_nread r - 1) < 2 ^ 32 - 1"
    proof -
      have "unat (pi_nwrite r - pi_nread r) < 2 ^ LENGTH(32)" by (rule unsigned_less)
      moreover have "pi_nwrite r - pi_nread r \<noteq> 0" using assms by (auto simp: pi_count_def)
      ultimately show ?thesis using unat_minus_one [of "pi_nwrite r - pi_nread r"] by (simp add: unat_eq_0)
    qed
    ultimately show ?thesis
      using unat_Suc_u32 [of "pi_nwrite r - pi_nread r - 1"] by (simp add: pi_count_def pi_get_def algebra_simps)
  qed
  have u: "[0..<Suc n] = 0 # map Suc [0..<n]" for n by (simp add: upt_conv_Cons map_Suc_upt)
  show "pi_queue r = fst (pi_get r) # pi_queue (snd (pi_get r))"
    unfolding pi_queue_def c u list.map list.map_comp by (simp add: pi_get_def ucast_9_add add.assoc)
qed

interpretation pipe_ring: fifo pi_ok pi_queue 512 pi_put pi_get
proof unfold_locales
  fix r :: pipe and x
  assume r: "length (pi_queue r) < 512"
  then show "pi_queue (pi_put x r) = pi_queue r @ [x]" by (simp add: pi_put_queue)
  show "pi_ok (pi_put x r)" using r by (simp add: pi_ok_def pi_count_put)
next
  fix r :: pipe assume "pi_ok r" "pi_queue r \<noteq> []"
  then have "pi_count r \<noteq> 0" by (simp add: pi_queue_def)
  note g = pi_get_queue [OF this]
  show "pi_queue r = fst (pi_get r) # pi_queue (snd (pi_get r))" by (rule g(1))
  show "pi_ok (snd (pi_get r))" using g(2) \<open>pi_ok r\<close> by (simp add: pi_ok_def)
qed


section \<open>Transfers\<close>

lemma upd_pipe_simps [simp]:
  "pipes (upd_pipe pi f s) = (pipes s)(pi := f (pipes s pi))" "mem (upd_pipe pi f s) = mem s"
  "procs (upd_pipe pi f s) = procs s" "upd_pipe pi f (upd_pipe pi g s) = upd_pipe pi (\<lambda>r. f (g r)) s"
  "upd_pipe pi (\<lambda>r. r) s = s"
  by (simp_all add: upd_pipe_def)

lemma pipe_order [simp]:
  "s\<lparr>procs := x, pipes := y\<rparr> = s\<lparr>pipes := y, procs := x\<rparr>" "s\<lparr>mem := m, pipes := y\<rparr> = s\<lparr>pipes := y, mem := m\<rparr>"
  by simp_all

lemma pipe_full_iff: "pi_nwrite r = pi_nread r + PIPESIZE \<longleftrightarrow> pi_count r = 512"
proof -
  have "pi_nwrite r = pi_nread r + PIPESIZE \<longleftrightarrow> pi_nwrite r - pi_nread r = 512" by (auto simp: PIPESIZE_def algebra_simps)
  also have "\<dots> \<longleftrightarrow> pi_count r = 512" by (simp add: pi_count_def word_unat_eq_iff)
  finally show ?thesis .
qed

lemma pipe_empty_iff: "pi_nread r = pi_nwrite r \<longleftrightarrow> pi_count r = 0"
  by (auto simp: pi_count_def unat_eq_0)

lemma umapped_Suc: "umapped m pt va (Suc k) \<longleftrightarrow> umapped m pt va (Suc 0) \<and> umapped m pt (va + 1) k"
  using umapped_append [of m pt va 1 k] by simp

lemma ubytes_Suc: "ubytes m pt va (Suc k) = hd (ubytes m pt va (Suc 0)) # ubytes m pt (va + 1) k"
  using ubytes_append [of m pt va 1 k] by (simp add: ubytes_def)

lemma copyin_1:
  assumes "wf_pt (mem s) pt" and "unat va + 1 < 2 ^ 64"
  shows "copyin pt va 1 s = Ret (if umapped (mem s) pt va (Suc 0) then Some (ubytes (mem s) pt va (Suc 0)) else None) s"
  using copyin_eq [of s pt va 1] assms by simp

lemma pipewrite_loop_room:
  assumes "wf_pt (mem s) (p_pagetable (procs s pr))" and "unat addr + (i + k) < 2 ^ 64"
    and "umapped (mem s) (p_pagetable (procs s pr)) (addr + of_nat i) k" and "pi_count (pipes s pi) + k \<le> 512"
  shows "pipewrite_loop pi pr addr i k s = Ret (Some (i + k))
    (upd_pipe pi (fold pi_put (ubytes (mem s) (p_pagetable (procs s pr)) (addr + of_nat i) k)) s)"
  using assms
proof (induction k arbitrary: i s)
  case 0
  then show ?case by (simp add: ubytes_def id_def)
next
  case (Suc k)
  let ?pt = "p_pagetable (procs s pr)" and ?a = "addr + of_nat i"
  let ?t = "upd_pipe pi (pi_put (hd (ubytes (mem s) ?pt ?a (Suc 0)))) s"
  have m: "umapped (mem s) ?pt ?a (Suc 0)" "umapped (mem s) ?pt (?a + 1) k"
    using Suc.prems(3) by (simp_all add: umapped_Suc [of _ _ _ k])
  have nf: "pi_nwrite (pipes s pi) \<noteq> pi_nread (pipes s pi) + PIPESIZE" using Suc.prems(4) by (simp add: pipe_full_iff)
  have bd: "unat ?a + 1 < 2 ^ 64" using Suc.prems(2) by (subst unat_add_of_nat) simp_all
  have ih: "pipewrite_loop pi pr addr (Suc i) k ?t = Ret (Some (Suc i + k))
      (upd_pipe pi (fold pi_put (ubytes (mem ?t) (p_pagetable (procs ?t pr)) (addr + of_nat (Suc i)) k)) ?t)"
    by (rule Suc.IH) (use Suc.prems m in \<open>simp_all add: pi_count_put algebra_simps\<close>)
  show ?case
    using nf m(1) Suc.prems(1) bd ih
    by (simp add: copyin_1 ubytes_Suc [of _ _ _ k] algebra_simps)
qed


text \<open>What a read of \<open>j\<close> bytes does to the memory of a process.\<close>

definition delivered :: "ram \<Rightarrow> ram \<Rightarrow> u64 \<Rightarrow> u64 \<Rightarrow> byte list \<Rightarrow> bool" where
  "delivered m m' pt va bs \<longleftrightarrow> wrote_user m m' pt va (length bs) \<and> holds_bytes m m' pt va bs"

lemma delivered_Nil: "delivered m m pt va []"
  by (simp add: delivered_def wrote_user_def holds_bytes_def)

lemma delivered_Cons:
  assumes sep: "user_sep m pt" and wf: "wf_pt m pt" and one: "delivered m m1 pt va [b]"
    and rest: "delivered m1 m2 pt (va + 1) bs" and bd: "unat va + Suc (length bs) < 2 ^ 64"
  shows "delivered m m2 pt va (b # bs)"
proof -
  have w: "wrote_user m m1 pt va (Suc 0)" using one by (simp add: delivered_def)
  note ua = wrote_user_keeps(3) [OF sep wf w]
  have w2: "wrote_user m1 m2 pt (va + of_nat (Suc 0)) (length bs)" using rest by (simp add: delivered_def)
  have "wrote_user m m2 pt va (Suc (length bs))" using wrote_user_append [OF w w2 ua] by simp
  moreover have "holds_bytes m m2 pt va [b]"
    by (rule holds_bytes_later [OF sep _ _ ua]) (use one w2 bd in \<open>simp_all add: delivered_def\<close>)
  moreover have "holds_bytes m m2 pt (va + 1) bs"
    using rest holds_bytes_cong [OF ua] by (simp add: delivered_def)
  ultimately show ?thesis using holds_bytes_append [of m m2 pt va "[b]" bs] by (simp add: delivered_def)
qed

lemma copyout_delivers:
  assumes "wf_pt (mem s) pt" and "user_sep (mem s) pt" and "unat dst + length src < 2 ^ 64"
    and "umapped (mem s) pt dst (length src)"
  shows "\<exists>m'. copyout pt dst src s = Ret 0 (s\<lparr>mem := m'\<rparr>) \<and> delivered (mem s) m' pt dst src"
  using copyout_spec [OF assms(1-3)] assms(4) by (auto simp: copied_out_def delivered_def)

lemma piperead_loop_spec:
  assumes "wf_pt (mem s) (p_pagetable (procs s pr))" and "user_sep (mem s) (p_pagetable (procs s pr))"
    and "unat addr + (i + k) < 2 ^ 64" and "pi_ok (pipes s pi)"
    and "umapped (mem s) (p_pagetable (procs s pr)) (addr + of_nat i) (min k (pi_count (pipes s pi)))"
  shows "\<exists>m' r'. piperead_loop pi pr addr i k s = Ret (i + min k (pi_count (pipes s pi))) (upd_pipe pi (\<lambda>_. r') (s\<lparr>mem := m'\<rparr>)) \<and>
    delivered (mem s) m' (p_pagetable (procs s pr)) (addr + of_nat i) (take k (pi_queue (pipes s pi))) \<and>
    pi_ok r' \<and> pi_queue r' = drop k (pi_queue (pipes s pi)) \<and>
    pi_readopen r' = pi_readopen (pipes s pi) \<and> pi_writeopen r' = pi_writeopen (pipes s pi)"
  using assms
proof (induction k arbitrary: i s)
  case 0
  then show ?case
    by (intro exI [of _ "mem s"] exI [of _ "pipes s pi"]) (simp add: upd_pipe_def delivered_Nil)
next
  case (Suc k)
  let ?pt = "p_pagetable (procs s pr)" and ?a = "addr + of_nat i" and ?r = "pipes s pi"
  show ?case
  proof (cases "pi_count ?r = 0")
    case True
    then have "pi_queue ?r = []" by (simp add: pi_queue_def)
    then show ?thesis using True
      by (intro exI [of _ "mem s"] exI [of _ ?r]) (simp add: upd_pipe_def delivered_Nil pipe_empty_iff Suc.prems)
  next
    case False
    let ?q = "snd (pi_get ?r)" and ?b = "fst (pi_get ?r)"
    note g = pi_get_queue [OF False]
    have fl: "pi_readopen ?q = pi_readopen ?r" "pi_writeopen ?q = pi_writeopen ?r" by (simp_all add: pi_get_def)
    have "umapped (mem s) ?pt ?a (Suc (min k (pi_count ?q)))" using Suc.prems(5) g(2) by simp
    then have m: "umapped (mem s) ?pt ?a (Suc 0)" "umapped (mem s) ?pt (?a + 1) (min k (pi_count ?q))"
      by (simp_all add: umapped_Suc [of _ _ _ "min k (pi_count ?q)"])
    have bd: "unat ?a + Suc k < 2 ^ 64" using Suc.prems(3) by (subst unat_add_of_nat) simp_all
    let ?s1 = "upd_pipe pi (\<lambda>r. snd (pi_get r)) s"
    obtain m1 where c: "copyout ?pt ?a [?b] ?s1 = Ret 0 (?s1\<lparr>mem := m1\<rparr>)" "delivered (mem s) m1 ?pt ?a [?b]"
      using copyout_delivers [of ?s1 ?pt ?a "[?b]"] Suc.prems(1,2) m(1) bd by auto
    have w: "wrote_user (mem s) m1 ?pt ?a (Suc 0)" using c(2) by (simp add: delivered_def)
    note kp = wrote_user_keeps [OF Suc.prems(2,1) w]
    let ?s2 = "?s1\<lparr>mem := m1\<rparr>"
    have s2: "pipes ?s2 pi = ?q" "procs ?s2 = procs s" "mem ?s2 = m1" by (simp_all add: upd_pipe_def)
    have "\<exists>m' r'. piperead_loop pi pr addr (Suc i) k ?s2 = Ret (Suc i + min k (pi_count ?q)) (upd_pipe pi (\<lambda>_. r') (?s2\<lparr>mem := m'\<rparr>)) \<and>
      delivered m1 m' ?pt (addr + of_nat (Suc i)) (take k (pi_queue ?q)) \<and>
      pi_ok r' \<and> pi_queue r' = drop k (pi_queue ?q) \<and> pi_readopen r' = pi_readopen ?q \<and> pi_writeopen r' = pi_writeopen ?q"
    proof -
      have "umapped m1 ?pt (addr + of_nat (Suc i)) (min k (pi_count ?q))"
        using m(2) kp(3) by (simp add: umapped_def algebra_simps)
      then show ?thesis
        using Suc.IH [of ?s2 "Suc i", unfolded s2] kp(1,2) Suc.prems(3,4) g(2) by (simp add: pi_ok_def)
    qed
    then obtain m2 r' where ih: "piperead_loop pi pr addr (Suc i) k ?s2 = Ret (Suc i + min k (pi_count ?q)) (upd_pipe pi (\<lambda>_. r') (?s2\<lparr>mem := m2\<rparr>))"
      "delivered m1 m2 ?pt (addr + of_nat (Suc i)) (take k (pi_queue ?q))" "pi_ok r'" "pi_queue r' = drop k (pi_queue ?q)"
      "pi_readopen r' = pi_readopen ?q" "pi_writeopen r' = pi_writeopen ?q" by (elim exE conjE)
    have d: "delivered (mem s) m2 ?pt ?a (?b # take k (pi_queue ?q))"
      by (rule delivered_Cons [OF Suc.prems(2,1) c(2)]) (use ih(2) bd in \<open>simp_all add: algebra_simps\<close>)
    have ne: "pi_nread ?r \<noteq> pi_nwrite ?r" using False by (simp add: pipe_empty_iff)
    have run: "piperead_loop pi pr addr i (Suc k) s = Ret (Suc i + min k (pi_count ?q)) (upd_pipe pi (\<lambda>_. r') (s\<lparr>mem := m2\<rparr>))"
      using ne c(1) ih(1) by (simp add: upd_pipe_def)
    show ?thesis
      by (intro exI [of _ m2] exI [of _ r'] conjI)
        (use run d ih(3-6) g fl in simp_all)
  qed
qed


section \<open>Reading and writing pipes\<close>

lemma nat_sint_small:
  assumes "unat (n :: u32) < 2 ^ 31"
  shows "nat (sint n) = unat n"
proof -
  define k where "k = unat n"
  have "k < 2 ^ 31" using assms by (simp add: k_def)
  then have "signed_take_bit 31 (int k) = int k" by (intro signed_take_bit_int_eq_self) simp_all
  moreover have "uint n = int k" by (simp add: k_def)
  ultimately show ?thesis by (simp add: sint_uint k_def [symmetric])
qed


text \<open>
  C17: A read delivers the oldest bytes of the pipe, at most as many as asked for, in order, and takes
  exactly them out; only the destination of the bytes changes in memory.
\<close>

theorem piperead_takes:
  assumes q: "quiet s" and cur: "current p s" and wf: "wf_pt (mem s) (p_pagetable (procs s p))"
    and sep: "user_sep (mem s) (p_pagetable (procs s p))" and ok: "pi_ok (pipes s pi)"
    and n: "unat n < 2 ^ 31" and bd: "unat addr + unat n < 2 ^ 64"
    and mp: "umapped (mem s) (p_pagetable (procs s p)) addr (min (unat n) (length (pi_queue (pipes s pi))))"
    and some: "pi_queue (pipes s pi) \<noteq> [] \<or> \<not> pi_writeopen (pipes s pi)"
  shows "\<exists>m' r' ps. piperead pi addr n s =
      Ret (int (min (unat n) (length (pi_queue (pipes s pi))))) (s\<lparr>pipes := (pipes s)(pi := r'), mem := m', procs := ps\<rparr>) \<and>
    delivered (mem s) m' (p_pagetable (procs s p)) addr (take (unat n) (pi_queue (pipes s pi))) \<and>
    pi_queue r' = drop (unat n) (pi_queue (pipes s pi)) \<and> ps = woken (Ch_pipe_nwrite pi) (procs s)"
proof -
  let ?s = "acq (Pipe_lock pi) s" and ?r = "pipes s pi" and ?pt = "p_pagetable (procs s p)"
  have "\<exists>m' r'. piperead_loop pi p addr 0 (unat n) ?s = Ret (min (unat n) (pi_count ?r)) (upd_pipe pi (\<lambda>_. r') (?s\<lparr>mem := m'\<rparr>)) \<and>
    delivered (mem s) m' ?pt addr (take (unat n) (pi_queue ?r)) \<and>
    pi_ok r' \<and> pi_queue r' = drop (unat n) (pi_queue ?r) \<and>
    pi_readopen r' = pi_readopen ?r \<and> pi_writeopen r' = pi_writeopen ?r"
    using piperead_loop_spec [of ?s p addr 0 "unat n" pi] wf sep bd ok mp by simp
  then obtain m' r' where l: "piperead_loop pi p addr 0 (unat n) ?s = Ret (min (unat n) (pi_count ?r)) (upd_pipe pi (\<lambda>_. r') (?s\<lparr>mem := m'\<rparr>))"
    "delivered (mem s) m' ?pt addr (take (unat n) (pi_queue ?r))" "pi_queue r' = drop (unat n) (pi_queue ?r)"
    by (elim exE conjE)
  have ne: "\<not> (pi_nread ?r = pi_nwrite ?r \<and> pi_writeopen ?r)" using some by (auto simp: pipe_empty_iff pi_queue_def)
  have "piperead pi addr n s = Ret (int (min (unat n) (pi_count ?r)))
      (s\<lparr>pipes := (pipes s)(pi := r'), mem := m', procs := woken (Ch_pipe_nwrite pi) (procs s)\<rparr>)"
    using q cur ne l(1) nat_sint_small [OF n]
    by (simp add: piperead_def piperead_locked_def lock_steps wakeup_woken upd_pipe_def)
  then show ?thesis using l(2,3) by (intro exI [of _ m'] exI [of _ r'] exI conjI) simp_all
qed


text \<open>
  C18: A read into an unmapped buffer returns 0 and the oldest byte of the pipe is lost.
\<close>

theorem piperead_loses_byte:
  assumes q: "quiet s" and cur: "current p s" and wf: "wf_pt (mem s) (p_pagetable (procs s p))"
    and sep: "user_sep (mem s) (p_pagetable (procs s p))"
    and n: "0 < unat n" "unat n < 2 ^ 31" and bd: "unat addr + 1 < 2 ^ 64"
    and bad: "\<not> umapped (mem s) (p_pagetable (procs s p)) addr 1" and some: "pi_queue (pipes s pi) = b # bs"
  shows "\<exists>t. piperead pi addr n s = Ret 0 t \<and> pi_queue (pipes t pi) = bs"
proof -
  let ?r = "pipes s pi" and ?pt = "p_pagetable (procs s p)"
  obtain k where k: "unat n = Suc k" using n(1) by (cases "unat n") auto
  have ne: "pi_count ?r \<noteq> 0" using some by (metis length_pi_queue list.size(3) neq_Nil_conv length_0_conv list.distinct(1))
  note g = pi_get_queue [OF ne]
  have e: "pi_nread ?r \<noteq> pi_nwrite ?r" using ne by (simp add: pipe_empty_iff)
  let ?s1 = "upd_pipe pi (\<lambda>r. snd (pi_get r)) (acq (Pipe_lock pi) s)"
  obtain m' where c: "copyout ?pt addr [fst (pi_get ?r)] ?s1 = Ret (-1) (?s1\<lparr>mem := m'\<rparr>)"
    using copyout_spec [of ?s1 ?pt addr "[fst (pi_get ?r)]"] wf sep bd bad by (auto simp: copied_out_def)
  have l: "piperead_loop pi p addr 0 (Suc k) (acq (Pipe_lock pi) s) =
      Ret 0 (acq (Pipe_lock pi) (s\<lparr>pipes := (pipes s)(pi := snd (pi_get ?r)), mem := m'\<rparr>))"
    using e c by (simp add: upd_pipe_def)
  have "piperead pi addr n s = Ret 0 (s\<lparr>pipes := (pipes s)(pi := snd (pi_get ?r)), mem := m', procs := woken (Ch_pipe_nwrite pi) (procs s)\<rparr>)"
    using q cur e l nat_sint_small [OF n(2)] k
    by (simp add: piperead_def piperead_locked_def lock_steps wakeup_woken del: piperead_loop.simps)
  then show ?thesis using g(1) some by simp
qed

section \<open>Witnesses\<close>

definition blank_pipe :: pipe where
  "blank_pipe = \<lparr>pi_data = (\<lambda>_. 0), pi_nread = 0, pi_nwrite = 0, pi_readopen = True, pi_writeopen = True\<rparr>"

definition blank_file :: openfile where
  "blank_file = \<lparr>f_type = FD_NONE, f_ref = 0, f_readable = False, f_writable = False, f_pipe = 0, f_ip = 0, f_off = 0, f_major = 0\<rparr>"

definition boot_ftable :: ftable where
  "boot_ftable = fs.extend (boot_fs (\<lambda>_ _. 0) (\<lambda>_. blank_buf))
     (ftable.fields (\<lambda>_. blank_file) (\<lambda>_. blank_pipe) (\<lambda>_. \<lparr>dev_read = None, dev_write = None\<rparr>) [0, 0, 0, 0])"

text \<open>Process 0 runs with the page table of the demonstration memory; \<open>r\<close> is the state of every pipe.\<close>

definition demo_ftable :: "pipe \<Rightarrow> ftable" where
  "demo_ftable r = run_as 0 (boot_ftable\<lparr>mem := demo_ram, procs := (\<lambda>_. no_proc\<lparr>p_pagetable := demo_pt\<rparr>), pipes := (\<lambda>_. r)\<rparr>)"

lemma boot_ftable_simps [simp]: "quiet boot_ftable" "cid boot_ftable = 0"
  by (simp_all add: boot_ftable_def boot_fs_def boot_virtio_def boot_console_def boot_kmem_def boot_sleeplocks_def
      sleeplocks.defs kmem.defs vm.defs image.defs uart.defs kprint.defs console.defs virtio.defs logging.defs fs.defs ftable.defs
      quiet_def cpu_ok_def lock_free_def intr_enabled_def cid_def SSTATUS_SIE_def)

lemma run_as_fields [simp]: "mem (run_as p s) = mem s" "pipes (run_as p t) = pipes t"
  by (simp_all add: run_as_def upd_cpu_def)

lemma quiet_procs [simp]: "quiet (s\<lparr>procs := x\<rparr>) = quiet s" "cid (s\<lparr>procs := x\<rparr>) = cid s"
  by (simp_all add: cid_def intr_enabled_def quiet_def cpu_ok_def lock_free_def)

lemma demo_ftable_simps [simp]:
  "quiet (demo_ftable r)" "current 0 (demo_ftable r)" "mem (demo_ftable r) = demo_ram" "pipes (demo_ftable r) = (\<lambda>_. r)"
  "p_pagetable (procs (demo_ftable r) p) = demo_pt"
  using run_as_simps(2) [of 0 "boot_ftable\<lparr>mem := demo_ram, procs := (\<lambda>_. no_proc\<lparr>p_pagetable := demo_pt\<rparr>), pipes := (\<lambda>_. r)\<rparr>"]
  by (simp_all add: demo_ftable_def)

lemma demo_umapped: "unat va + n \<le> 4096 \<Longrightarrow> umapped demo_ram demo_pt va n"
  unfolding umapped_def by (auto simp: demo_uaddr unat_add_of_nat)

text \<open>The counters of this pipe are about to wrap around; it holds two bytes.\<close>

definition wrap_pipe :: pipe where
  "wrap_pipe = \<lparr>pi_data = (\<lambda>k. if k = 511 then 65 else 66), pi_nread = 0xFFFFFFFF, pi_nwrite = 1, pi_readopen = True, pi_writeopen = True\<rparr>"

lemma wrap_pipe_queue: "pi_queue wrap_pipe = [65, 66]" "pi_count wrap_pipe = 2"
  by (simp_all add: pi_queue_def pi_count_def wrap_pipe_def upt_conv_Cons)


theorem piperead_takes_witness:
  "\<exists>t. piperead 0x80040000 100 1 (demo_ftable wrap_pipe) = Ret 1 t \<and> pi_queue (pipes t 0x80040000) = [66] \<and>
     holds_bytes demo_ram (mem t) demo_pt 100 [65]"
  using piperead_takes [of "demo_ftable wrap_pipe" 0 "0x80040000" 1 100] demo_table(1) demo_sep demo_umapped [of 100 1]
  by (auto simp: wrap_pipe_queue pi_ok_def delivered_def)

theorem piperead_loses_byte_witness:
  "\<exists>t. piperead 0x80040000 0x5000 10 (demo_ftable wrap_pipe) = Ret 0 t \<and> pi_queue (pipes t 0x80040000) = [66]"
proof -
  have "\<not> umapped demo_ram demo_pt 0x5000 1" by (auto simp: umapped_def demo_uaddr)
  then show ?thesis
    using piperead_loses_byte [of "demo_ftable wrap_pipe" 0 10 "0x5000" "0x80040000" 65 "[66]"] demo_table(1) demo_sep
    by (simp add: wrap_pipe_queue)
qed

end
