(* ===== verification/Exec.thy ===== *)
theory Exec
  imports File
begin

text \<open>
  The life of processes in \<^verbatim>\<open>kernel/proc.c\<close> (\<open>userinit\<close>, \<open>fork\<close>, \<open>exit\<close>) and \<^verbatim>\<open>kernel/exec.c\<close>. The ELF
  headers of \<^verbatim>\<open>kernel/elf.h\<close> are read from their bytes at the offsets of the C structures.
\<close>

section \<open>Processes\<close>

definition initcode :: "byte list" where
  "initcode =
    [0x17, 0x05, 0x00, 0x00, 0x13, 0x05, 0x45, 0x02,
     0x97, 0x05, 0x00, 0x00, 0x93, 0x85, 0x35, 0x02,
     0x93, 0x08, 0x70, 0x00, 0x73, 0x00, 0x00, 0x00,
     0x93, 0x08, 0x20, 0x00, 0x73, 0x00, 0x00, 0x00,
     0xef, 0xf0, 0x9f, 0xff, 0x2f, 0x69, 0x6e, 0x69,
     0x74, 0x00, 0x00, 0x24, 0x00, 0x00, 0x00, 0x00,
     0x00, 0x00, 0x00, 0x00]"

definition set_name :: "nat \<Rightarrow> byte list \<Rightarrow> (unit, 'z ptable_scheme) kop" where
  "set_name p name = modK (upd_proc p (\<lambda>r. r\<lparr>p_name := safestrcpy_arr (p_name r) (name @ [0]) 16\<rparr>))"

definition userinit :: "(unit, 'z ftable_scheme) kop" where
  "userinit =
     bindK allocproc (\<lambda>p.
     thenK (modK (\<lambda>s. s\<lparr>initproc := p\<rparr>)) (
     derefK p (\<lambda>p.
     bindK (getK (\<lambda>s. p_pagetable (procs s p))) (\<lambda>pt.
     thenK (uvminit pt initcode) (
     thenK (modK (upd_proc p (\<lambda>r. r\<lparr>p_sz := PGSIZE\<rparr>))) (
     thenK (tf_set p Epc 0) (
     thenK (tf_set p Sp PGSIZE) (
     thenK (set_name p (ascii ''initcode'')) (
     bindK (namei [slash]) (\<lambda>ip.
     thenK (modK (upd_proc p (\<lambda>r. r\<lparr>p_cwd := ip\<rparr>))) (
     thenK (modK (upd_proc p (\<lambda>r. r\<lparr>p_state := RUNNABLE\<rparr>)))
           (release (Proc_lock p)))))))))))))"

text \<open>\<^verbatim>\<open>sizeof(struct trapframe)\<close>\<close>

definition tf_size :: nat where
  "tf_size = 288"

definition fork :: "(int, 'z ftable_scheme) kop" where
  "fork =
     bindK myproc (\<lambda>p. derefK p (\<lambda>p.
     bindK allocproc (\<lambda>np.
     case np of None \<Rightarrow> retK (-1) | Some np \<Rightarrow>
     bindK (getK (\<lambda>s. procs s p)) (\<lambda>r.
     bindK (getK (\<lambda>s. p_pagetable (procs s np))) (\<lambda>npt.
     bindK (uvmcopy (p_pagetable r) npt (p_sz r)) (\<lambda>e.
     if e < 0 then thenK (freeproc np) (thenK (release (Proc_lock np)) (retK (-1)))
     else thenK (modK (upd_proc np (\<lambda>x. x\<lparr>p_sz := p_sz r\<rparr>))) (
          thenK (modK (upd_proc np (\<lambda>x. x\<lparr>p_parent := Some p\<rparr>))) (
          thenK (modK (\<lambda>s. s\<lparr>mem := put_bytes (mem s) (p_trapframe (procs s np))
                                (get_bytes (mem s) (p_trapframe r) tf_size)\<rparr>)) (
          thenK (tf_set np A0 0) (
          thenK (eachK (\<lambda>i.
            case p_ofile r i of None \<Rightarrow> retK ()
            | Some f \<Rightarrow> bindK (filedup f) (\<lambda>f. modK (upd_proc np (\<lambda>x. x\<lparr>p_ofile := (p_ofile x)(i := Some f)\<rparr>))))
            [0..<NOFILE]) (
          derefK (p_cwd r) (\<lambda>cwd.
          bindK (idup cwd) (\<lambda>ip.
          thenK (modK (upd_proc np (\<lambda>x. x\<lparr>p_cwd := Some ip\<rparr>))) (
          thenK (set_name np (p_name r)) (
          bindK (getK (\<lambda>s. p_pid (procs s np))) (\<lambda>pid.
          thenK (modK (upd_proc np (\<lambda>x. x\<lparr>p_state := RUNNABLE\<rparr>))) (
          thenK (release (Proc_lock np))
                (retK (sint pid)))))))))))))))))))"

definition exit :: "u32 \<Rightarrow> ('a, 'z ftable_scheme) kop" where
  "exit status =
     bindK myproc (\<lambda>p. derefK p (\<lambda>p.
     bindK (getK initproc) (\<lambda>ip.
     if ip = Some p then panicK ''init exiting''
     else thenK (eachK (\<lambda>fd.
            bindK (getK (\<lambda>s. p_ofile (procs s p) fd)) (\<lambda>f.
            case f of None \<Rightarrow> retK ()
            | Some f \<Rightarrow> thenK (fileclose f)
                             (modK (upd_proc p (\<lambda>r. r\<lparr>p_ofile := (p_ofile r)(fd := None)\<rparr>))))) [0..<NOFILE]) (
          thenK begin_op (
          bindK (getK (\<lambda>s. p_cwd (procs s p))) (\<lambda>cwd. derefK cwd (\<lambda>cwd.
          thenK (iput cwd) (
          thenK end_op (
          thenK (modK (upd_proc p (\<lambda>r. r\<lparr>p_cwd := None\<rparr>)))
                (exit_tail p status)))))))))) "

section \<open>ELF files\<close>

definition ELF_MAGIC :: u32 where
  "ELF_MAGIC = 0x464C457F"

definition ELF_PROG_LOAD :: u32 where
  "ELF_PROG_LOAD = 1"

definition MAXARG :: nat where
  "MAXARG = 32"

record elfhdr =
  eh_magic :: u32
  eh_entry :: u64
  eh_phoff :: u64
  eh_phnum :: u16

record proghdr =
  ph_type :: u32
  ph_off :: u64
  ph_vaddr :: u64
  ph_filesz :: u64
  ph_memsz :: u64

definition field :: "nat \<Rightarrow> nat \<Rightarrow> byte list \<Rightarrow> 'a::len word" where
  "field a n bs = le_word (take n (drop a bs))"

definition elfhdr_of :: "byte list \<Rightarrow> elfhdr" where
  "elfhdr_of bs = \<lparr>eh_magic = field 0 4 bs, eh_entry = field 24 8 bs, eh_phoff = field 32 8 bs, eh_phnum = field 56 2 bs\<rparr>"

definition proghdr_of :: "byte list \<Rightarrow> proghdr" where
  "proghdr_of bs = \<lparr>ph_type = field 0 4 bs, ph_off = field 8 8 bs, ph_vaddr = field 16 8 bs,
     ph_filesz = field 32 8 bs, ph_memsz = field 40 8 bs\<rparr>"

text \<open>
  The loop of \<open>loadseg\<close>. If \<^verbatim>\<open>i\<close> wraps around, the loop starts again with reads that have all
  succeeded, and never ends.
\<close>

function loadseg_loop :: "u64 \<Rightarrow> u64 \<Rightarrow> nat \<Rightarrow> u32 \<Rightarrow> u32 \<Rightarrow> u32 \<Rightarrow> (int, 'z fs_scheme) kop" where
  "loadseg_loop pagetable va ip offset sz i =
     (if i < sz
      then bindK (walkaddr pagetable (va + ucast i)) (\<lambda>pa.
           if pa = 0 then panicK ''loadseg: address should exist''
           else let n = (if sz - i < 0x1000 then sz - i else 0x1000) in
                bindK (readi ip (Kern pa) (offset + i) n) (\<lambda>bs.
                if length bs \<noteq> unat n then retK (-1)
                else if i + 0x1000 < i then divergeK
                else loadseg_loop pagetable va ip offset sz (i + 0x1000)))
      else retK 0)"
  by pat_completeness auto
termination
proof (relation "measure (\<lambda>(pagetable, va, ip, offset, sz, i). 2 ^ 32 - unat i)", goal_cases)
  case 1
  show ?case by simp
next
  case (2 pagetable va ip offset sz i)
  then have "i \<le> i + 0x1000" by (simp add: not_less)
  moreover have "i \<noteq> i + 0x1000" by simp
  ultimately have "unat i < unat (i + 0x1000)" by (metis order.strict_iff_order word_less_nat_alt)
  moreover have "unat (i + 0x1000) < 2 ^ LENGTH(32)" by (rule unsigned_less)
  ultimately show ?case by simp
qed

declare loadseg_loop.simps [simp del]

definition loadseg :: "u64 \<Rightarrow> u64 \<Rightarrow> nat \<Rightarrow> u32 \<Rightarrow> u32 \<Rightarrow> (int, 'z fs_scheme) kop" where
  "loadseg pagetable va ip offset sz =
     (if va mod PGSIZE \<noteq> 0 then panicK ''loadseg: va must be page aligned''
      else loadseg_loop pagetable va ip offset sz 0)"

text \<open>
  The loop over the program headers with \<open>k\<close> of them to go: \<open>Inl sz\<close> is a jump to \<^verbatim>\<open>bad\<close>, \<open>Inr sz\<close> the end
  of the loop, with the value of \<^verbatim>\<open>sz\<close> there. \<^verbatim>\<open>sizeof(struct proghdr)\<close> is 56.
\<close>

primrec load_segments :: "u64 \<Rightarrow> nat \<Rightarrow> u32 \<Rightarrow> u64 \<Rightarrow> nat \<Rightarrow> (u64 + u64, 'z fs_scheme) kop" where
  "load_segments pagetable ip off sz 0 = retK (Inr sz)"
| "load_segments pagetable ip off sz (Suc k) =
     bindK (readi ip Var off 56) (\<lambda>bs.
     let ph = proghdr_of bs in
     if length bs \<noteq> 56 then retK (Inl sz)
     else if ph_type ph \<noteq> ELF_PROG_LOAD then load_segments pagetable ip (off + 56) sz k
     else if ph_memsz ph < ph_filesz ph then retK (Inl sz)
     else if ph_vaddr ph + ph_memsz ph < ph_vaddr ph then retK (Inl sz)
     else bindK (uvmalloc pagetable sz (ph_vaddr ph + ph_memsz ph)) (\<lambda>sz1.
          if sz1 = 0 then retK (Inl sz)
          else if ph_vaddr ph mod PGSIZE \<noteq> 0 then retK (Inl sz1)
          else bindK (loadseg pagetable (ph_vaddr ph) ip (ucast (ph_off ph)) (ucast (ph_filesz ph))) (\<lambda>e.
               if e < 0 then retK (Inl sz1)
               else load_segments pagetable ip (off + 56) sz1 k)))"

section \<open>exec\<close>

definition align16 :: "u64 \<Rightarrow> u64" where
  "align16 sp = sp - sp mod 16"

text \<open>
  The loop that pushes the argument strings; \<open>ustack\<close> holds the addresses pushed so far, and the
  arguments are the addresses of the strings before the null of \<^verbatim>\<open>argv\<close>. \<open>None\<close> is a jump to \<^verbatim>\<open>bad\<close>.
\<close>

primrec push_args :: "u64 \<Rightarrow> u64 \<Rightarrow> u64 \<Rightarrow> u64 list \<Rightarrow> u64 list \<Rightarrow> ((u64 \<times> u64 list) option, 'z kmem_scheme) kop" where
  "push_args pagetable stackbase sp ustack [] = retK (Some (sp, ustack))"
| "push_args pagetable stackbase sp ustack (arg # argv) =
     (if length ustack \<ge> MAXARG then retK None
      else bindK (getK (\<lambda>s. strlen (mem s) arg)) (\<lambda>r.
           case r of None \<Rightarrow> divergeK | Some n \<Rightarrow>
           let sp = align16 (sp - scast (n + 1)) in
           if sp < stackbase then retK None
           else bindK (getK (\<lambda>s. get_bytes (mem s) arg (unat (n + 1)))) (\<lambda>str.
                bindK (copyout pagetable sp str) (\<lambda>e.
                if e < 0 then retK None
                else push_args pagetable stackbase sp (ustack @ [sp]) argv))))"

primrec last_elem :: "byte list \<Rightarrow> byte list \<Rightarrow> byte list" where
  "last_elem l [] = l"
| "last_elem l (c # s) = last_elem (if c = slash then s else l) s"

definition exec_bad :: "u64 \<Rightarrow> u64 \<Rightarrow> nat option \<Rightarrow> (int, 'z ftable_scheme) kop" where
  "exec_bad pagetable sz ip =
     thenK (whenK (pagetable \<noteq> 0) (proc_freepagetable pagetable sz))
       (case ip of
          None \<Rightarrow> retK (-1)
        | Some ip \<Rightarrow> thenK (iunlockput ip) (thenK end_op (retK (-1))))"

text \<open>The second half of \<open>exec\<close>, when the program is loaded and the inode released.\<close>

definition exec_stack :: "byte list \<Rightarrow> u64 list \<Rightarrow> u64 \<Rightarrow> u64 \<Rightarrow> u64 \<Rightarrow> (int, 'z ftable_scheme) kop" where
  "exec_stack pathname argv entry pagetable sz =
     bindK myproc (\<lambda>p. derefK p (\<lambda>p.
     bindK (getK (\<lambda>s. p_sz (procs s p))) (\<lambda>oldsz.
     let sz = PGROUNDUP sz in
     bindK (uvmalloc pagetable sz (sz + 2 * PGSIZE)) (\<lambda>sz1.
     if sz1 = 0 then exec_bad pagetable sz None
     else thenK (uvmclear pagetable (sz1 - 2 * PGSIZE)) (
     let stackbase = sz1 - PGSIZE in
     bindK (push_args pagetable stackbase sz1 [] argv) (\<lambda>r.
     case r of None \<Rightarrow> exec_bad pagetable sz1 None | Some (sp, ustack) \<Rightarrow>
     let argc = length ustack; sp = align16 (sp - of_nat (argc + 1) * 8) in
     if sp < stackbase then exec_bad pagetable sz1 None
     else bindK (copyout pagetable sp (concat (map (le_bytes 8) (ustack @ [0])))) (\<lambda>e.
     if e < 0 then exec_bad pagetable sz1 None
     else thenK (tf_set p A1 sp) (
          thenK (set_name p (last_elem pathname pathname)) (
          bindK (getK (\<lambda>s. p_pagetable (procs s p))) (\<lambda>oldpagetable.
          thenK (modK (upd_proc p (\<lambda>r. r\<lparr>p_pagetable := pagetable, p_sz := sz1\<rparr>))) (
          thenK (tf_set p Epc entry) (
          thenK (tf_set p Sp sp) (
          thenK (proc_freepagetable oldpagetable oldsz)
                (retK (int argc))))))))))))))) "

definition exec :: "byte list \<Rightarrow> u64 list \<Rightarrow> (int, 'z ftable_scheme) kop" where
  "exec pathname argv =
     bindK myproc (\<lambda>p. derefK p (\<lambda>p.
     thenK begin_op (
     bindK (namei pathname) (\<lambda>ip.
     case ip of None \<Rightarrow> thenK end_op (retK (-1)) | Some ip \<Rightarrow>
     thenK (ilock (Some ip)) (
     bindK (readi ip Var 0 64) (\<lambda>bs.
     let elf = elfhdr_of bs in
     if length bs \<noteq> 64 then exec_bad 0 0 (Some ip)
     else if eh_magic elf \<noteq> ELF_MAGIC then exec_bad 0 0 (Some ip)
     else bindK (proc_pagetable p) (\<lambda>pagetable.
          if pagetable = 0 then exec_bad 0 0 (Some ip)
          else bindK (load_segments pagetable ip (ucast (eh_phoff elf)) 0 (unat (eh_phnum elf))) (\<lambda>r.
               case r of
                 Inl sz \<Rightarrow> exec_bad pagetable sz (Some ip)
               | Inr sz \<Rightarrow>
                   thenK (iunlockput ip) (
                   thenK end_op
                         (exec_stack pathname argv (eh_entry elf) pagetable sz))))))))))"

section \<open>Killing nobody\<close>



end
