(* ===== verification/Sysfile.thy ===== *)
theory Sysfile
  imports Exec
begin

text \<open>
  System calls: the argument functions of \<^verbatim>\<open>kernel/syscall.c\<close>, \<^verbatim>\<open>kernel/sysfile.c\<close>, \<^verbatim>\<open>kernel/sysproc.c\<close> and
  the dispatch. \<open>argint\<close> and \<open>argaddr\<close> give the argument; in C they always return 0, so the tests of
  their result have one outcome.
\<close>

section \<open>Arguments\<close>

definition MAXPATH :: u64 where
  "MAXPATH = 128"

definition fetchaddr :: "u64 \<Rightarrow> (u64 option, 'z kmem_scheme) kop" where
  "fetchaddr addr =
     bindK myproc (\<lambda>p. derefK p (\<lambda>p.
     bindK (getK (\<lambda>s. procs s p)) (\<lambda>r.
     if addr \<ge> p_sz r \<or> addr + 8 > p_sz r then retK None
     else bindK (copyin (p_pagetable r) addr 8) (\<lambda>bs. retK (map_option le_word bs)))))"

text \<open>\<open>fetchstr\<close> gives the string without its NUL; its length is the result of the C function.\<close>

definition fetchstr :: "u64 \<Rightarrow> u64 \<Rightarrow> (byte list option, 'z kmem_scheme) kop" where
  "fetchstr addr mx =
     bindK myproc (\<lambda>p. derefK p (\<lambda>p.
     bindK (getK (\<lambda>s. p_pagetable (procs s p))) (\<lambda>pt.
     bindK (copyinstr pt addr mx) (\<lambda>r. retK (map_option (takeWhile (\<lambda>c. c \<noteq> 0)) r)))))"

definition argraw :: "nat \<Rightarrow> (u64, 'z kmem_scheme) kop" where
  "argraw n =
     bindK myproc (\<lambda>p. derefK p (\<lambda>p.
     if n = 0 then tf_get p A0
     else if n = 1 then tf_get p A1
     else if n = 2 then tf_get p A2
     else if n = 3 then tf_get p A3
     else if n = 4 then tf_get p A4
     else if n = 5 then tf_get p A5
     else panicK ''argraw''))"

definition argint :: "nat \<Rightarrow> (u32, 'z kmem_scheme) kop" where
  "argint n = bindK (argraw n) (\<lambda>v. retK (ucast v))"

definition argaddr :: "nat \<Rightarrow> (u64, 'z kmem_scheme) kop" where
  "argaddr n = argraw n"

definition argstr :: "nat \<Rightarrow> u64 \<Rightarrow> (byte list option, 'z kmem_scheme) kop" where
  "argstr n mx = bindK (argaddr n) (\<lambda>addr. fetchstr addr mx)"

section \<open>File descriptors\<close>

definition argfd :: "nat \<Rightarrow> ((nat \<times> nat) option, 'z kmem_scheme) kop" where
  "argfd n =
     bindK (argint n) (\<lambda>fd.
     bindK myproc (\<lambda>p.
     if sint fd < 0 \<or> sint fd \<ge> int NOFILE then retK None
     else derefK p (\<lambda>p.
          bindK (getK (\<lambda>s. p_ofile (procs s p) (unat fd))) (\<lambda>f.
          retK (map_option (\<lambda>f. (unat fd, f)) f)))))"

definition set_ofile :: "nat \<Rightarrow> nat \<Rightarrow> nat option \<Rightarrow> (unit, 'z ptable_scheme) kop" where
  "set_ofile p fd f = modK (upd_proc p (\<lambda>r. r\<lparr>p_ofile := (p_ofile r)(fd := f)\<rparr>))"

definition fdalloc :: "nat \<Rightarrow> (nat option, 'z ptable_scheme) kop" where
  "fdalloc f =
     bindK myproc (\<lambda>p. derefK p (\<lambda>p.
     bindK (getK (\<lambda>s. p_ofile (procs s p))) (\<lambda>ofile.
     case find (\<lambda>fd. ofile fd = None) [0..<NOFILE] of
       None \<Rightarrow> retK None
     | Some fd \<Rightarrow> thenK (set_ofile p fd (Some f)) (retK (Some fd)))))"

definition sys_dup :: "(u64, 'z ftable_scheme) kop" where
  "sys_dup =
     bindK (argfd 0) (\<lambda>a.
     case a of None \<Rightarrow> retK (-1) | Some (_, f) \<Rightarrow>
     bindK (fdalloc f) (\<lambda>r.
     case r of None \<Rightarrow> retK (-1) | Some fd \<Rightarrow>
     thenK (filedup f)
           (retK (of_nat fd))))"

definition sys_read :: "(u64, 'z ftable_scheme) kop" where
  "sys_read =
     bindK (argfd 0) (\<lambda>a.
     case a of None \<Rightarrow> retK (-1) | Some (_, f) \<Rightarrow>
     bindK (argint 2) (\<lambda>n.
     bindK (argaddr 1) (\<lambda>p.
     bindK (fileread f p n) (\<lambda>r. retK (word_of_int r)))))"

definition sys_write :: "(u64, 'z ftable_scheme) kop" where
  "sys_write =
     bindK (argfd 0) (\<lambda>a.
     case a of None \<Rightarrow> retK (-1) | Some (_, f) \<Rightarrow>
     bindK (argint 2) (\<lambda>n.
     bindK (argaddr 1) (\<lambda>p.
     bindK (filewrite f p n) (\<lambda>r. retK (word_of_int r)))))"

definition sys_close :: "(u64, 'z ftable_scheme) kop" where
  "sys_close =
     bindK (argfd 0) (\<lambda>a.
     case a of None \<Rightarrow> retK (-1) | Some (fd, f) \<Rightarrow>
     bindK myproc (\<lambda>p. derefK p (\<lambda>p.
     thenK (set_ofile p fd None) (
     thenK (fileclose f)
           (retK 0)))))"

definition sys_fstat :: "(u64, 'z ftable_scheme) kop" where
  "sys_fstat =
     bindK (argfd 0) (\<lambda>a.
     case a of None \<Rightarrow> retK (-1) | Some (_, f) \<Rightarrow>
     bindK (argaddr 1) (\<lambda>st.
     bindK (filestat f st) (\<lambda>r. retK (word_of_int r))))"

section \<open>Links and directories\<close>

definition add_nlink :: "nat \<Rightarrow> u16 \<Rightarrow> (unit, 'z fs_scheme) kop" where
  "add_nlink ip d = modK (upd_inode ip (\<lambda>r. r\<lparr>i_nlink := i_nlink r + d\<rparr>))"

text \<open>An early return from inside a transaction.\<close>

definition end_with :: "'a \<Rightarrow> ('a, 'z ftable_scheme) kop" where
  "end_with r = thenK end_op (retK r)"

definition sys_link_bad :: "nat \<Rightarrow> (u64, 'z ftable_scheme) kop" where
  "sys_link_bad ip =
     thenK (ilock (Some ip)) (
     thenK (add_nlink ip (-1)) (
     thenK (iupdate ip) (
     thenK (iunlockput ip)
           (end_with (-1)))))"

definition sys_link :: "(u64, 'z ftable_scheme) kop" where
  "sys_link =
     bindK (argstr 0 MAXPATH) (\<lambda>old.
     case old of None \<Rightarrow> retK (-1) | Some old \<Rightarrow>
     bindK (argstr 1 MAXPATH) (\<lambda>new.
     case new of None \<Rightarrow> retK (-1) | Some new \<Rightarrow>
     thenK begin_op (
     bindK (namei old) (\<lambda>ip.
     case ip of None \<Rightarrow> end_with (-1) | Some ip \<Rightarrow>
     thenK (ilock (Some ip)) (
     bindK (getK (\<lambda>s. i_type (inodes s ip))) (\<lambda>ty.
     if ty = T_DIR then thenK (iunlockput ip) (end_with (-1))
     else thenK (add_nlink ip 1) (
     thenK (iupdate ip) (
     thenK (iunlock (Some ip)) (
     bindK (nameiparent new) (\<lambda>r.
     case r of None \<Rightarrow> sys_link_bad ip | Some (dp, name) \<Rightarrow>
     thenK (ilock (Some dp)) (
     bindK (getK (\<lambda>s. (i_dev (inodes s dp) \<noteq> i_dev (inodes s ip), i_inum (inodes s ip)))) (\<lambda>(other, inum).
     bindK (if other then retK (-1) else dirlink dp name inum) (\<lambda>e.
     if e < 0 then thenK (iunlockput dp) (sys_link_bad ip)
     else thenK (iunlockput dp) (
          thenK (iput ip)
                (end_with 0)))))))))))))))"

definition used_dirent_at :: "nat \<Rightarrow> nat \<Rightarrow> (unit option, 'z fs_scheme) kop" where
  "used_dirent_at dp off =
     bindK (read_dirent dp off ''isdirempty: readi'') (\<lambda>de.
     retK (if de_inum de \<noteq> 0 then Some () else None))"

definition isdirempty :: "nat \<Rightarrow> (bool, 'z fs_scheme) kop" where
  "isdirempty dp =
     bindK (getK (\<lambda>s. i_size (inodes s dp))) (\<lambda>sz.
     bindK (searchK (used_dirent_at dp) (drop 2 (dir_offs sz))) (\<lambda>r.
     retK (r = None)))"

definition sys_unlink_bad :: "nat \<Rightarrow> (u64, 'z ftable_scheme) kop" where
  "sys_unlink_bad dp = thenK (iunlockput dp) (end_with (-1))"

definition sys_unlink :: "(u64, 'z ftable_scheme) kop" where
  "sys_unlink =
     bindK (argstr 0 MAXPATH) (\<lambda>pathname.
     case pathname of None \<Rightarrow> retK (-1) | Some pathname \<Rightarrow>
     thenK begin_op (
     bindK (nameiparent pathname) (\<lambda>r.
     case r of None \<Rightarrow> end_with (-1) | Some (dp, name) \<Rightarrow>
     thenK (ilock (Some dp)) (
     if namecmp name (ascii ''.'') = 0 \<or> namecmp name (ascii ''..'') = 0 then sys_unlink_bad dp
     else bindK (dirlookup dp name) (\<lambda>r.
     case r of None \<Rightarrow> sys_unlink_bad dp | Some (ip, off) \<Rightarrow>
     thenK (ilock (Some ip)) (
     bindK (getK (\<lambda>s. inodes s ip)) (\<lambda>r.
     if sint (i_nlink r) < 1 then panicK ''unlink: nlink < 1''
     else bindK (if i_type r = T_DIR then isdirempty ip else retK True) (\<lambda>ok.
     if \<not> ok then thenK (iunlockput ip) (sys_unlink_bad dp)
     else bindK (writei dp Var (replicate 16 0) (of_nat off) 16) (\<lambda>n.
     if n \<noteq> 16 then panicK ''unlink: writei''
     else bindK (getK (\<lambda>s. i_type (inodes s ip))) (\<lambda>ty.
          thenK (whenK (ty = T_DIR) (thenK (add_nlink dp (-1)) (iupdate dp))) (
          thenK (iunlockput dp) (
          thenK (add_nlink ip (-1)) (
          thenK (iupdate ip) (
          thenK (iunlockput ip)
                (end_with 0)))))))))))))))"

text \<open>\<open>create\<close> gives the new or existing inode locked.\<close>

definition create_dots :: "nat \<Rightarrow> nat \<Rightarrow> (unit, 'z fs_scheme) kop" where
  "create_dots dp ip =
     thenK (add_nlink dp 1) (
     thenK (iupdate dp) (
     bindK (getK (\<lambda>s. i_inum (inodes s ip))) (\<lambda>inum.
     bindK (dirlink ip (ascii ''.'') inum) (\<lambda>e.
     if e < 0 then panicK ''create dots''
     else bindK (getK (\<lambda>s. i_inum (inodes s dp))) (\<lambda>dinum.
          bindK (dirlink ip (ascii ''..'') dinum) (\<lambda>e.
          if e < 0 then panicK ''create dots'' else retK ()))))))"

definition create :: "byte list \<Rightarrow> u16 \<Rightarrow> u16 \<Rightarrow> u16 \<Rightarrow> (nat option, 'z fs_scheme) kop" where
  "create pathname ty major minor =
     bindK (nameiparent pathname) (\<lambda>r.
     case r of None \<Rightarrow> retK None | Some (dp, name) \<Rightarrow>
     thenK (ilock (Some dp)) (
     bindK (dirlookup dp name) (\<lambda>r.
     case r of
       Some (ip, _) \<Rightarrow>
         thenK (iunlockput dp) (
         thenK (ilock (Some ip)) (
         bindK (getK (\<lambda>s. i_type (inodes s ip))) (\<lambda>it.
         if ty = T_FILE \<and> (it = T_FILE \<or> it = T_DEVICE) then retK (Some ip)
         else thenK (iunlockput ip) (retK None))))
     | None \<Rightarrow>
         bindK (getK (\<lambda>s. i_dev (inodes s dp))) (\<lambda>dev.
         bindK (ialloc dev ty) (\<lambda>ip.
         thenK (ilock (Some ip)) (
         thenK (modK (upd_inode ip (\<lambda>r. r\<lparr>i_major := major, i_minor := minor, i_nlink := 1\<rparr>))) (
         thenK (iupdate ip) (
         thenK (whenK (ty = T_DIR) (create_dots dp ip)) (
         bindK (getK (\<lambda>s. i_inum (inodes s ip))) (\<lambda>inum.
         bindK (dirlink dp name inum) (\<lambda>e.
         if e < 0 then panicK ''create: dirlink''
         else thenK (iunlockput dp) (retK (Some ip)))))))))))))"

section \<open>Opening\<close>

definition O_RDONLY :: u32 where "O_RDONLY = 0x000"
definition O_WRONLY :: u32 where "O_WRONLY = 0x001"
definition O_RDWR :: u32 where "O_RDWR = 0x002"
definition O_CREATE :: u32 where "O_CREATE = 0x200"
definition O_TRUNC :: u32 where "O_TRUNC = 0x400"

definition flag :: "u32 \<Rightarrow> u32 \<Rightarrow> bool" where
  "flag omode f \<longleftrightarrow> omode AND f \<noteq> 0"

text \<open>The part of \<open>sys_open\<close> up to the locked inode, \<open>None\<close> when it has returned -1.\<close>

definition open_inode :: "byte list \<Rightarrow> u32 \<Rightarrow> (nat option, 'z ftable_scheme) kop" where
  "open_inode pathname omode =
     (if flag omode O_CREATE
      then bindK (create pathname T_FILE 0 0) (\<lambda>ip.
           case ip of None \<Rightarrow> end_with None | Some ip \<Rightarrow> retK (Some ip))
      else bindK (namei pathname) (\<lambda>ip.
           case ip of None \<Rightarrow> end_with None | Some ip \<Rightarrow>
           thenK (ilock (Some ip)) (
           bindK (getK (\<lambda>s. i_type (inodes s ip))) (\<lambda>ty.
           if ty = T_DIR \<and> omode \<noteq> O_RDONLY then thenK (iunlockput ip) (end_with None)
           else retK (Some ip)))))"

definition fill_file :: "nat \<Rightarrow> nat \<Rightarrow> inode \<Rightarrow> u32 \<Rightarrow> openfile \<Rightarrow> openfile" where
  "fill_file f ip r omode x =
     (if i_type r = T_DEVICE then x\<lparr>f_type := FD_DEVICE, f_major := i_major r\<rparr>
      else x\<lparr>f_type := FD_INODE, f_off := 0\<rparr>)
     \<lparr>f_ip := ip, f_readable := \<not> flag omode O_WRONLY, f_writable := flag omode O_WRONLY \<or> flag omode O_RDWR\<rparr>"

definition sys_open :: "(u64, 'z ftable_scheme) kop" where
  "sys_open =
     bindK (argstr 0 MAXPATH) (\<lambda>pathname.
     case pathname of None \<Rightarrow> retK (-1) | Some pathname \<Rightarrow>
     bindK (argint 1) (\<lambda>omode.
     thenK begin_op (
     bindK (open_inode pathname omode) (\<lambda>ip.
     case ip of None \<Rightarrow> retK (-1) | Some ip \<Rightarrow>
     bindK (getK (\<lambda>s. inodes s ip)) (\<lambda>r.
     if i_type r = T_DEVICE \<and> (sint (i_major r) < 0 \<or> sint (i_major r) \<ge> NDEV)
     then thenK (iunlockput ip) (end_with (-1))
     else bindK filealloc (\<lambda>f.
     case f of None \<Rightarrow> thenK (iunlockput ip) (end_with (-1)) | Some f \<Rightarrow>
     bindK (fdalloc f) (\<lambda>fd.
     case fd of None \<Rightarrow> thenK (fileclose f) (thenK (iunlockput ip) (end_with (-1))) | Some fd \<Rightarrow>
     thenK (modK (upd_file f (fill_file f ip r omode))) (
     thenK (whenK (flag omode O_TRUNC \<and> i_type r = T_FILE) (itrunc ip)) (
     thenK (iunlock (Some ip))
           (end_with (of_nat fd)))))))))))"

definition sys_mkdir :: "(u64, 'z ftable_scheme) kop" where
  "sys_mkdir =
     thenK begin_op (
     bindK (argstr 0 MAXPATH) (\<lambda>pathname.
     case pathname of None \<Rightarrow> end_with (-1) | Some pathname \<Rightarrow>
     bindK (create pathname T_DIR 0 0) (\<lambda>ip.
     case ip of None \<Rightarrow> end_with (-1) | Some ip \<Rightarrow>
     thenK (iunlockput ip) (end_with 0))))"

definition sys_mknod :: "(u64, 'z ftable_scheme) kop" where
  "sys_mknod =
     thenK begin_op (
     bindK (argstr 0 MAXPATH) (\<lambda>pathname.
     case pathname of None \<Rightarrow> end_with (-1) | Some pathname \<Rightarrow>
     bindK (argint 1) (\<lambda>major.
     bindK (argint 2) (\<lambda>minor.
     bindK (create pathname T_DEVICE (ucast major) (ucast minor)) (\<lambda>ip.
     case ip of None \<Rightarrow> end_with (-1) | Some ip \<Rightarrow>
     thenK (iunlockput ip) (end_with 0))))))"

definition sys_chdir :: "(u64, 'z ftable_scheme) kop" where
  "sys_chdir =
     bindK myproc (\<lambda>p.
     thenK begin_op (
     bindK (argstr 0 MAXPATH) (\<lambda>pathname.
     case pathname of None \<Rightarrow> end_with (-1) | Some pathname \<Rightarrow>
     bindK (namei pathname) (\<lambda>ip.
     case ip of None \<Rightarrow> end_with (-1) | Some ip \<Rightarrow>
     thenK (ilock (Some ip)) (
     bindK (getK (\<lambda>s. i_type (inodes s ip))) (\<lambda>ty.
     if ty \<noteq> T_DIR then thenK (iunlockput ip) (end_with (-1))
     else thenK (iunlock (Some ip)) (
          derefK p (\<lambda>p.
          bindK (getK (\<lambda>s. p_cwd (procs s p))) (\<lambda>cwd. derefK cwd (\<lambda>cwd.
          thenK (iput cwd) (
          thenK end_op (
          thenK (modK (upd_proc p (\<lambda>r. r\<lparr>p_cwd := Some ip\<rparr>)))
                (retK 0)))))))))))))"

section \<open>exec and pipe\<close>

text \<open>
  The loop that fetches the arguments, with \<open>k\<close> elements of \<^verbatim>\<open>argv\<close> left: \<open>Inl\<close> is a jump to \<^verbatim>\<open>bad\<close>, \<open>Inr\<close>
  the end of the loop, with the pages allocated. A string that cannot be fetched leaves what
  \<open>copyinstr\<close> has copied in a page that \<^verbatim>\<open>bad\<close> frees and fills.
\<close>

primrec fetch_args :: "u64 \<Rightarrow> u64 list \<Rightarrow> nat \<Rightarrow> (u64 list + u64 list, 'z kmem_scheme) kop" where
  "fetch_args uargv argv 0 = retK (Inl argv)"
| "fetch_args uargv argv (Suc k) =
     bindK (fetchaddr (uargv + 8 * of_nat (length argv))) (\<lambda>r.
     case r of None \<Rightarrow> retK (Inl argv) | Some uarg \<Rightarrow>
     if uarg = 0 then retK (Inr argv)
     else bindK kalloc (\<lambda>pa.
          if pa = 0 then retK (Inl argv)
          else bindK (fetchstr uarg PGSIZE) (\<lambda>r.
               case r of None \<Rightarrow> retK (Inl (argv @ [pa])) | Some str \<Rightarrow>
               thenK (modK (\<lambda>s. s\<lparr>mem := put_bytes (mem s) pa (str @ [0])\<rparr>))
                     (fetch_args uargv (argv @ [pa]) k))))"

definition sys_exec :: "(u64, 'z ftable_scheme) kop" where
  "sys_exec =
     bindK (argstr 0 MAXPATH) (\<lambda>pathname.
     case pathname of None \<Rightarrow> retK (-1) | Some pathname \<Rightarrow>
     bindK (argaddr 1) (\<lambda>uargv.
     bindK (fetch_args uargv [] MAXARG) (\<lambda>r.
     case r of
       Inl argv \<Rightarrow> thenK (eachK kfree argv) (retK (-1))
     | Inr argv \<Rightarrow>
         bindK (exec pathname argv) (\<lambda>ret.
         thenK (eachK kfree argv)
               (retK (word_of_int ret))))))"

definition close_both :: "nat \<Rightarrow> nat \<Rightarrow> (u64, 'z ftable_scheme) kop" where
  "close_both rfile wfile = thenK (fileclose rfile) (thenK (fileclose wfile) (retK (-1)))"

definition sys_pipe :: "(u64, 'z ftable_scheme) kop" where
  "sys_pipe =
     bindK myproc (\<lambda>p. derefK p (\<lambda>p.
     bindK (argaddr 0) (\<lambda>fdarray.
     bindK pipealloc (\<lambda>r.
     case r of None \<Rightarrow> retK (-1) | Some (rfile, wfile) \<Rightarrow>
     bindK (fdalloc rfile) (\<lambda>fd0.
     case fd0 of None \<Rightarrow> close_both rfile wfile | Some fd0 \<Rightarrow>
     bindK (fdalloc wfile) (\<lambda>fd1.
     case fd1 of None \<Rightarrow> thenK (set_ofile p fd0 None) (close_both rfile wfile) | Some fd1 \<Rightarrow>
     bindK (getK (\<lambda>s. p_pagetable (procs s p))) (\<lambda>pt.
     bindK (copyout pt fdarray (le_bytes 4 (of_nat fd0 :: u32))) (\<lambda>e.
     bindK (if e < 0 then retK e else copyout pt (fdarray + 4) (le_bytes 4 (of_nat fd1 :: u32))) (\<lambda>e.
     if e < 0
     then thenK (set_ofile p fd0 None) (
          thenK (set_ofile p fd1 None)
                (close_both rfile wfile))
     else retK 0)))))))))"

section \<open>Processes and time\<close>

record timer = ftable +
  ticks :: u32

definition sys_exit :: "(u64, 'z timer_scheme) kop" where
  "sys_exit = bindK (argint 0) exit"

definition sys_getpid :: "(u64, 'z timer_scheme) kop" where
  "sys_getpid = bindK myproc (\<lambda>p. derefK p (\<lambda>p. getK (\<lambda>s. scast (p_pid (procs s p)))))"

definition sys_fork :: "(u64, 'z timer_scheme) kop" where
  "sys_fork = bindK fork (\<lambda>r. retK (word_of_int r))"

definition sys_wait :: "(u64, 'z timer_scheme) kop" where
  "sys_wait = bindK (argaddr 0) (\<lambda>p. bindK (wait p) (\<lambda>r. retK (word_of_int r)))"

definition sys_sbrk :: "(u64, 'z timer_scheme) kop" where
  "sys_sbrk =
     bindK (argint 0) (\<lambda>n.
     bindK myproc (\<lambda>p. derefK p (\<lambda>p.
     bindK (getK (\<lambda>s. ucast (p_sz (procs s p)) :: u32)) (\<lambda>addr.
     bindK (growproc n) (\<lambda>e.
     retK (if e < 0 then -1 else scast addr))))))"

text \<open>A process woken in \<open>sys_sleep\<close> starts the loop again. \<^verbatim>\<open>ticks - ticks0 < n\<close> compares unsigned numbers.\<close>

definition sys_sleep_loop :: "u32 \<Rightarrow> u32 \<Rightarrow> (u64, 'z timer_scheme) kop" where
  "sys_sleep_loop ticks0 n =
     bindK (getK ticks) (\<lambda>t.
     if t - ticks0 < n
     then bindK myproc (\<lambda>p. derefK p (\<lambda>p.
          bindK (getK (\<lambda>s. p_killed (procs s p))) (\<lambda>killed.
          if killed then thenK (release Tickslock) (retK (-1))
          else sleep Ch_ticks Tickslock)))
     else thenK (release Tickslock) (retK 0))"

definition sys_sleep :: "(u64, 'z timer_scheme) kop" where
  "sys_sleep =
     bindK (argint 0) (\<lambda>n.
     thenK (acquire Tickslock) (
     bindK (getK ticks) (\<lambda>ticks0. sys_sleep_loop ticks0 n)))"

definition sys_kill :: "(u64, 'z timer_scheme) kop" where
  "sys_kill = bindK (argint 0) (\<lambda>pid. bindK (kill pid) (\<lambda>r. retK (word_of_int r)))"

definition sys_uptime :: "(u64, 'z timer_scheme) kop" where
  "sys_uptime =
     thenK (acquire Tickslock) (
     bindK (getK ticks) (\<lambda>xticks.
     thenK (release Tickslock)
           (retK (ucast xticks))))"

section \<open>Dispatch\<close>

text \<open>The numbers of \<^verbatim>\<open>kernel/syscall.h\<close>, in the order of their values 1 to 21.\<close>

definition syscalls :: "(u64, 'z timer_scheme) kop list" where
  "syscalls =
     [sys_fork, sys_exit, sys_wait, sys_pipe, sys_read, sys_kill, sys_exec, sys_fstat, sys_chdir, sys_dup,
      sys_getpid, sys_sbrk, sys_sleep, sys_uptime, sys_open, sys_write, sys_mknod, sys_unlink, sys_link,
      sys_mkdir, sys_close]"

definition syscall :: "(unit, 'z timer_scheme) kop" where
  "syscall =
     bindK myproc (\<lambda>p. derefK p (\<lambda>p.
     bindK (tf_get p A7) (\<lambda>a7.
     let num = (ucast a7 :: u32); calls = syscalls in
     if 0 < sint num \<and> sint num < int (length calls) + 1
     then bindK (calls ! (unat num - 1)) (\<lambda>r. tf_set p A0 r)
     else bindK (getK (\<lambda>s. procs s p)) (\<lambda>r.
          thenK (printf (Some (ascii ''%d %s: unknown sys call %d'' @ [0x0A]))
                   [AInt (p_pid r), AStr (Some (takeWhile (\<lambda>c. c \<noteq> 0) (p_name r))), AInt num])
                (tf_set p A0 (-1))))))"

section \<open>User addresses\<close>

text \<open>
  C26: A word that \<open>fetchaddr\<close> returns lies entirely below the size of the process and is what the
  memory of the process holds there.
\<close>

theorem fetchaddr_in_bounds:
  assumes q: "quiet s" and cur: "current p s" and wf: "wf_pt (mem s) (p_pagetable (procs s p))"
    and sz: "p_sz (procs s p) \<le> MAXVA" and run: "fetchaddr addr s = Ret (Some v) t"
  shows "t = s \<and> unat addr + 8 \<le> unat (p_sz (procs s p)) \<and> umapped (mem s) (p_pagetable (procs s p)) addr 8 \<and>
    v = le_word (ubytes (mem s) (p_pagetable (procs s p)) addr 8)"
proof -
  let ?r = "procs s p"
  have g: "\<not> (addr \<ge> p_sz ?r \<or> addr + 8 > p_sz ?r)"
    using run cur q by (auto simp: fetchaddr_def myproc_eq)
  then have a: "unat addr < unat (p_sz ?r)" "unat (p_sz ?r) \<le> 2 ^ 38"
    using sz by (simp_all add: word_less_nat_alt word_le_nat_alt MAXVA_def)
  then have u: "unat (addr + 8) = unat addr + 8" by (subst unat_add_no_wrap) simp_all
  then have "unat addr + 8 \<le> unat (p_sz ?r)" using g by (simp add: word_less_nat_alt)
  moreover have "copyin (p_pagetable ?r) addr 8 s =
      Ret (if umapped (mem s) (p_pagetable ?r) addr 8 then Some (ubytes (mem s) (p_pagetable ?r) addr 8) else None) s"
    using copyin_eq [OF wf, of addr 8] a by simp
  ultimately show ?thesis using run cur q g by (auto simp: fetchaddr_def myproc_eq split: if_splits)
qed

theorem fetchaddr_in_bounds_witness:
  "\<exists>v t. fetchaddr 16 (demo_ftable blank_pipe\<lparr>procs := (\<lambda>_. no_proc\<lparr>p_pagetable := demo_pt, p_sz := 0x1000\<rparr>)\<rparr>) = Ret (Some v) t \<and>
     v = le_word (ubytes demo_ram demo_pt 16 8)"
proof -
  let ?s = "demo_ftable blank_pipe\<lparr>procs := (\<lambda>_. no_proc\<lparr>p_pagetable := demo_pt, p_sz := 0x1000\<rparr>)\<rparr>"
  have q: "quiet ?s" and c: "current 0 ?s" using demo_ftable_simps(1,2) [of blank_pipe] by simp_all
  have "copyin demo_pt 16 8 ?s = Ret (Some (ubytes demo_ram demo_pt 16 8)) ?s"
    using copyin_eq [of ?s demo_pt 16 8] demo_table(1) demo_umapped [of 16 8] by simp
  then have run: "fetchaddr 16 ?s = Ret (Some (le_word (ubytes demo_ram demo_pt 16 8))) ?s"
    using q c by (simp add: fetchaddr_def myproc_eq)
  show ?thesis
    using fetchaddr_in_bounds [OF q c _ _ run] run demo_table(1) by (simp add: MAXVA_def)
qed

end
