(* ===== verification/Trap.thy ===== *)
theory Trap
  imports Sysfile
begin

unbundle bit_operations_syntax

text \<open>
  Traps and start-up: \<^verbatim>\<open>kernel/trap.c\<close>, \<^verbatim>\<open>kernel/plic.c\<close>, \<^verbatim>\<open>kernel/start.c\<close>, \<^verbatim>\<open>kernel/main.c\<close>, \<open>forkret\<close> of
  \<^verbatim>\<open>kernel/proc.c\<close> and the control registers of \<^verbatim>\<open>kernel/riscv.h\<close>. Supervisor code finds its registers by
  the hart number in \<open>tp\<close>; \<open>start\<close> runs before \<open>tp\<close> is set and is given the number of its hart. The
  answers of the interrupt controller are a list in the state, its register writes are recorded.
\<close>

section \<open>State and control registers\<close>

datatype csr =
    Mstatus | Mepc | Sip | Sie | Mie | Sepc | Medeleg | Mideleg | Stvec | Mtvec | Mscratch | Scause | Stval

record traps = timer +
  csrs :: "nat \<Rightarrow> csr \<Rightarrow> u64"
  plic_resp :: "u32 list"
  plic_writes :: "(u64 \<times> u32) list"
  clint :: "u64 \<Rightarrow> u64"
  mscratch0 :: "nat \<Rightarrow> u64"
  mscratch0_at :: u64
  main_pc :: u64
  timervec_pc :: u64
  first_forkret :: bool
  started :: bool

definition MSTATUS_MPP_MASK :: u64 where "MSTATUS_MPP_MASK = push_bit 11 3"
definition MSTATUS_MPP_S :: u64 where "MSTATUS_MPP_S = push_bit 11 1"
definition MSTATUS_MIE :: u64 where "MSTATUS_MIE = push_bit 3 1"
definition SSTATUS_SPP :: u64 where "SSTATUS_SPP = push_bit 8 1"
definition SSTATUS_SPIE :: u64 where "SSTATUS_SPIE = push_bit 5 1"
definition SIE_SEIE :: u64 where "SIE_SEIE = push_bit 9 1"
definition SIE_STIE :: u64 where "SIE_STIE = push_bit 5 1"
definition SIE_SSIE :: u64 where "SIE_SSIE = push_bit 1 1"
definition MIE_MTIE :: u64 where "MIE_MTIE = push_bit 7 1"

definition rd_csr :: "nat \<Rightarrow> csr \<Rightarrow> (u64, 'z traps_scheme) kop" where
  "rd_csr h r = getK (\<lambda>s. csrs s h r)"

definition wr_csr :: "nat \<Rightarrow> csr \<Rightarrow> u64 \<Rightarrow> (unit, 'z traps_scheme) kop" where
  "wr_csr h r x = modK (\<lambda>s. s\<lparr>csrs := (csrs s)(h := (csrs s h)(r := x))\<rparr>)"

definition r_sip :: "(u64, 'z traps_scheme) kop" where
  "r_sip = bindK cpuid (\<lambda>h. rd_csr h Sip)"

definition w_sip :: "u64 \<Rightarrow> (unit, 'z traps_scheme) kop" where
  "w_sip x = bindK cpuid (\<lambda>h. wr_csr h Sip x)"

definition r_sepc :: "(u64, 'z traps_scheme) kop" where
  "r_sepc = bindK cpuid (\<lambda>h. rd_csr h Sepc)"

definition w_sepc :: "u64 \<Rightarrow> (unit, 'z traps_scheme) kop" where
  "w_sepc x = bindK cpuid (\<lambda>h. wr_csr h Sepc x)"

definition w_stvec :: "u64 \<Rightarrow> (unit, 'z traps_scheme) kop" where
  "w_stvec x = bindK cpuid (\<lambda>h. wr_csr h Stvec x)"

definition r_scause :: "(u64, 'z traps_scheme) kop" where
  "r_scause = bindK cpuid (\<lambda>h. rd_csr h Scause)"

definition r_stval :: "(u64, 'z traps_scheme) kop" where
  "r_stval = bindK cpuid (\<lambda>h. rd_csr h Stval)"

definition r_satp :: "(u64, 'z traps_scheme) kop" where
  "r_satp = bindK cpuid (\<lambda>h. getK (\<lambda>s. satp s h))"

definition w_satp :: "nat \<Rightarrow> u64 \<Rightarrow> (unit, 'z traps_scheme) kop" where
  "w_satp h x = modK (\<lambda>s. s\<lparr>satp := (satp s)(h := x)\<rparr>)"

definition w_tp :: "u64 \<Rightarrow> (unit, 'z traps_scheme) kop" where
  "w_tp x = modK (\<lambda>s. s\<lparr>tp := x\<rparr>)"

section \<open>Interrupt controller\<close>

definition UART0_IRQ :: u32 where "UART0_IRQ = 10"
definition VIRTIO0_IRQ :: u32 where "VIRTIO0_IRQ = 1"
definition PLIC_SENABLE :: "u64 \<Rightarrow> u64" where "PLIC_SENABLE hart = PLIC + 0x2080 + hart * 0x100"
definition PLIC_SPRIORITY :: "u64 \<Rightarrow> u64" where "PLIC_SPRIORITY hart = PLIC + 0x201000 + hart * 0x2000"
definition PLIC_SCLAIM :: "u64 \<Rightarrow> u64" where "PLIC_SCLAIM hart = PLIC + 0x201004 + hart * 0x2000"

definition wr_plic :: "u64 \<Rightarrow> u32 \<Rightarrow> (unit, 'z traps_scheme) kop" where
  "wr_plic a v = modK (\<lambda>s. s\<lparr>plic_writes := plic_writes s @ [(a, v)]\<rparr>)"

definition plicinit :: "(unit, 'z traps_scheme) kop" where
  "plicinit =
     thenK (wr_plic (PLIC + ucast UART0_IRQ * 4) 1)
           (wr_plic (PLIC + ucast VIRTIO0_IRQ * 4) 1)"

definition plicinithart :: "(unit, 'z traps_scheme) kop" where
  "plicinithart =
     bindK cpuid (\<lambda>hart.
     thenK (wr_plic (PLIC_SENABLE (of_nat hart)) (push_bit (unat UART0_IRQ) 1 OR push_bit (unat VIRTIO0_IRQ) 1))
           (wr_plic (PLIC_SPRIORITY (of_nat hart)) 0))"

definition plic_claim :: "(u32, 'z traps_scheme) kop" where
  "plic_claim =
     bindK (getK plic_resp) (\<lambda>r.
     case r of
       [] \<Rightarrow> divergeK
     | irq # rest \<Rightarrow> thenK (modK (\<lambda>s. s\<lparr>plic_resp := rest\<rparr>)) (retK irq))"

definition plic_complete :: "u32 \<Rightarrow> (unit, 'z traps_scheme) kop" where
  "plic_complete irq = bindK cpuid (\<lambda>hart. wr_plic (PLIC_SCLAIM (of_nat hart)) irq)"

section \<open>Traps\<close>

definition trapinit :: "(unit, 'z traps_scheme) kop" where
  "trapinit = initlock Tickslock ''time''"

definition trapinithart :: "(unit, 'z traps_scheme) kop" where
  "trapinithart = bindK (getK kernelvec_pc) w_stvec"

definition clockintr :: "(unit, 'z traps_scheme) kop" where
  "clockintr =
     thenK (acquire Tickslock) (
     thenK (modK (\<lambda>s. s\<lparr>ticks := ticks s + 1\<rparr>)) (
     thenK (wakeup Ch_ticks)
           (release Tickslock)))"

definition devintr :: "(int, 'z traps_scheme) kop" where
  "devintr =
     bindK r_scause (\<lambda>scause.
     if scause AND 0x8000000000000000 \<noteq> 0 \<and> scause AND 0xFF = 9
     then bindK plic_claim (\<lambda>irq.
          thenK (if irq = UART0_IRQ then uartintr
                 else if irq = VIRTIO0_IRQ then virtio_disk_intr
                 else whenK (irq \<noteq> 0) (printf (Some (ascii ''unexpected interrupt irq=%d'' @ [0x0A])) [AInt irq])) (
          thenK (whenK (irq \<noteq> 0) (plic_complete irq))
                (retK 1)))
     else if scause = 0x8000000000000001
     then bindK cpuid (\<lambda>h.
          thenK (whenK (h = 0) clockintr) (
          bindK r_sip (\<lambda>x.
          thenK (w_sip (x AND NOT 2))
                (retK 2))))
     else retK 0)"

text \<open>\<open>usertrapret\<close> gives the address it jumps to and the two arguments in \<open>a0\<close> and \<open>a1\<close>.\<close>

definition usertrapret :: "(u64 \<times> u64 \<times> u64, 'z traps_scheme) kop" where
  "usertrapret =
     bindK myproc (\<lambda>p.
     thenK intr_off (
     bindK (getK (\<lambda>s. uservec_pc s - trampoline s)) (\<lambda>d.
     thenK (w_stvec (TRAMPOLINE + d)) (
     derefK p (\<lambda>p.
     bindK r_satp (\<lambda>x.
     thenK (tf_set p Kernel_satp x) (
     bindK (getK (\<lambda>s. p_kstack (procs s p))) (\<lambda>kstack.
     thenK (tf_set p Kernel_sp (kstack + PGSIZE)) (
     bindK (getK usertrap_pc) (\<lambda>pc.
     thenK (tf_set p Kernel_trap pc) (
     bindK r_tp (\<lambda>h.
     thenK (tf_set p Kernel_hartid h) (
     bindK r_sstatus (\<lambda>x.
     thenK (w_sstatus ((x AND NOT SSTATUS_SPP) OR SSTATUS_SPIE)) (
     bindK (tf_get p Epc) (\<lambda>epc.
     thenK (w_sepc epc) (
     bindK (getK (\<lambda>s. MAKE_SATP (p_pagetable (procs s p)))) (\<lambda>satp.
     bindK (getK (\<lambda>s. TRAMPOLINE + (userret_pc s - trampoline s))) (\<lambda>fn.
     retK (fn, TRAPFRAME, satp))))))))))))))))))))"

definition die_if_killed :: "nat \<Rightarrow> (unit, 'z traps_scheme) kop" where
  "die_if_killed p =
     bindK (getK (\<lambda>s. p_killed (procs s p))) (\<lambda>killed. whenK killed (exit (-1)))"

definition usertrap :: "(u64 \<times> u64 \<times> u64, 'z traps_scheme) kop" where
  "usertrap =
     bindK r_sstatus (\<lambda>x.
     if x AND SSTATUS_SPP \<noteq> 0 then panicK ''usertrap: not from user mode''
     else bindK (getK kernelvec_pc) (\<lambda>pc.
     thenK (w_stvec pc) (
     bindK myproc (\<lambda>p. derefK p (\<lambda>p.
     bindK r_sepc (\<lambda>sepc.
     thenK (tf_set p Epc sepc) (
     bindK r_scause (\<lambda>scause.
     bindK (if scause = 8
            then thenK (die_if_killed p) (
                 bindK (tf_get p Epc) (\<lambda>epc.
                 thenK (tf_set p Epc (epc + 4)) (
                 thenK intr_on (
                 thenK syscall
                       (retK 0)))))
            else bindK devintr (\<lambda>which_dev.
                 if which_dev \<noteq> 0 then retK which_dev
                 else bindK r_stval (\<lambda>stval.
                      bindK (getK (\<lambda>s. p_pid (procs s p))) (\<lambda>pid.
                      thenK (printf (Some (ascii ''usertrap(): unexpected scause %p pid=%d'' @ [0x0A])) [APtr scause, AInt pid]) (
                      thenK (printf (Some (ascii ''            sepc=%p stval=%p'' @ [0x0A])) [APtr sepc, APtr stval]) (
                      thenK (modK (upd_proc p (\<lambda>r. r\<lparr>p_killed := True\<rparr>)))
                            (retK 0))))))) (\<lambda>which_dev.
     thenK (die_if_killed p) (
     thenK (whenK (which_dev = 2) yield)
           usertrapret))))))))))"

definition kerneltrap :: "(unit, 'z traps_scheme) kop" where
  "kerneltrap =
     bindK r_sepc (\<lambda>sepc.
     bindK r_sstatus (\<lambda>sst.
     bindK r_scause (\<lambda>scause.
     if sst AND SSTATUS_SPP = 0 then panicK ''kerneltrap: not from supervisor mode''
     else bindK intr_get (\<lambda>on.
     if on then panicK ''kerneltrap: interrupts enabled''
     else bindK devintr (\<lambda>which_dev.
     if which_dev = 0
     then bindK r_stval (\<lambda>stval.
          thenK (printf (Some (ascii ''scause %p'' @ [0x0A])) [APtr scause]) (
          thenK (printf (Some (ascii ''sepc=%p stval=%p'' @ [0x0A])) [APtr sepc, APtr stval])
                (panicK ''kerneltrap'')))
     else bindK myproc (\<lambda>p.
          bindK (getK (\<lambda>s. case p of None \<Rightarrow> False | Some p \<Rightarrow> p_state (procs s p) = RUNNING)) (\<lambda>running.
          thenK (whenK (which_dev = 2 \<and> running) yield) (
          thenK (w_sepc sepc)
                (w_sstatus sst)))))))))"

definition forkret :: "(u64 \<times> u64 \<times> u64, 'z traps_scheme) kop" where
  "forkret =
     bindK myproc (\<lambda>p. derefK p (\<lambda>p.
     thenK (release (Proc_lock p)) (
     bindK (getK first_forkret) (\<lambda>first.
     thenK (whenK first
              (thenK (modK (\<lambda>s. s\<lparr>first_forkret := False\<rparr>))
                     (fsinit ROOTDEV)))
           usertrapret))))"

section \<open>Start-up\<close>

definition CLINT_MTIMECMP :: "u64 \<Rightarrow> u64" where "CLINT_MTIMECMP hartid = CLINT + 0x4000 + 8 * hartid"
definition CLINT_MTIME :: u64 where "CLINT_MTIME = CLINT + 0xBFF8"

definition timerinit :: "nat \<Rightarrow> (unit, 'z traps_scheme) kop" where
  "timerinit h =
     (let id = of_nat h; interval = 1000000 in
      thenK (modK (\<lambda>s. s\<lparr>clint := (clint s)(CLINT_MTIMECMP id := clint s CLINT_MTIME + interval)\<rparr>)) (
      thenK (modK (\<lambda>s. s\<lparr>mscratch0 := (mscratch0 s)(32 * h + 4 := CLINT_MTIMECMP id, 32 * h + 5 := interval)\<rparr>)) (
      bindK (getK (\<lambda>s. mscratch0_at s + 8 * (32 * id))) (\<lambda>scratch.
      thenK (wr_csr h Mscratch scratch) (
      bindK (getK timervec_pc) (\<lambda>pc.
      thenK (wr_csr h Mtvec pc) (
      bindK (rd_csr h Mstatus) (\<lambda>x.
      thenK (wr_csr h Mstatus (x OR MSTATUS_MIE)) (
      bindK (rd_csr h Mie) (\<lambda>x.
      wr_csr h Mie (x OR MIE_MTIE)))))))))))"

definition start :: "nat \<Rightarrow> (unit, 'z traps_scheme) kop" where
  "start h =
     bindK (rd_csr h Mstatus) (\<lambda>x.
     thenK (wr_csr h Mstatus ((x AND NOT MSTATUS_MPP_MASK) OR MSTATUS_MPP_S)) (
     bindK (getK main_pc) (\<lambda>pc.
     thenK (wr_csr h Mepc pc) (
     thenK (w_satp h 0) (
     thenK (wr_csr h Medeleg 0xFFFF) (
     thenK (wr_csr h Mideleg 0xFFFF) (
     bindK (rd_csr h Sie) (\<lambda>x.
     thenK (wr_csr h Sie (x OR SIE_SEIE OR SIE_STIE OR SIE_SSIE)) (
     thenK (timerinit h)
           (w_tp (of_nat h)))))))))))"

text \<open>\<open>main\<close> up to its call of \<open>scheduler\<close>. A hart that finds \<^verbatim>\<open>started\<close> clear spins and tests it again.\<close>

definition main :: "(unit, 'z traps_scheme) kop" where
  "main =
     bindK cpuid (\<lambda>h.
     if h = 0
     then thenK consoleinit (
          thenK printfinit (
          thenK (printf (Some [0x0A]) []) (
          thenK (printf (Some (ascii ''xv6 kernel is booting'' @ [0x0A])) []) (
          thenK (printf (Some [0x0A]) []) (
          thenK kinit (
          thenK kvminit (
          thenK kvminithart (
          thenK procinit (
          thenK trapinit (
          thenK trapinithart (
          thenK plicinit (
          thenK plicinithart (
          thenK binit (
          thenK iinit (
          thenK fileinit (
          thenK virtio_disk_init (
          thenK userinit
                (modK (\<lambda>s. s\<lparr>started := True\<rparr>)))))))))))))))))))
     else bindK (getK started) (\<lambda>go.
          if \<not> go then blockK Ch_started
          else thenK (printf (Some (ascii ''hart %d starting'' @ [0x0A])) [AInt (of_nat h)]) (
               thenK kvminithart (
               thenK trapinithart
                     plicinithart))))"

section \<open>Sleeping\<close>

lemma timer_acq [simp]:
  "ticks (acq l s) = ticks s" "(acq l s)\<lparr>ticks := x\<rparr> = acq l (s\<lparr>ticks := x\<rparr>)" "quiet (s\<lparr>ticks := x\<rparr>) = quiet s"
  "cpu_ok (s\<lparr>ticks := x\<rparr>) = cpu_ok s" "cid (s\<lparr>ticks := x\<rparr>) = cid s" "lock_free l (s\<lparr>ticks := x\<rparr>) = lock_free l s"
  "proc_locks_free (s\<lparr>ticks := x\<rparr>) = proc_locks_free s"
  by (simp_all add: acq_def upd_lock_def pushed_def cid_def intr_enabled_def quiet_def cpu_ok_def lock_free_def proc_locks_free_def)

lemma timer_order [simp]: "s\<lparr>procs := x, ticks := y\<rparr> = s\<lparr>ticks := y, procs := x\<rparr>"
  by simp

lemma clockintr_eq:
  "quiet s \<Longrightarrow> clockintr s = Ret () (s\<lparr>ticks := ticks s + 1, procs := woken Ch_ticks (procs s)\<rparr>)"
  by (simp add: clockintr_def lock_steps wakeup_woken)

lemma eachK_append: "eachK f (xs @ ys) s = thenK (eachK f xs) (eachK f ys) s"
  by (induction xs arbitrary: s) (auto simp: thenK_def bindK_def split: outcome.splits)

definition ticking :: "nat \<Rightarrow> (unit, 'z traps_scheme) kop" where
  "ticking k = eachK (\<lambda>_. clockintr) [0..<k]"


section \<open>Returning to user space\<close>

lemma region_off: "i + n \<le> 2 ^ 64 \<Longrightarrow> 0 < n \<Longrightarrow>
  in_region (a + of_nat i :: u64) n b \<longleftrightarrow> i \<le> unat (b - a) \<and> unat (b - a) < i + n"
proof -
  assume n: "i + n \<le> 2 ^ 64" "0 < n"
  define c where "c = b - a"
  have e: "b - (a + of_nat i) = c - of_nat i" by (simp add: c_def)
  have i: "unat (of_nat i :: u64) = i" using n by (simp add: unat_of_nat_u64)
  show ?thesis
  proof (cases "i \<le> unat c")
    case True
    then have "(of_nat i :: u64) \<le> c" by (simp add: word_le_nat_alt i)
    then have "unat (c - of_nat i) = unat c - i" by (simp add: unat_sub i)
    then show ?thesis using True by (auto simp: in_region_def e c_def [symmetric])
  next
    case False
    have "unat (c - of_nat i) = 2 ^ 64 + unat c - i"
      using False n by (simp add: unat_sub_if' i word_le_nat_alt)
    then show ?thesis using False n by (auto simp: in_region_def e c_def [symmetric])
  qed
qed

lemma field_off: "i + 8 \<le> j \<or> j + 8 \<le> i \<Longrightarrow> i + 8 \<le> 2 ^ 64 \<Longrightarrow> j + 8 \<le> 2 ^ 64 \<Longrightarrow>
  ld64 (st64 m (a + of_nat j) v) (a + of_nat i) = ld64 m (a + of_nat i)"
  by (rule ld64_st64_other) (simp add: region_off, linarith)

lemma tf_fields:
  "ld64 (st64 m a v) (a + 8) = ld64 m (a + 8)" "ld64 (st64 m a v) (a + 16) = ld64 m (a + 16)"
  "ld64 (st64 m a v) (a + 24) = ld64 m (a + 24)" "ld64 (st64 m a v) (a + 32) = ld64 m (a + 32)"
  "ld64 (st64 m (a + 8) v) a = ld64 m a" "ld64 (st64 m (a + 16) v) a = ld64 m a" "ld64 (st64 m (a + 32) v) a = ld64 m a"
  "ld64 (st64 m (a + 8) v) (a + 24) = ld64 m (a + 24)" "ld64 (st64 m (a + 16) v) (a + 24) = ld64 m (a + 24)"
  "ld64 (st64 m (a + 32) v) (a + 24) = ld64 m (a + 24)" "ld64 (st64 m (a + 16) v) (a + 8) = ld64 m (a + 8)"
  "ld64 (st64 m (a + 32) v) (a + 8) = ld64 m (a + 8)" "ld64 (st64 m (a + 32) v) (a + 16) = ld64 m (a + 16)"
  using field_off [of 8 0 m a v] field_off [of 16 0 m a v] field_off [of 24 0 m a v] field_off [of 32 0 m a v]
    field_off [of 0 8 m a v] field_off [of 0 16 m a v] field_off [of 0 32 m a v]
    field_off [of 24 8 m a v] field_off [of 24 16 m a v] field_off [of 24 32 m a v]
    field_off [of 8 16 m a v] field_off [of 8 32 m a v] field_off [of 16 32 m a v]
  by simp_all

definition user_sstatus :: "u64 \<Rightarrow> u64" where
  "user_sstatus x = ((x AND NOT SSTATUS_SIE) AND NOT SSTATUS_SPP) OR SSTATUS_SPIE"

lemma user_sstatus_bits:
  "user_sstatus x AND SSTATUS_SIE = 0" "user_sstatus x AND SSTATUS_SPP = 0" "user_sstatus x AND SSTATUS_SPIE \<noteq> 0"
proof -
  have b: "bit SSTATUS_SIE n \<longleftrightarrow> n = 1" "bit SSTATUS_SPP n \<longleftrightarrow> n = 8" "bit SSTATUS_SPIE n \<longleftrightarrow> n = 5" for n
    unfolding SSTATUS_SIE_def SSTATUS_SPP_def SSTATUS_SPIE_def bit_push_bit_iff by (auto simp: bit_1_iff)
  show "user_sstatus x AND SSTATUS_SIE = 0" "user_sstatus x AND SSTATUS_SPP = 0"
    by (rule bit_word_eqI; auto simp: user_sstatus_def bit_simps b)+
  have "bit (user_sstatus x AND SSTATUS_SPIE) 5"
    by (simp add: user_sstatus_def SSTATUS_SPIE_def bit_simps)
  then show "user_sstatus x AND SSTATUS_SPIE \<noteq> 0" by (metis bit_0_eq bot_apply bot_bool_def)
qed

definition kernel_frame :: "u64 \<Rightarrow> u64 \<Rightarrow> u64 \<Rightarrow> u64 \<Rightarrow> u64 \<Rightarrow> ram \<Rightarrow> ram" where
  "kernel_frame tf kpt sp pc h m = st64 (st64 (st64 (st64 m tf kpt) (tf + 8) sp) (tf + 16) pc) (tf + 32) h"

text \<open>
  C28: \<open>usertrapret\<close> leaves the hart ready for \<^verbatim>\<open>sret\<close> into the process: interrupts are off until then and
  on after it, the previous mode is user, the program counter is the saved one, traps go to the
  trampoline, the trapframe holds what \<open>uservec\<close> needs to enter the kernel, and the page table is
  that of the process.
\<close>

theorem usertrapret_enters_user_mode:
  assumes q: "quiet s" and cur: "current p s" and tf: "tf = p_trapframe (procs s p)"
  shows "\<exists>t. usertrapret s =
      Ret (TRAMPOLINE + (userret_pc s - trampoline s), TRAPFRAME, MAKE_SATP (p_pagetable (procs s p))) t \<and>
    sstatus t (cid s) AND SSTATUS_SIE = 0 \<and> sstatus t (cid s) AND SSTATUS_SPP = 0 \<and> sstatus t (cid s) AND SSTATUS_SPIE \<noteq> 0 \<and>
    csrs t (cid s) Stvec = TRAMPOLINE + (uservec_pc s - trampoline s) \<and> csrs t (cid s) Sepc = ld64 (mem s) (tf + 24) \<and>
    ld64 (mem t) tf = satp s (cid s) \<and> ld64 (mem t) (tf + 8) = p_kstack (procs s p) + PGSIZE \<and>
    ld64 (mem t) (tf + 16) = usertrap_pc s \<and> ld64 (mem t) (tf + 32) = tp s \<and>
    ld64 (mem t) (tf + 24) = ld64 (mem s) (tf + 24)"
proof -
  let ?m = "kernel_frame tf (satp s (cid s)) (p_kstack (procs s p) + PGSIZE) (usertrap_pc s) (tp s) (mem s)"
  let ?c = "(csrs s (cid s))(Stvec := TRAMPOLINE + (uservec_pc s - trampoline s), Sepc := ld64 (mem s) (tf + 24))"
  let ?t = "s\<lparr>mem := ?m, sstatus := (sstatus s)(cid s := user_sstatus (sstatus s (cid s))), csrs := (csrs s)(cid s := ?c)\<rparr>"
  have "usertrapret s = Ret (TRAMPOLINE + (userret_pc s - trampoline s), TRAPFRAME, MAKE_SATP (p_pagetable (procs s p))) ?t"
    using q cur tf
    by (simp add: usertrapret_def myproc_eq intr_off_def r_sstatus_def w_sstatus_def w_stvec_def wr_csr_def
        r_satp_def tf_set_def tf_get_def w_sepc_def kernel_frame_def user_sstatus_def cid_def tf_fields)
  then show ?thesis
    by (intro exI [of _ ?t]) (simp add: user_sstatus_bits kernel_frame_def tf_fields ld64_st64)
qed

definition boot_traps :: traps where
  "boot_traps = timer.extend (ftable.extend (demo_ftable blank_pipe) (timer.fields 5))
     (traps.fields (\<lambda>_ _. 0) [] [] (\<lambda>_. 0) (\<lambda>_. 0) 0 0 0 True False)"

lemma boot_traps_simps [simp]:
  "quiet boot_traps" "current 0 boot_traps" "ticks boot_traps = 5" "mem boot_traps = demo_ram" "procs boot_traps = (\<lambda>_. no_proc\<lparr>p_pagetable := demo_pt\<rparr>)"
  by (simp_all add: boot_traps_def demo_ftable_def boot_ftable_def boot_fs_def boot_virtio_def boot_console_def boot_kmem_def boot_sleeplocks_def
      sleeplocks.defs kmem.defs vm.defs image.defs uart.defs kprint.defs console.defs virtio.defs logging.defs fs.defs ftable.defs
      timer.defs traps.defs run_as_def upd_cpu_def quiet_def cpu_ok_def lock_free_def intr_enabled_def cid_def SSTATUS_SIE_def)


theorem usertrapret_enters_user_mode_witness:
  "\<exists>t. usertrapret boot_traps = Ret (TRAMPOLINE + (userret_pc boot_traps - trampoline boot_traps), TRAPFRAME, MAKE_SATP demo_pt) t \<and>
     sstatus t (cid boot_traps) AND SSTATUS_SPP = 0"
  using usertrapret_enters_user_mode [OF boot_traps_simps(1,2) refl] by auto

end
