(* ===== verification/Ulib.thy ===== *)
theory Ulib
  imports Kstring
begin

text \<open>
  User programs and the library \<^verbatim>\<open>user/ulib.c\<close>, \<^verbatim>\<open>user/printf.c\<close> they are linked with. A program works on the
  memory of its process and talks to the kernel by system calls only. The state holds the calls made so far and the
  kernel as a function that answers a call from the calls before it; theorems quantify over it and state what they assume
  of it. A program that has called \<open>exit\<close> is blocked for ever, one whose call the kernel does not answer waits in the
  call.
\<close>

section \<open>System calls\<close>

datatype ucall =
    C_fork | C_exit int | C_wait | C_pipe | C_read int nat | C_kill int | C_exec "byte list" "byte list list"
  | C_fstat int | C_chdir "byte list" | C_dup int | C_getpid | C_sbrk int | C_sleep int
  | C_open "byte list" int | C_write int "byte list" | C_mknod "byte list" int int | C_unlink "byte list"
  | C_link "byte list" "byte list" | C_mkdir "byte list" | C_close int

record answer =
  a_ret :: int
  a_data :: "byte list"

record user =
  umem :: ram
  kern :: "ucall list \<Rightarrow> answer option"
  calls :: "ucall list"

definition sys :: "ucall \<Rightarrow> (answer, 'z user_scheme) kop" where
  "sys c s = (let h = calls s @ [c]; t = s\<lparr>calls := h\<rparr> in
     case kern s h of None \<Rightarrow> Block Ch_syscall t | Some a \<Rightarrow> Ret a t)"

definition sys_ret :: "ucall \<Rightarrow> (int, 'z user_scheme) kop" where
  "sys_ret c = bindK (sys c) (\<lambda>a. retK (a_ret a))"

definition exit_u :: "int \<Rightarrow> ('a, 'z user_scheme) kop" where
  "exit_u n = thenK (modK (\<lambda>s. s\<lparr>calls := calls s @ [C_exit n]\<rparr>)) (blockK Ch_never)"

text \<open>\<^verbatim>\<open>read(fd, p, n)\<close>: the kernel puts the bytes it delivers at \<open>p\<close>.\<close>

definition read_u :: "int \<Rightarrow> u64 \<Rightarrow> nat \<Rightarrow> (int, 'z user_scheme) kop" where
  "read_u fd p n = bindK (sys (C_read fd n)) (\<lambda>a. thenK (modK (\<lambda>s. s\<lparr>umem := put_bytes (umem s) p (a_data a)\<rparr>)) (retK (a_ret a)))"

text \<open>\<^verbatim>\<open>write(fd, p, n)\<close>: the kernel takes the bytes at \<open>p\<close>.\<close>

definition write_u :: "int \<Rightarrow> u64 \<Rightarrow> nat \<Rightarrow> (int, 'z user_scheme) kop" where
  "write_u fd p n = bindK (getK (\<lambda>s. get_bytes (umem s) p n)) (\<lambda>bs. sys_ret (C_write fd bs))"

definition putc :: "int \<Rightarrow> byte \<Rightarrow> (unit, 'z user_scheme) kop" where
  "putc fd c = thenK (sys_ret (C_write fd [c])) (retK ())"

section \<open>Strings and memory\<close>

partial_function (option) strcpy :: "ram \<Rightarrow> u64 \<Rightarrow> u64 \<Rightarrow> ram option" where
  "strcpy m s t = (let m' = m(s := m t) in if m t \<noteq> 0 then strcpy m' (s + 1) (t + 1) else Some m')"

partial_function (option) strcmp :: "ram \<Rightarrow> u64 \<Rightarrow> u64 \<Rightarrow> int option" where
  "strcmp m p q =
     (if m p \<noteq> 0 \<and> m p = m q then strcmp m (p + 1) (q + 1) else Some (uint (m p) - uint (m q)))"

definition strlen_u :: "ram \<Rightarrow> u64 \<Rightarrow> u32 option" where
  "strlen_u m s = strlen_loop m s 0"

definition memset_u :: "ram \<Rightarrow> u64 \<Rightarrow> u32 \<Rightarrow> u32 \<Rightarrow> ram" where
  "memset_u m dst c n = memset_loop m dst (ucast c) (unat n)"

text \<open>The null pointer that \<open>strchr\<close> returns for a character it does not find is \<open>None\<close>.\<close>

partial_function (option) strchr :: "ram \<Rightarrow> u64 \<Rightarrow> byte \<Rightarrow> u64 option option" where
  "strchr m s c = (if m s = 0 then Some None else if m s = c then Some (Some s) else strchr m (s + 1) c)"

text \<open>\<^verbatim>\<open>int n\<close>: the arithmetic is that of 32-bit words.\<close>

partial_function (option) atoi_loop :: "ram \<Rightarrow> u64 \<Rightarrow> u32 \<Rightarrow> u32 option" where
  "atoi_loop m s n = (if 48 \<le> m s \<and> m s \<le> 57 then atoi_loop m (s + 1) (n * 10 + ucast (m s) - 48) else Some n)"

definition atoi :: "ram \<Rightarrow> u64 \<Rightarrow> u32 option" where
  "atoi m s = atoi_loop m s 0"

definition memmove_u :: "ram \<Rightarrow> u64 \<Rightarrow> u64 \<Rightarrow> int \<Rightarrow> ram" where
  "memmove_u m dst src n =
     (if src > dst then copy_fwd m dst src (nat n)
      else copy_back m (dst + of_int n) (src + of_int n) (nat n))"

definition memcmp_u :: "ram \<Rightarrow> u64 \<Rightarrow> u64 \<Rightarrow> u32 \<Rightarrow> int" where
  "memcmp_u m s1 s2 n = memcmp_loop m s1 s2 (unat n)"

definition memcpy_u :: "ram \<Rightarrow> u64 \<Rightarrow> u64 \<Rightarrow> u32 \<Rightarrow> ram" where
  "memcpy_u m dst src n = memmove_u m dst src (sint n)"

text \<open>A string function that may run off its argument, inside a program.\<close>

definition stringK :: "(ram \<Rightarrow> 'a option) \<Rightarrow> ('a, 'z user_scheme) kop" where
  "stringK f = bindK (getK (\<lambda>s. f (umem s))) (\<lambda>r. case r of None \<Rightarrow> divergeK | Some x \<Rightarrow> retK x)"

text \<open>\<^verbatim>\<open>gets(buf, max)\<close>; the local \<^verbatim>\<open>char c\<close> is at \<open>c\<close>.\<close>

primrec gets_loop :: "nat \<Rightarrow> u64 \<Rightarrow> u64 \<Rightarrow> nat \<Rightarrow> (nat, 'z user_scheme) kop" where
  "gets_loop 0 c buf i = retK i"
| "gets_loop (Suc k) c buf i =
     bindK (read_u 0 c 1) (\<lambda>cc.
     if cc < 1 then retK i
     else bindK (getK (\<lambda>s. umem s c)) (\<lambda>x.
          thenK (modK (\<lambda>s. s\<lparr>umem := (umem s)(buf + of_nat i := x)\<rparr>)) (
          if x = 10 \<or> x = 13 then retK (i + 1) else gets_loop k c buf (i + 1))))"

definition gets :: "u64 \<Rightarrow> u64 \<Rightarrow> int \<Rightarrow> (unit, 'z user_scheme) kop" where
  "gets c buf mx =
     bindK (gets_loop (nat (mx - 1)) c buf 0) (\<lambda>i.
     modK (\<lambda>s. s\<lparr>umem := (umem s)(buf + of_nat i := 0)\<rparr>))"

text \<open>The C string at an address, as the kernel reads a path argument.\<close>

definition str_at :: "ram \<Rightarrow> u64 \<Rightarrow> byte list option" where
  "str_at m p = map_option (\<lambda>n. get_bytes m p (unat n)) (strlen_u m p)"

definition open_u :: "u64 \<Rightarrow> int \<Rightarrow> (int, 'z user_scheme) kop" where
  "open_u p mode = bindK (stringK (\<lambda>m. str_at m p)) (\<lambda>name. sys_ret (C_open name mode))"

definition fstat_u :: "int \<Rightarrow> u64 \<Rightarrow> (int, 'z user_scheme) kop" where
  "fstat_u fd st = bindK (sys (C_fstat fd)) (\<lambda>a. thenK (modK (\<lambda>s. s\<lparr>umem := put_bytes (umem s) st (a_data a)\<rparr>)) (retK (a_ret a)))"

definition stat_u :: "u64 \<Rightarrow> u64 \<Rightarrow> (int, 'z user_scheme) kop" where
  "stat_u n st =
     bindK (open_u n 0) (\<lambda>fd.
     if fd < 0 then retK (-1)
     else bindK (fstat_u fd st) (\<lambda>r.
          thenK (sys_ret (C_close fd)) (retK r)))"

section \<open>printf\<close>

text \<open>The arguments of a format: a 64-bit register, or a pointer to a string.\<close>

definition digits_u :: "byte list" where
  "digits_u = map of_char ''0123456789ABCDEF''"

text \<open>The digits of \<open>x\<close> from the lowest, as \<open>printint\<close> puts them into its buffer.\<close>

function rev_digits :: "u32 \<Rightarrow> u32 \<Rightarrow> byte list" where
  "rev_digits x base =
     digits_u ! unat (x mod base) #
     (if base \<le> 1 \<or> x div base = 0 then [] else rev_digits (x div base) base)"
  by pat_completeness auto
termination
  by (relation "measure (\<lambda>(x, base). unat x)") (auto simp: unat_div word_le_nat_alt word_unat_eq_iff intro!: div_less_dividend gr0I)

definition printint_u :: "int \<Rightarrow> u32 \<Rightarrow> u32 \<Rightarrow> bool \<Rightarrow> (unit, 'z user_scheme) kop" where
  "printint_u fd xx base sg =
     (let neg = sg \<and> sint xx < 0; x = (if neg then - xx else xx);
          buf = rev_digits x base @ (if neg then [45] else []) in
      eachK (putc fd) (rev buf))"

definition printptr_u :: "int \<Rightarrow> u64 \<Rightarrow> (unit, 'z user_scheme) kop" where
  "printptr_u fd x =
     thenK (putc fd 48) (
     thenK (putc fd 120)
           (eachK (\<lambda>i. putc fd (digits_u ! unat (drop_bit 60 (push_bit (4 * i) x)))) [0..<16]))"

definition puts_u :: "int \<Rightarrow> u64 \<Rightarrow> (unit, 'z user_scheme) kop" where
  "puts_u fd s =
     (if s = 0 then eachK (putc fd) (map of_char ''(null)'')
      else bindK (stringK (\<lambda>m. str_at m s)) (\<lambda>bs. eachK (putc fd) bs))"

text \<open>
  One round of \<open>vprintf\<close>: the next character of the format, whether a \<^verbatim>\<open>%\<close> has been seen and the arguments left. An
  argument that is missing is read from a register that holds anything; here it is 0.
\<close>

definition va_arg :: "u64 list \<Rightarrow> u64 \<times> u64 list" where
  "va_arg ap = (case ap of [] \<Rightarrow> (0, []) | x # xs \<Rightarrow> (x, xs))"

fun vprintf :: "int \<Rightarrow> byte list \<Rightarrow> bool \<Rightarrow> u64 list \<Rightarrow> (unit, 'z user_scheme) kop" where
  "vprintf fd [] state ap = retK ()"
| "vprintf fd (c # fmt) state ap =
     (if \<not> state then
        if c = 37 then vprintf fd fmt True ap
        else thenK (putc fd c) (vprintf fd fmt False ap)
      else
        let (x, rest) = va_arg ap in
        if c = 100 then thenK (printint_u fd (ucast x) 10 True) (vprintf fd fmt False rest)
        else if c = 108 then thenK (printint_u fd (ucast x) 10 False) (vprintf fd fmt False rest)
        else if c = 120 then thenK (printint_u fd (ucast x) 16 False) (vprintf fd fmt False rest)
        else if c = 112 then thenK (printptr_u fd x) (vprintf fd fmt False rest)
        else if c = 115 then thenK (puts_u fd x) (vprintf fd fmt False rest)
        else if c = 99 then thenK (putc fd (ucast x)) (vprintf fd fmt False rest)
        else if c = 37 then thenK (putc fd c) (vprintf fd fmt False ap)
        else thenK (putc fd 37) (thenK (putc fd c) (vprintf fd fmt False ap)))"

definition fprintf :: "int \<Rightarrow> string \<Rightarrow> u64 list \<Rightarrow> (unit, 'z user_scheme) kop" where
  "fprintf fd fmt ap = vprintf fd (map of_char fmt) False ap"

definition printf_u :: "string \<Rightarrow> u64 list \<Rightarrow> (unit, 'z user_scheme) kop" where
  "printf_u fmt ap = vprintf 1 (map of_char fmt) False ap"

section \<open>Strings as lists\<close>

lemma user_order [simp]: "s\<lparr>calls := h, umem := m\<rparr> = s\<lparr>umem := m, calls := h\<rparr>"
  by simp

lemma scast_of_nat_u32: "i < 2 ^ 31 \<Longrightarrow> (scast (of_nat i :: u32) :: u64) = of_nat i"
proof -
  assume i: "i < 2 ^ 31"
  have "sint (of_nat i :: u32) = int i"
    using i by (simp add: sint_uint unsigned_of_nat take_bit_nat_eq_self signed_take_bit_int_eq_self)
  then show ?thesis by (simp add: scast_eq)
qed

primrec cstr :: "ram \<Rightarrow> u64 \<Rightarrow> byte list \<Rightarrow> bool" where
  "cstr m a [] \<longleftrightarrow> m a = 0"
| "cstr m a (x # xs) \<longleftrightarrow> m a = x \<and> x \<noteq> 0 \<and> cstr m (a + 1) xs"

lemma cstr_append: "cstr m a (xs @ ys) \<longleftrightarrow> get_bytes m a (length xs) = xs \<and> 0 \<notin> set xs \<and> cstr m (a + of_nat (length xs)) ys"
  by (induction xs arbitrary: a) (auto simp: algebra_simps)

lemma cstr_bytes: "cstr m a xs \<longleftrightarrow> get_bytes m a (length xs) = xs \<and> 0 \<notin> set xs \<and> m (a + of_nat (length xs)) = 0"
  using cstr_append [of m a xs "[]"] by simp

lemma cstr_cong: "(\<And>b. in_region a (Suc (length xs)) b \<Longrightarrow> m' b = m b) \<Longrightarrow> cstr m a xs \<Longrightarrow> cstr m' a xs"
proof (induction xs arbitrary: a)
  case (Cons x xs)
  have "cstr m' (a + 1) xs"
  proof (rule Cons.IH)
    show "m' b = m b" if "in_region (a + 1) (Suc (length xs)) b" for b
      using Cons.prems(1) [of b] that by (simp only: in_region_Suc [of a] length_Cons simp_thms)
    show "cstr m (a + 1) xs" using Cons.prems(2) by simp
  qed
  moreover have "m' a = m a" using Cons.prems(1) [of a] by (simp add: in_region_Suc [of a])
  ultimately show ?case using Cons.prems(2) by simp
qed (simp add: in_region_Suc)

lemma stringK_Ret: "f (umem s) = Some x \<Longrightarrow> stringK f s = Ret x s"
  by (simp add: stringK_def)

lemma strlen_loop_cstr:
  "cstr m (s + of_nat i) xs \<Longrightarrow> i + length xs < 2 ^ 31 \<Longrightarrow> strlen_loop m s (of_nat i) = Some (of_nat (i + length xs))"
proof (induction xs arbitrary: i)
  case Nil
  have "(scast (of_nat i :: u32) :: u64) = of_nat i" using Nil.prems(2) by (simp add: scast_of_nat_u32)
  then show ?case using Nil.prems(1) by (subst strlen_loop.simps) simp
next
  case (Cons x xs)
  have "(scast (of_nat i :: u32) :: u64) = of_nat i" using Cons.prems(2) by (simp add: scast_of_nat_u32)
  moreover have "strlen_loop m s (of_nat (Suc i)) = Some (of_nat (Suc i + length xs))"
    using Cons.prems by (intro Cons.IH) (simp_all add: algebra_simps)
  ultimately show ?case using Cons.prems(1) by (subst strlen_loop.simps) (simp add: algebra_simps)
qed

lemma str_at_cstr: "cstr m a xs \<Longrightarrow> length xs < 2 ^ 31 \<Longrightarrow> str_at m a = Some xs"
  using strlen_loop_cstr [of m a 0 xs] by (simp add: str_at_def strlen_u_def cstr_bytes unsigned_of_nat take_bit_nat_eq_self)

lemma strchr_cstr:
  "cstr m a xs \<Longrightarrow> c \<noteq> 0 \<Longrightarrow>
   strchr m a c = Some (if c \<in> set xs then Some (a + of_nat (length (takeWhile (\<lambda>x. x \<noteq> c) xs))) else None)"
  by (induction xs arbitrary: a) (subst strchr.simps, auto simp: algebra_simps)+

lemma memmove_u_eq:
  assumes n: "0 \<le> n" "n < 2 ^ 31" and d: "unat dst + nat n < 2 ^ 64" and s: "unat src + nat n < 2 ^ 64"
  shows "memmove_u m dst src n = (\<lambda>a. if in_region dst (nat n) a then m (src + (a - dst)) else m a)"
proof (cases "src > dst")
  case True
  then have "\<not> (src < dst \<and> unat dst < unat src + nat n)" by (auto dest: less_asym)
  then have "nat n \<le> unat (dst - src) \<or> dst = src" using d s by (intro distance_ge) simp_all
  moreover have "nat n < 2 ^ 64" using d by simp
  ultimately show ?thesis using True by (simp add: memmove_u_def copy_fwd_eq)
next
  case False
  have n64: "nat n < 2 ^ 64" using d by simp
  have e: "(of_int n :: u64) = of_nat (nat n)" using n by simp
  have "\<not> (dst < src \<and> unat src < unat dst + nat n)" using False by simp
  then have "nat n \<le> unat (src - dst) \<or> dst = src" using distance_ge [of dst "nat n" src] d s by auto
  then have b: "copy_back m (dst + of_int n) (src + of_int n) (nat n) =
      (\<lambda>a. if unat (dst + of_int n - 1 - a) < nat n then m (src + of_int n - (dst + of_int n - a)) else m a)"
    using n64 by (intro copy_back_eq) simp_all
  show ?thesis
  proof (cases "nat n = 0")
    case True
    then show ?thesis using False by (simp add: memmove_u_def)
  next
    case nz: False
    then have r: "unat (dst + of_int n - 1 - a) < nat n \<longleftrightarrow> in_region dst (nat n) a" for a
      unfolding e using region_from_end [of "nat n" dst a] n64 by simp
    have "src + of_int n - (dst + of_int n - a) = src + (a - dst)" for a by simp
    then show ?thesis using False by (simp only: memmove_u_def b r if_False)
  qed
qed

end
