(* ===== verification/Grep.thy ===== *)
theory Grep
  imports Ulib
begin

text \<open>
  \<^verbatim>\<open>user/grep.c\<close>: the pattern matcher on the contents of its strings, and the loop that cuts the input into lines in a
  buffer of 1024 bytes. The lemmas compare the matcher with the language a pattern denotes, and show which lines are
  printed however the kernel cuts the input into reads.
\<close>

section \<open>The matcher\<close>

function (sequential) matchhere :: "byte list \<Rightarrow> byte list \<Rightarrow> bool"
  and matchstar :: "byte \<Rightarrow> byte list \<Rightarrow> byte list \<Rightarrow> bool"
where
  "matchhere [] str = True"
| "matchhere (r # re) str =
     (if re \<noteq> [] \<and> hd re = 42 then matchstar r (tl re) str
      else if r = 36 \<and> re = [] then str = []
      else if str \<noteq> [] \<and> (r = 46 \<or> r = hd str) then matchhere re (tl str)
      else False)"
| "matchstar c re str =
     (if matchhere re str then True
      else if str \<noteq> [] \<and> (hd str = c \<or> c = 46) then matchstar c re (tl str)
      else False)"
  by pat_completeness auto
termination
  by (relation "measures [\<lambda>x. case x of Inl (re, str) \<Rightarrow> length re | Inr (c, re, str) \<Rightarrow> length re,
                          \<lambda>x. case x of Inl _ \<Rightarrow> 0 | Inr (c, re, str) \<Rightarrow> Suc (length str)]") auto

text \<open>The loop of \<open>match\<close> over the positions of the str, the end included.\<close>

fun match_from :: "byte list \<Rightarrow> byte list \<Rightarrow> bool" where
  "match_from re [] = matchhere re []"
| "match_from re (x # str) = (if matchhere re (x # str) then True else match_from re str)"

definition match :: "byte list \<Rightarrow> byte list \<Rightarrow> bool" where
  "match re str = (if re \<noteq> [] \<and> hd re = 94 then matchhere (tl re) str else match_from re str)"

section \<open>The program\<close>

text \<open>The inner loop over the lines in the buffer; \<open>p\<close> is where the next line starts.\<close>

primrec grep_lines :: "nat \<Rightarrow> byte list \<Rightarrow> u64 \<Rightarrow> (u64, 'z user_scheme) kop" where
  "grep_lines 0 pattern p = divergeK"
| "grep_lines (Suc k) pattern p =
     bindK (stringK (\<lambda>m. strchr m p 10)) (\<lambda>r.
     case r of
       None \<Rightarrow> retK p
     | Some q \<Rightarrow>
         thenK (modK (\<lambda>s. s\<lparr>umem := (umem s)(q := 0)\<rparr>)) (
         bindK (stringK (\<lambda>m. str_at m p)) (\<lambda>str.
         thenK (whenK (match pattern str)
                  (thenK (modK (\<lambda>s. s\<lparr>umem := (umem s)(q := 10)\<rparr>)) (
                   thenK (write_u 1 p (unat (q + 1 - p)))
                         (retK ()))))
               (grep_lines k pattern (q + 1)))))"

text \<open>The outer loop, with \<open>m\<close> bytes left in \<^verbatim>\<open>buf\<close> from the last round.\<close>

primrec grep :: "nat \<Rightarrow> u64 \<Rightarrow> byte list \<Rightarrow> int \<Rightarrow> int \<Rightarrow> (unit, 'z user_scheme) kop" where
  "grep 0 buf pattern fd m = divergeK"
| "grep (Suc k) buf pattern fd m =
     bindK (read_u fd (buf + of_int m) (nat (1024 - m - 1))) (\<lambda>n.
     if n > 0 then
       let m1 = m + n in
       thenK (modK (\<lambda>s. s\<lparr>umem := (umem s)(buf + of_int m1 := 0)\<rparr>)) (
       bindK (grep_lines 1025 pattern buf) (\<lambda>p.
       if m1 > 0 then
         let m2 = m1 - uint (p - buf) in
         thenK (modK (\<lambda>s. s\<lparr>umem := memmove_u (umem s) buf p m2\<rparr>))
               (grep k buf pattern fd m2)
       else grep k buf pattern fd m1))
     else retK ())"

text \<open>\<open>main\<close>, with the pointers of \<^verbatim>\<open>argv\<close> as a list.\<close>

definition grep_main :: "nat \<Rightarrow> u64 \<Rightarrow> u64 list \<Rightarrow> (unit, 'z user_scheme) kop" where
  "grep_main k buf argv =
     (if length argv \<le> 1 then thenK (fprintf 2 ''usage: grep pattern [file ...]\<newline>'' []) (exit_u 1)
      else bindK (stringK (\<lambda>m. str_at m (argv ! 1))) (\<lambda>pattern.
           if length argv \<le> 2 then thenK (grep k buf pattern 0 0) (exit_u 0)
           else thenK (eachK (\<lambda>i.
                  bindK (open_u (argv ! i) 0) (\<lambda>fd.
                  if fd < 0 then thenK (printf_u ''grep: cannot open %s\<newline>'' [argv ! i]) (exit_u 1)
                  else thenK (grep k buf pattern fd 0) (
                       thenK (sys_ret (C_close fd))
                             (retK ())))) [2..<length argv])
                (exit_u 0)))"

section \<open>The language of a pattern\<close>

text \<open>A pattern is a sequence of characters, each one or starred, with an end anchor or not.\<close>

datatype item = One byte | Many byte

fun items :: "byte list \<Rightarrow> item list" where
  "items [] = []"
| "items [c] = (if c = 36 then [] else [One c])"
| "items (c # d # re) = (if d = 42 then Many c # items re else One c # items (d # re))"

fun anchored :: "byte list \<Rightarrow> bool" where
  "anchored [] = False"
| "anchored [c] = (c = 36)"
| "anchored (c # d # re) = (if d = 42 then anchored re else anchored (d # re))"

definition stands_for :: "byte \<Rightarrow> byte \<Rightarrow> bool" where
  "stands_for c x \<longleftrightarrow> c = 46 \<or> c = x"

fun language :: "item list \<Rightarrow> byte list set" where
  "language [] = {[]}"
| "language (One c # is) = {x # u | x u. stands_for c x \<and> u \<in> language is}"
| "language (Many c # is) = {v @ u | v u. (\<forall>x \<in> set v. stands_for c x) \<and> u \<in> language is}"

definition matches_at :: "byte list \<Rightarrow> byte list \<Rightarrow> bool" where
  "matches_at re str \<longleftrightarrow> (\<exists>u v. str = u @ v \<and> u \<in> language (items re) \<and> (anchored re \<longrightarrow> v = []))"

lemma matches_at_Many:
  "matches_at (c # 42 # re) str \<longleftrightarrow> (\<exists>v w. str = v @ w \<and> (\<forall>x \<in> set v. stands_for c x) \<and> matches_at re w)"
proof
  assume "matches_at (c # 42 # re) str"
  then obtain p w where "str = p @ w" "p \<in> language (items (c # 42 # re))" "anchored re \<longrightarrow> w = []"
    unfolding matches_at_def by auto
  moreover from this obtain v u where "p = v @ u" "\<forall>x \<in> set v. stands_for c x" "u \<in> language (items re)" by auto
  ultimately have "str = v @ u @ w" "\<forall>x \<in> set v. stands_for c x" "u \<in> language (items re)" "anchored re \<longrightarrow> w = []" by simp_all
  then show "\<exists>v w. str = v @ w \<and> (\<forall>x \<in> set v. stands_for c x) \<and> matches_at re w" unfolding matches_at_def by blast
next
  assume "\<exists>v w. str = v @ w \<and> (\<forall>x \<in> set v. stands_for c x) \<and> matches_at re w"
  then obtain v u w where "str = v @ u @ w" "\<forall>x \<in> set v. stands_for c x" "u \<in> language (items re)" "anchored re \<longrightarrow> w = []"
    unfolding matches_at_def by blast
  then show "matches_at (c # 42 # re) str" unfolding matches_at_def by (intro exI [of _ "v @ u"] exI [of _ w]) auto
qed

lemma matches_at_star:
  "matches_at (c # 42 # re) str \<longleftrightarrow>
     matches_at re str \<or> (\<exists>x xs. str = x # xs \<and> stands_for c x \<and> matches_at (c # 42 # re) xs)"
  unfolding matches_at_Many
proof (intro iffI; (elim exE conjE disjE)?)
  fix v w assume *: "str = v @ w" "\<forall>x \<in> set v. stands_for c x" "matches_at re w"
  show "matches_at re str \<or> (\<exists>x xs. str = x # xs \<and> stands_for c x \<and>
      (\<exists>v w. xs = v @ w \<and> (\<forall>x \<in> set v. stands_for c x) \<and> matches_at re w))"
    using * by (cases v) auto
next
  assume "matches_at re str"
  then show "\<exists>v w. str = v @ w \<and> (\<forall>x \<in> set v. stands_for c x) \<and> matches_at re w" by (intro exI [of _ "[]"] exI [of _ str]) simp
next
  fix x xs v w assume "str = x # xs" "stands_for c x" "xs = v @ w" "\<forall>x \<in> set v. stands_for c x" "matches_at re w"
  then show "\<exists>v w. str = v @ w \<and> (\<forall>x \<in> set v. stands_for c x) \<and> matches_at re w"
    by (intro exI [of _ "x # v"] exI [of _ w]) simp
qed

lemma matches_at_One:
  assumes "re = [] \<or> hd re \<noteq> 42" and "\<not> (c = 36 \<and> re = [])"
  shows "matches_at (c # re) str \<longleftrightarrow> (\<exists>x xs. str = x # xs \<and> stands_for c x \<and> matches_at re xs)"
proof -
  have i: "items (c # re) = One c # items re" "anchored (c # re) = anchored re" using assms by (cases re; auto)+
  then show ?thesis
  proof (intro iffI; (elim exE conjE)?)
    assume "matches_at (c # re) str"
    then obtain p w where "str = p @ w" "p \<in> language (One c # items re)" "anchored re \<longrightarrow> w = []"
      unfolding matches_at_def i by auto
    moreover from this obtain x u where "p = x # u" "stands_for c x" "u \<in> language (items re)" by auto
    ultimately have "str = x # u @ w" "stands_for c x" "u \<in> language (items re)" "anchored re \<longrightarrow> w = []" by simp_all
    then show "\<exists>x xs. str = x # xs \<and> stands_for c x \<and> matches_at re xs" unfolding matches_at_def by blast
  next
    fix x xs assume "str = x # xs" "stands_for c x" "matches_at re xs"
    then obtain u w where "str = x # u @ w" "stands_for c x" "u \<in> language (items re)" "anchored re \<longrightarrow> w = []"
      unfolding matches_at_def by blast
    then show "matches_at (c # re) str" unfolding matches_at_def i by (intro exI [of _ "x # u"] exI [of _ w]) auto
  qed
qed

lemma matchhere_language:
  "matchhere re str \<longleftrightarrow> matches_at re str" and "matchstar c re str \<longleftrightarrow> matches_at (c # 42 # re) str"
proof (induction re str and c re str rule: matchhere_matchstar.induct)
  case (1 str)
  then show ?case by (simp add: matches_at_def)
next
  case (2 r re str)
  consider (star) "re \<noteq> []" "hd re = 42" | (dollar) "r = 36" "re = []" | (one) "re = [] \<or> hd re \<noteq> 42" "\<not> (r = 36 \<and> re = [])" by blast
  then show ?case
  proof cases
    case star
    then obtain re' where "re = 42 # re'" by (cases re) auto
    then show ?thesis using 2 by simp
  next
    case dollar
    then show ?thesis by (auto simp: matches_at_def)
  next
    case one
    then show ?thesis using 2 matches_at_One [OF one, of str] by (cases str) (auto simp: stands_for_def)
  qed
next
  case (3 c re str)
  then show ?case using matches_at_star [of c re str] by (cases str) (auto simp: stands_for_def)
qed

lemma match_from_language: "match_from re str \<longleftrightarrow> (\<exists>u v. str = u @ v \<and> matches_at re v)"
proof (induction str)
  case Nil
  then show ?case by (simp add: matchhere_language)
next
  case (Cons x str)
  have "(\<exists>u v. x # str = u @ v \<and> matches_at re v) \<longleftrightarrow> matches_at re (x # str) \<or> (\<exists>u v. str = u @ v \<and> matches_at re v)"
    by (auto simp: Cons_eq_append_conv)
  then show ?case using Cons by (simp add: matchhere_language)
qed

text \<open>
  C34: \<open>match\<close> decides whether the pattern occurs in the str: the items of the pattern, a character or \<^verbatim>\<open>.\<close> and its
  starred form, cover a part of the str that starts anywhere, at the start of the str after \<^verbatim>\<open>^\<close>, and ends anywhere,
  at the end of the str before a final \<^verbatim>\<open>$\<close>.
\<close>

theorem match_finds_language:
  "match re str \<longleftrightarrow> (\<exists>pre u post. str = pre @ u @ post \<and>
     (if re \<noteq> [] \<and> hd re = 94 then pre = [] \<and> u \<in> language (items (tl re)) \<and> (anchored (tl re) \<longrightarrow> post = [])
      else u \<in> language (items re) \<and> (anchored re \<longrightarrow> post = [])))"
  by (auto simp: match_def match_from_language matchhere_language matches_at_def)


theorem match_finds_language_witness:
  "match [97, 42, 36] [98, 97] \<and> (\<exists>pre u. [98, 97] = pre @ u \<and> u \<in> language (items [97, 42, 36]))"
proof -
  have m: "match [97, 42, 36] [98, 97]" by (simp add: match_def)
  then obtain pre u post where "[98, 97] = pre @ u @ post" "u \<in> language (items [97, 42, 36])" "post = []"
    using match_finds_language [of "[97, 42, 36]" "[98, 97]"] by auto
  then show ?thesis using m by (simp del: items.simps language.simps) blast
qed

section \<open>Which lines are printed\<close>

text \<open>The lines that end in a newline, and what follows the last newline; \<open>l\<close> is the start of the current line.\<close>

fun cutl :: "byte list \<Rightarrow> byte list \<Rightarrow> byte list list \<times> byte list" where
  "cutl l [] = ([], l)"
| "cutl l (c # cs) = (if c = 10 then (l # fst (cutl [] cs), snd (cutl [] cs)) else cutl (l @ [c]) cs)"

lemma cut_append: "cutl l (xs @ ys) = (fst (cutl l xs) @ fst (cutl (snd (cutl l xs)) ys), snd (cutl (snd (cutl l xs)) ys))"
  by (induction l xs rule: cutl.induct) auto

lemma cut_plain: "10 \<notin> set xs \<Longrightarrow> cutl l xs = ([], l @ xs)"
  by (induction l xs rule: cutl.induct) auto

lemma cut_line: "10 \<notin> set l \<Longrightarrow> cutl [] (l @ 10 # ys) = (l # fst (cutl [] ys), snd (cutl [] ys))"
  by (simp add: cut_append cut_plain)

lemma cut_rest: "10 \<notin> set l \<Longrightarrow> 10 \<notin> set (snd (cutl l xs))"
  by (induction l xs rule: cutl.induct) auto

lemma cut_suffix: "\<exists>zs. l @ xs = zs @ snd (cutl l xs)"
proof (induction l xs rule: cutl.induct)
  case (2 l c cs)
  then show ?case
  proof (cases "c = 10")
    case True
    then obtain zs where "cs = zs @ snd (cutl [] cs)" using 2(1) by auto
    then have "l @ c # cs = (l @ c # zs) @ snd (cutl l (c # cs))" using True by (simp del: append_assoc) (metis append_Cons append_assoc)
    then show ?thesis by blast
  next
    case False
    then show ?thesis using 2(3) by simp
  qed
qed simp

definition answers_writes :: "(ucall list \<Rightarrow> answer option) \<Rightarrow> bool" where
  "answers_writes K \<longleftrightarrow> (\<forall>h fd bs. \<exists>a. K (h @ [C_write fd bs]) = Some a)"

definition printed :: "byte list \<Rightarrow> byte list list \<Rightarrow> ucall list" where
  "printed re ls = map (\<lambda>l. C_write 1 (l @ [10])) (filter (match re) ls)"

lemma first_newline:
  "10 \<in> set xs \<Longrightarrow> \<exists>l ys. xs = l @ (10 :: byte) # ys \<and> 10 \<notin> set l \<and> takeWhile (\<lambda>x. x \<noteq> 10) xs = l"
proof -
  assume "10 \<in> set xs"
  then obtain l ys where "xs = l @ 10 # ys" "10 \<notin> set l" using split_list_first by metis
  moreover from this have "takeWhile (\<lambda>x. x \<noteq> 10) xs = l" by (subst \<open>xs = _\<close>, subst takeWhile_append2) auto
  ultimately show ?thesis by blast
qed

lemma get_bytes_snoc: "get_bytes m p (Suc n) = get_bytes m p n @ [m (p + of_nat n)]"
proof (induction n arbitrary: p)
  case (Suc n)
  show ?case unfolding get_bytes.simps(2) [of m p "Suc n"] Suc.IH [of "p + 1"] by (simp add: algebra_simps)
qed simp

lemma in_region_sub: "in_region (p + of_nat i) n a \<Longrightarrow> i + n < 2 ^ 64 \<Longrightarrow> in_region p (i + n) (a :: u64)"
proof -
  assume r: "in_region (p + of_nat i) n a" and n: "i + n < 2 ^ 64"
  have "unat (of_nat i :: u64) = i" using n by (intro unat_of_nat_u64) simp
  moreover have "a - p = (a - (p + of_nat i)) + of_nat i" by simp
  ultimately have "unat (a - p) = unat (a - (p + of_nat i)) + i"
    using r n unat_add_no_wrap [of "a - (p + of_nat i)" "of_nat i"] by (simp add: in_region_def)
  then show ?thesis using r by (simp add: in_region_def)
qed

lemma grep_lines_ok:
  assumes "cstr (umem s) p xs" and "length xs < k" and "length xs < 2 ^ 31" and "answers_writes (kern s)"
  shows "\<exists>t. grep_lines k re p s = Ret (p + of_nat (length xs - length (snd (cutl [] xs)))) t \<and> kern t = kern s \<and>
    calls t = calls s @ printed re (fst (cutl [] xs)) \<and> cstr (umem t) (p + of_nat (length xs - length (snd (cutl [] xs)))) (snd (cutl [] xs)) \<and>
    (\<forall>a. \<not> in_region p (length xs) a \<longrightarrow> umem t a = umem s a)"
  using assms
proof (induction k arbitrary: xs p s)
  case (Suc k)
  show ?case
  proof (cases "10 \<in> set xs")
    case False
    then show ?thesis using Suc.prems strchr_cstr [OF Suc.prems(1), of 10] by (simp add: cut_plain stringK_def printed_def)
  next
    case True
    then obtain l ys where xs: "xs = l @ 10 # ys" "10 \<notin> set l" "takeWhile (\<lambda>x. x \<noteq> 10) xs = l" using first_newline by blast
    let ?q = "p + of_nat (length l)"
    have q: "strchr (umem s) p 10 = Some (Some ?q)" using strchr_cstr [OF Suc.prems(1), of 10] True xs(3) by simp
    have len: "length l + Suc (length ys) < 2 ^ 31" "length ys < k" using Suc.prems(2,3) by (simp_all add: xs(1))
    have c: "get_bytes (umem s) p (length l) = l" "0 \<notin> set l" "umem s ?q = 10" "cstr (umem s) (?q + 1) ys"
      using Suc.prems(1) by (auto simp: xs(1) cstr_append)
    have ul: "unat (of_nat (length l) :: u64) = length l" using len by (intro unat_of_nat_u64) simp
    have nq: "\<not> in_region p (length l) ?q" by (simp add: in_region_def ul)
    have gl: "get_bytes ((umem s)(?q := x)) p (length l) = l" for x
    proof -
      have "get_bytes ((umem s)(?q := x)) p (length l) = get_bytes (umem s) p (length l)"
        using nq len by (intro get_bytes_cong) auto
      then show ?thesis using c(1) by simp
    qed
    have "cstr ((umem s)(?q := 0)) p l" using gl c(2) by (simp add: cstr_bytes)
    then have st: "str_at ((umem s)(?q := 0)) p = Some l" using len by (intro str_at_cstr) auto
    have u1: "unat (?q + 1 - p) = Suc (length l)"
    proof -
      have "?q + 1 - p = of_nat (Suc (length l))" by simp
      moreover have "Suc (length l) < 2 ^ 64" using len by simp
      ultimately show ?thesis using unat_of_nat_u64 [of "Suc (length l)"] by (simp only:)
    qed
    have gw: "get_bytes ((umem s)(?q := 10)) p (Suc (length l)) = l @ [10]"
      using gl [of 10] get_bytes_snoc [of "(umem s)(?q := 10)" p "length l"] by simp
    define s2 where "s2 = s\<lparr>umem := (umem s)(?q := (if match re l then 10 else 0)), calls := calls s @ printed re [l]\<rparr>"
    have run: "grep_lines (Suc k) re p s = grep_lines k re (?q + 1) s2"
    proof (cases "match re l")
      case True
      obtain a where "kern s (calls s @ [C_write 1 (l @ [10])]) = Some a" using Suc.prems(4) unfolding answers_writes_def by blast
      then show ?thesis using q st True u1 gw
        by (simp add: stringK_Ret write_u_def sys_ret_def sys_def bindK_def thenK_def modK_def getK_def retK_def whenK_def s2_def printed_def Let_def)
    next
      case False
      then show ?thesis using q st by (simp add: stringK_Ret s2_def printed_def whenK_def)
    qed
    have c2: "cstr (umem s2) (?q + 1) ys"
    proof (rule cstr_cong [OF _ c(4)])
      fix b assume "in_region (?q + 1) (Suc (length ys)) b"
      then have "b \<noteq> ?q" using in_region_self_next [of "Suc (length ys)" ?q] len by auto
      then show "umem s2 b = umem s b" by (simp add: s2_def)
    qed
    let ?r = "snd (cutl [] ys)"
    obtain t where t: "grep_lines k re (?q + 1) s2 = Ret (?q + 1 + of_nat (length ys - length ?r)) t" "kern t = kern s2"
        "calls t = calls s2 @ printed re (fst (cutl [] ys))" "cstr (umem t) (?q + 1 + of_nat (length ys - length ?r)) ?r"
        "\<forall>a. \<not> in_region (?q + 1) (length ys) a \<longrightarrow> umem t a = umem s2 a"
      using Suc.IH [OF c2 len(2)] len Suc.prems(4) by (auto simp: s2_def)
    obtain zs where "ys = zs @ ?r" using cut_suffix [of "[]" ys] by auto
    then have "length ?r \<le> length ys" by (metis length_append le_add2)
    then have p: "?q + 1 + of_nat (length ys - length ?r) = p + of_nat (length xs - length ?r)" by (simp add: xs(1) of_nat_diff)
    have fr: "umem t a = umem s a" if "\<not> in_region p (length xs) a" for a
    proof -
      have "a \<noteq> ?q" using that by (auto simp: in_region_def ul xs(1))
      moreover have "\<not> in_region (?q + 1) (length ys) a" using that in_region_sub [of p "Suc (length l)" "length ys" a] len by (auto simp: xs(1) ac_simps)
      ultimately show ?thesis using t(5) by (simp add: s2_def)
    qed
    have cx: "cutl [] xs = (l # fst (cutl [] ys), ?r)" using cut_line [OF xs(2), of ys] by (simp add: xs(1))
    have "calls t = calls s @ printed re (fst (cutl [] xs))" using t(3) by (simp add: cx s2_def printed_def)
    then show ?thesis using run t p fr by (intro exI [of _ t]) (simp add: cx s2_def)
  qed
qed simp


text \<open>
  A kernel that delivers the bytes \<open>inp\<close> to the reads of \<open>fd\<close>: the \<open>i\<close>-th read gets at least one byte and at most \<open>sz i\<close>
  + 1, the number asked for and what is left of the input.
\<close>

definition feed :: "int \<Rightarrow> byte list \<Rightarrow> (nat \<Rightarrow> nat) \<Rightarrow> nat \<times> nat \<Rightarrow> ucall \<Rightarrow> nat \<times> nat" where
  "feed fd inp sz st c = (case c of
       C_read fd' n \<Rightarrow> (if fd' = fd then (Suc (fst st), snd st + min (min n (Suc (sz (fst st)))) (length inp - snd st)) else st)
     | _ \<Rightarrow> st)"

definition fed :: "int \<Rightarrow> byte list \<Rightarrow> (nat \<Rightarrow> nat) \<Rightarrow> ucall list \<Rightarrow> nat \<times> nat" where
  "fed fd inp sz h = foldl (feed fd inp sz) (0, 0) h"

definition input_stream :: "int \<Rightarrow> byte list \<Rightarrow> (nat \<Rightarrow> nat) \<Rightarrow> (ucall list \<Rightarrow> answer option) \<Rightarrow> bool" where
  "input_stream fd inp sz K \<longleftrightarrow> (\<forall>h n. K (h @ [C_read fd n]) =
     (let st = fed fd inp sz h; k = min (min n (Suc (sz (fst st)))) (length inp - snd st) in
      Some \<lparr>a_ret = int k, a_data = take k (drop (snd st) inp)\<rparr>))"

text \<open>What a program has written to its standard output.\<close>

definition out1 :: "ucall \<Rightarrow> byte list" where
  "out1 c = (case c of C_write fd bs \<Rightarrow> (if fd = 1 then bs else []) | _ \<Rightarrow> [])"

definition stdout :: "ucall list \<Rightarrow> byte list" where
  "stdout h = concat (map out1 h)"

lemma stdout_append [simp]: "stdout (g @ h) = stdout g @ stdout h" "stdout (C_read fd n # h) = stdout h" "stdout [] = []"
  by (simp_all add: stdout_def out1_def)

lemma fed_append: "fed fd inp sz (h @ [C_read fd n]) =
    (Suc (fst (fed fd inp sz h)), snd (fed fd inp sz h) + min (min n (Suc (sz (fst (fed fd inp sz h))))) (length inp - snd (fed fd inp sz h)))"
  by (simp add: fed_def feed_def)

lemma fed_printed [simp]: "fed fd inp sz (h @ printed re ls) = fed fd inp sz h"
  by (induction ls rule: rev_induct) (auto simp: printed_def fed_def feed_def)

lemma stdout_printed: "stdout (printed re ls) = concat (map (\<lambda>l. l @ [10]) (filter (match re) ls))"
  by (induction ls) (auto simp: printed_def stdout_def out1_def)

definition short_lines :: "byte list \<Rightarrow> bool" where
  "short_lines inp \<longleftrightarrow> (\<forall>l \<in> set (fst (cutl [] inp) @ [snd (cutl [] inp)]). length l \<le> 1022)"

lemma cut_first: "\<exists>z. hd (fst (cutl l ys) @ [snd (cutl l ys)]) = l @ z"
  by (induction l ys rule: cutl.induct) auto

lemma short_prefix: "short_lines (xs @ ys) \<Longrightarrow> length (snd (cutl [] xs)) \<le> 1022"
proof -
  assume s: "short_lines (xs @ ys)"
  let ?r = "snd (cutl [] xs)"
  have "hd (fst (cutl ?r ys) @ [snd (cutl ?r ys)]) \<in> set (fst (cutl ?r ys) @ [snd (cutl ?r ys)])" by (intro hd_in_set) simp
  then have "length (hd (fst (cutl ?r ys) @ [snd (cutl ?r ys)])) \<le> 1022"
    using s unfolding short_lines_def cut_append [of "[]" xs ys] by auto
  then show ?thesis using cut_first [of ?r ys] by auto
qed

lemma get_bytes_append: "get_bytes m a (i + j) = get_bytes m a i @ get_bytes m (a + of_nat i) j"
  by (induction i arbitrary: a) (simp_all add: algebra_simps)

lemma grep_round:
  assumes r: "get_bytes (umem s) buf (length r) = r" "0 \<notin> set (r @ d)" "10 \<notin> set r"
    and len: "length r + length d \<le> 1023" "d \<noteq> []" "unat buf < 2 ^ 63" and w: "answers_writes (kern s)"
    and rd: "read_u fd (buf + of_int (int (length r))) (nat (1024 - int (length r) - 1)) s =
      Ret (int (length d)) (s\<lparr>umem := put_bytes (umem s) (buf + of_nat (length r)) d, calls := h\<rparr>)"
  shows "\<exists>t. grep (Suc k) buf re fd (int (length r)) s = grep k buf re fd (int (length (snd (cutl r d)))) t \<and> kern t = kern s \<and>
    calls t = h @ printed re (fst (cutl r d)) \<and> get_bytes (umem t) buf (length (snd (cutl r d))) = snd (cutl r d)"
proof -
  define xs where "xs = r @ d"
  define m1 where "m1 = put_bytes (umem s) (buf + of_nat (length r)) d"
  have lx: "length xs = length r + length d" by (simp add: xs_def)
  let ?e = "buf + of_int (int (length r) + int (length d))"
  have e: "?e = buf + of_nat (length xs)" by (simp add: lx)
  let ?s2 = "s\<lparr>umem := m1(buf + of_nat (length xs) := 0), calls := h\<rparr>"
  have c: "cstr (umem ?s2) buf xs"
  proof -
    have ux: "unat (of_nat (length xs) :: u64) = length xs" using len lx by (intro unat_of_nat_u64) simp
    have ur: "unat (of_nat (length r) :: u64) = length r" using len by (intro unat_of_nat_u64) simp
    have "get_bytes m1 buf (length r) = get_bytes (umem s) buf (length r)"
    proof (rule get_bytes_cong)
      fix a assume "in_region buf (length r) a"
      then have a: "unat (a - buf) < length r" by (simp add: in_region_def)
      have e2: "a - (buf + of_nat (length r)) = (a - buf) - of_nat (length r)" by simp
      have "unat (a - (buf + of_nat (length r))) = 2 ^ 64 - (length r - unat (a - buf))"
        unfolding e2 using unat_diff_wrap [of "a - buf" "of_nat (length r)"] a ur by simp
      then have "\<not> in_region (buf + of_nat (length r)) (length d) a" using a len by (simp add: in_region_def)
      then show "m1 a = umem s a" using len by (simp add: m1_def put_bytes_apply)
    qed (use len in simp)
    moreover have "get_bytes m1 (buf + of_nat (length r)) (length d) = d" unfolding m1_def using len by (intro get_put_bytes) simp
    ultimately have "get_bytes m1 buf (length xs) = xs" using r(1) by (simp add: lx get_bytes_append) (simp add: xs_def)
    moreover have "get_bytes (m1(buf + of_nat (length xs) := 0)) buf (length xs) = get_bytes m1 buf (length xs)"
      by (rule get_bytes_cong) (use ux len lx in \<open>auto simp: in_region_def\<close>)
    ultimately show ?thesis using r(2) by (simp add: cstr_bytes xs_def [symmetric])
  qed
  have cx: "cutl [] xs = cutl r d" using cut_append [of "[]" r d] cut_plain [OF r(3), of "[]"] by (simp add: xs_def)
  define q where "q = snd (cutl r d)"
  obtain zs where "xs = zs @ q" using cut_suffix [of r d] by (auto simp: xs_def q_def)
  then have lz: "length q \<le> length xs" by simp
  define j where "j = length xs - length q"
  obtain t where t: "grep_lines 1025 re buf ?s2 = Ret (buf + of_nat j) t" "kern t = kern s"
      "calls t = h @ printed re (fst (cutl r d))" "cstr (umem t) (buf + of_nat j) q"
    using grep_lines_ok [OF c, of 1025 re] len lx w by (auto simp: cx q_def j_def)
  have uj: "unat (of_nat j :: u64) = j" using len lx by (intro unat_of_nat_u64) (simp add: j_def)
  have m2: "int (length r) + int (length d) - uint (buf + of_nat j - buf) = int (length q)"
    using uj lz lx by (simp add: uint_nat j_def)
  let ?t = "t\<lparr>umem := memmove_u (umem t) buf (buf + of_nat j) (int (length q))\<rparr>"
  have g: "get_bytes (umem ?t) buf (length q) = q"
  proof -
    have ub: "unat (buf + of_nat j) = unat buf + j" using uj len lx by (subst unat_add_no_wrap) (simp_all add: j_def)
    have mv: "memmove_u (umem t) buf (buf + of_nat j) (int (length q)) =
      (\<lambda>a. if in_region buf (length q) a then umem t (buf + of_nat j + (a - buf)) else umem t a)"
      using memmove_u_eq [of "int (length q)" buf "buf + of_nat j" "umem t"] len lx lz ub by (simp add: j_def)
    have "get_bytes (umem ?t) buf (length q) = get_bytes (umem t) (buf + of_nat j) (length q)"
    proof (rule nth_equalityI)
      fix i assume "i < length (get_bytes (umem ?t) buf (length q))"
      then have i: "i < length q" by simp
      then have "unat (of_nat i :: u64) = i" using len lx lz by (intro unat_of_nat_u64) simp
      then show "get_bytes (umem ?t) buf (length q) ! i = get_bytes (umem t) (buf + of_nat j) (length q) ! i"
        using i by (simp add: nth_get_bytes mv in_region_def)
    qed simp
    then show ?thesis using t(4) by (simp add: cstr_bytes)
  qed
  have "grep (Suc k) buf re fd (int (length r)) s = grep k buf re fd (int (length q)) ?t"
  proof -
    have "0 < int (length r) + int (length d)" using len(2) by (cases d) auto
    then show ?thesis using rd t(1) m2 e len(2) by (simp add: Let_def m1_def)
  qed
  then show ?thesis using t g by (intro exI [of _ ?t]) (simp add: q_def)
qed


lemma grep_ok:
  assumes "input_stream fd inp sz (kern s)" and "answers_writes (kern s)" and "0 \<notin> set inp" and "short_lines inp"
    and "unat buf < 2 ^ 63" and "snd (fed fd inp sz (calls s)) = pos" and "pos \<le> length inp" and "length inp - pos < k"
    and "snd (cutl [] (take pos inp)) = r" and "get_bytes (umem s) buf (length r) = r"
  shows "\<exists>t. grep k buf re fd (int (length r)) s = Ret () t \<and>
    stdout (calls t) = stdout (calls s) @ concat (map (\<lambda>l. l @ [10]) (filter (match re) (fst (cutl r (drop pos inp)))))"
  using assms
proof (induction k arbitrary: s pos r)
  case (Suc k)
  let ?req = "nat (1024 - int (length r) - 1)"
  define n where "n = min (min ?req (Suc (sz (fst (fed fd inp sz (calls s)))))) (length inp - pos)"
  define d where "d = take n (drop pos inp)"
  have lr: "length r \<le> 1022" using short_prefix [of "take pos inp" "drop pos inp"] Suc.prems(4,9) by simp
  have n: "n \<le> 1023 - length r" "n \<le> length inp - pos" "n = 0 \<longleftrightarrow> pos = length inp" unfolding n_def using lr Suc.prems(7) by linarith+
  then have ld: "length d = n" by (simp add: d_def)
  let ?h = "calls s @ [C_read fd ?req]"
  have rd: "read_u fd (buf + of_int (int (length r))) ?req s = Ret (int (length d)) (s\<lparr>umem := put_bytes (umem s) (buf + of_nat (length r)) d, calls := ?h\<rparr>)"
  proof -
    have "kern s ?h = Some \<lparr>a_ret = int n, a_data = d\<rparr>"
      using Suc.prems(1,6) unfolding input_stream_def n_def d_def Let_def by simp
    then show ?thesis using ld by (simp add: read_u_def sys_def bindK_def thenK_def modK_def retK_def Let_def)
  qed
  show ?case
  proof (cases "pos = length inp")
    case True
    then have "d = []" using n(3) by (simp add: d_def)
    then show ?thesis using rd True by (simp add: bindK_def retK_def)
  next
    case False
    obtain zs where "take pos inp = zs @ r" using cut_suffix [of "[]" "take pos inp"] Suc.prems(9) by auto
    then have "set r \<subseteq> set inp" by (metis Un_upper2 order_trans set_append set_take_subset)
    moreover have "set d \<subseteq> set inp" unfolding d_def by (meson order_trans set_drop_subset set_take_subset)
    ultimately have nz: "0 \<notin> set (r @ d)" using Suc.prems(3) by auto
    have r10: "10 \<notin> set r" using cut_rest [of "[]" "take pos inp"] Suc.prems(9) by simp
    have dn: "d \<noteq> []" "length r + length d \<le> 1023" using False n ld lr by auto
    define q where "q = snd (cutl r d)"
    obtain t where t: "grep (Suc k) buf re fd (int (length r)) s = grep k buf re fd (int (length q)) t" "kern t = kern s"
        "calls t = ?h @ printed re (fst (cutl r d))" "get_bytes (umem t) buf (length q) = q"
      using grep_round [OF Suc.prems(10) nz r10 dn(2,1) Suc.prems(5,2) rd, of k re] unfolding q_def by blast
    have tk: "take (pos + n) inp = take pos inp @ d" by (simp add: take_add d_def)
    have dr: "drop pos inp = d @ drop (pos + n) inp" unfolding d_def by (metis append_take_drop_id drop_drop add.commute)
    have "\<exists>u. grep k buf re fd (int (length q)) t = Ret () u \<and> stdout (calls u) = stdout (calls t) @
      concat (map (\<lambda>l. l @ [10]) (filter (match re) (fst (cutl q (drop (pos + n) inp)))))"
    proof (rule Suc.IH)
      show "input_stream fd inp sz (kern t)" "answers_writes (kern t)" "0 \<notin> set inp" "short_lines inp" "unat buf < 2 ^ 63"
        using Suc.prems(1-5) t(2) by simp_all
      show "snd (fed fd inp sz (calls t)) = pos + n" unfolding t(3) fed_printed fed_append by (simp add: Suc.prems(6) n_def)
      show "pos + n \<le> length inp" "length inp - (pos + n) < k" using n False Suc.prems(7,8) by linarith+
      show "snd (cutl [] (take (pos + n) inp)) = q" unfolding tk cut_append by (simp add: Suc.prems(9) q_def)
      show "get_bytes (umem t) buf (length q) = q" by (rule t(4))
    qed
    then obtain u where u: "grep k buf re fd (int (length q)) t = Ret () u" "stdout (calls u) = stdout (calls t) @
      concat (map (\<lambda>l. l @ [10]) (filter (match re) (fst (cutl q (drop (pos + n) inp)))))" by blast
    have "fst (cutl r (drop pos inp)) = fst (cutl r d) @ fst (cutl q (drop (pos + n) inp))" unfolding dr q_def cut_append by simp
    then show ?thesis using t(1,3) u by (intro exI [of _ u]) (simp add: stdout_printed)
  qed
qed simp


text \<open>
  C35: However the kernel cuts the input into reads, \<open>grep\<close> returns and prints exactly the lines that match, in order and
  with their newlines, for an input without NUL bytes and with lines of at most 1022 characters. Characters after the last
  newline are not printed.
\<close>

theorem grep_prints_matching_lines:
  assumes "input_stream fd inp sz (kern s)" and "answers_writes (kern s)" and "0 \<notin> set inp" and "short_lines inp"
    and "unat buf < 2 ^ 63" and "calls s = []" and "length inp < k"
  shows "\<exists>t. grep k buf re fd 0 s = Ret () t \<and>
    stdout (calls t) = concat (map (\<lambda>l. l @ [10]) (filter (match re) (fst (cutl [] inp))))"
  using grep_ok [OF assms(1-5), of 0 k "[]" re] assms(6,7) by (simp add: fed_def)

definition stream_kernel :: "int \<Rightarrow> byte list \<Rightarrow> (nat \<Rightarrow> nat) \<Rightarrow> ucall list \<Rightarrow> answer option" where
  "stream_kernel fd inp sz h = (case rev h of
       C_read fd' n # g \<Rightarrow>
         (let st = fed fd inp sz (rev g); k = min (min n (Suc (sz (fst st)))) (length inp - snd st) in
          Some \<lparr>a_ret = int k, a_data = take k (drop (snd st) inp)\<rparr>)
     | _ \<Rightarrow> Some \<lparr>a_ret = 0, a_data = []\<rparr>)"

lemma stream_kernel_ok: "input_stream fd inp sz (stream_kernel fd inp sz)" "answers_writes (stream_kernel fd inp sz)"
  by (simp_all add: input_stream_def answers_writes_def stream_kernel_def)

theorem grep_prints_matching_lines_witness:
  "\<exists>t. grep 10 0x2000 [94, 97] 0 0 \<lparr>umem = (\<lambda>_. 0), kern = stream_kernel 0 [97, 98, 10, 99, 97, 10, 97] (\<lambda>i. i), calls = []\<rparr> = Ret () t \<and>
     stdout (calls t) = [97, 98, 10]"
proof -
  let ?s = "\<lparr>umem = (\<lambda>_. 0), kern = stream_kernel 0 [97, 98, 10, 99, 97, 10, 97] (\<lambda>i. i), calls = []\<rparr>"
  have "\<exists>t. grep 10 0x2000 [94, 97] 0 0 ?s = Ret () t \<and>
    stdout (calls t) = concat (map (\<lambda>l. l @ [10]) (filter (match [94, 97]) (fst (cutl [] [97, 98, 10, 99, 97, 10, 97]))))"
    by (rule grep_prints_matching_lines [where sz = "\<lambda>i. i"]) (simp_all add: stream_kernel_ok short_lines_def)
  then show ?thesis by (simp add: match_def del: grep.simps)
qed

end
