(* ===== verification/Umalloc.thy ===== *)
theory Umalloc
  imports Ulib
begin

text \<open>
  The allocator \<^verbatim>\<open>user/umalloc.c\<close>: a circular list of free blocks in order of their addresses, \<open>base\<close> first. A block
  starts with its header and is measured in units of the size of a header, 16 bytes. The headers are a store indexed by
  their addresses. A loop over the list that does not end is \<open>None\<close>.
\<close>

section \<open>Definitions\<close>

record header =
  h_ptr :: u64
  h_size :: u32

record umalloc = user +
  heap :: "u64 \<Rightarrow> header"
  base_at :: u64
  freep :: u64

text \<open>\<open>p + n\<close> on pointers to headers.\<close>

definition units :: "u64 \<Rightarrow> u32 \<Rightarrow> u64" where
  "units p n = p + 16 * ucast n"

definition set_ptr :: "u64 \<Rightarrow> u64 \<Rightarrow> (u64 \<Rightarrow> header) \<Rightarrow> u64 \<Rightarrow> header" where
  "set_ptr p q h = h(p := (h p)\<lparr>h_ptr := q\<rparr>)"

definition set_size :: "u64 \<Rightarrow> u32 \<Rightarrow> (u64 \<Rightarrow> header) \<Rightarrow> u64 \<Rightarrow> header" where
  "set_size p n h = h(p := (h p)\<lparr>h_size := n\<rparr>)"

text \<open>The loop of \<open>free\<close> that looks for the place of \<open>bp\<close>.\<close>

partial_function (option) find_place :: "(u64 \<Rightarrow> header) \<Rightarrow> u64 \<Rightarrow> u64 \<Rightarrow> u64 option" where
  "find_place h bp p =
     (let q = h_ptr (h p) in
      if bp > p \<and> bp < q then Some p
      else if p \<ge> q \<and> (bp > p \<or> bp < q) then Some p
      else find_place h bp q)"

definition link_upper :: "u64 \<Rightarrow> u64 \<Rightarrow> (u64 \<Rightarrow> header) \<Rightarrow> u64 \<Rightarrow> header" where
  "link_upper bp p h =
     (let q = h_ptr (h p) in
      if units bp (h_size (h bp)) = q
      then set_ptr bp (h_ptr (h q)) (set_size bp (h_size (h bp) + h_size (h q)) h)
      else set_ptr bp q h)"

definition link_lower :: "u64 \<Rightarrow> u64 \<Rightarrow> (u64 \<Rightarrow> header) \<Rightarrow> u64 \<Rightarrow> header" where
  "link_lower bp p h =
     (if units p (h_size (h p)) = bp
      then set_ptr p (h_ptr (h bp)) (set_size p (h_size (h p) + h_size (h bp)) h)
      else set_ptr p bp h)"

definition free :: "u64 \<Rightarrow> (unit, 'z umalloc_scheme) kop" where
  "free ap s =
     (let bp = ap - 16 in
      case find_place (heap s) bp (freep s) of
        None \<Rightarrow> Diverge
      | Some p \<Rightarrow> Ret () (s\<lparr>heap := link_lower bp p (link_upper bp p (heap s)), freep := p\<rparr>))"

text \<open>\<^verbatim>\<open>sbrk(int)\<close> gets the low 32 bits of \<^verbatim>\<open>nu * sizeof(Header)\<close>.\<close>

definition morecore :: "u32 \<Rightarrow> (u64, 'z umalloc_scheme) kop" where
  "morecore nu =
     (let nu = (if nu < 4096 then 4096 else nu) in
      bindK (sys_ret (C_sbrk (sint (ucast (ucast nu * 16 :: u64) :: u32)))) (\<lambda>r.
      let p = of_int r :: u64 in
      if p = -1 then retK 0
      else thenK (modK (\<lambda>s. s\<lparr>heap := set_size p nu (heap s)\<rparr>)) (
           thenK (free (p + 16))
                 (getK freep))))"

text \<open>The loop of \<open>malloc\<close>; \<open>0\<close> is the null pointer.\<close>

definition carve :: "u32 \<Rightarrow> u64 \<Rightarrow> u64 \<Rightarrow> 'z umalloc_scheme \<Rightarrow> (u64, 'z umalloc_scheme) outcome" where
  "carve nunits prevp p s =
     (let h = heap s; n = h_size (h p) in
      if n = nunits then Ret (p + 16) (s\<lparr>heap := set_ptr prevp (h_ptr (h p)) h, freep := prevp\<rparr>)
      else let q = units p (n - nunits) in
           Ret (q + 16) (s\<lparr>heap := set_size q nunits (set_size p (n - nunits) h), freep := prevp\<rparr>))"

partial_function (option) malloc_loop ::
  "u32 \<Rightarrow> u64 \<Rightarrow> u64 \<Rightarrow> 'z umalloc_scheme \<Rightarrow> (u64, 'z umalloc_scheme) outcome option" where
  "malloc_loop nunits prevp p s =
     (if h_size (heap s p) \<ge> nunits then Some (carve nunits prevp p s)
      else if p = freep s then
        (case morecore nunits s of
           Ret r t \<Rightarrow> if r = 0 then Some (Ret 0 t) else malloc_loop nunits r (h_ptr (heap t r)) t
         | Panic e \<Rightarrow> Some (Panic e)
         | Block c t \<Rightarrow> Some (Block c t)
         | Diverge \<Rightarrow> Some Diverge)
      else malloc_loop nunits p (h_ptr (heap s p)) s)"

definition nunits_of :: "u32 \<Rightarrow> u32" where
  "nunits_of nbytes = ucast ((ucast nbytes + 16 - 1 :: u64) div 16 + 1)"

definition malloc :: "u32 \<Rightarrow> (u64, 'z umalloc_scheme) kop" where
  "malloc nbytes s =
     (let nunits = nunits_of nbytes;
          s1 = (if freep s = 0
                then s\<lparr>heap := set_size (base_at s) 0 (set_ptr (base_at s) (base_at s) (heap s)), freep := base_at s\<rparr>
                else s);
          prevp = freep s1 in
      case malloc_loop nunits prevp (h_ptr (heap s1 prevp)) s1 of None \<Rightarrow> Diverge | Some r \<Rightarrow> r)"

section \<open>The free list\<close>

text \<open>\<open>xs\<close> are the free blocks from \<open>base\<close> on, in order of their addresses, and each points to the next.\<close>

abbreviation (input) points :: "(u64 \<Rightarrow> header) \<Rightarrow> u64 \<Rightarrow> u64 \<Rightarrow> bool" where
  "points h x y \<equiv> h_ptr (h x) = y"

definition top_of :: "(u64 \<Rightarrow> header) \<Rightarrow> u64 \<Rightarrow> nat" where
  "top_of h x = unat x + 16 * unat (h_size (h x))"

definition below :: "(u64 \<Rightarrow> header) \<Rightarrow> u64 \<Rightarrow> u64 \<Rightarrow> bool" where
  "below h x y \<longleftrightarrow> x < y \<and> top_of h x \<le> unat y"

definition free_list :: "(u64 \<Rightarrow> header) \<Rightarrow> u64 \<Rightarrow> u64 list \<Rightarrow> bool" where
  "free_list h base xs \<longleftrightarrow> xs \<noteq> [] \<and> hd xs = base \<and> base \<noteq> 0 \<and>
     successively (points h) (xs @ [base]) \<and> sorted_wrt (below h) xs \<and>
     (\<forall>x \<in> set xs. top_of h x < 2 ^ 36 \<and> (h_size (h x) = 0 \<longleftrightarrow> x = base))"

definition free_bytes :: "(u64 \<Rightarrow> header) \<Rightarrow> u64 list \<Rightarrow> nat set" where
  "free_bytes h xs = (\<Union>x \<in> set xs. {unat x ..< top_of h x})"

lemma free_listD:
  assumes "free_list h base xs"
  shows "successively (points h) (xs @ [base])" "sorted_wrt (below h) xs" "\<And>x. x \<in> set xs \<Longrightarrow> top_of h x < 2 ^ 36"
    "xs \<noteq> []" "hd xs = base" "base \<noteq> 0" "\<And>x. x \<in> set xs \<Longrightarrow> h_size (h x) = 0 \<longleftrightarrow> x = base"
  using assms by (simp_all add: free_list_def)

text \<open>The loop of \<open>free\<close>, from any block of the list.\<close>

lemma find_place_up:
  assumes "successively (points h) (x # ys @ zs @ [base])" and "sorted_wrt (<) (x # ys)"
    and "last (x # ys) < bp" and "\<forall>z \<in> set zs. bp < z" and "base \<le> x"
  shows "find_place h bp x = Some (last (x # ys))"
  using assms
proof (induction ys arbitrary: x)
  case Nil
  then show ?case by (cases zs) (auto simp: find_place.simps [of h bp x] Let_def)
next
  case (Cons y ys)
  have q: "h_ptr (h x) = y" "x < y" "y \<le> last (y # ys)" using Cons.prems(1,2) last_in_set [of "y # ys"] by (auto simp: less_imp_le)
  then have "find_place h bp x = find_place h bp y"
    using Cons.prems(3) by (subst find_place.simps) (auto simp: Let_def)
  moreover have "find_place h bp y = Some (last (y # ys))"
    using Cons.prems q(2) by (intro Cons.IH) auto
  ultimately show ?case by simp
qed

lemma find_place_wrap:
  assumes "successively (points h) (x # ys @ [base])" and "sorted_wrt (<) (x # ys)" and "\<forall>z \<in> set (x # ys). bp < z" and "base < bp"
  shows "find_place h bp x = find_place h bp base"
  using assms
proof (induction ys arbitrary: x)
  case Nil
  then show ?case by (subst find_place.simps) (auto simp: Let_def)
next
  case (Cons y ys)
  have "h_ptr (h x) = y" "x < y" "bp < x" using Cons.prems by auto
  then have "find_place h bp x = find_place h bp y" by (subst find_place.simps) (auto simp: Let_def)
  then show ?case using Cons.IH [of y] Cons.prems by auto
qed

lemma successively_suffix: "successively P (xs @ ys) \<Longrightarrow> successively P ys"
  by (simp add: successively_append_iff)

lemma find_place_ok:
  assumes c: "successively (points h) ((us @ zs) @ [base])" and s: "sorted_wrt (<) (us @ zs)" and u: "us \<noteq> []" "hd us = base"
    and bp: "last us < bp" "\<forall>z \<in> set zs. bp < z" and f: "f \<in> set (us @ zs)"
  shows "find_place h bp f = Some (last us)"
proof -
  have base: "\<forall>x \<in> set (us @ zs). base \<le> x" using u s by (cases us) (auto simp: less_imp_le)
  have up: "find_place h bp g = Some (last us)" if "g \<in> set us" for g
  proof -
    obtain as bs where g: "us = as @ g # bs" using split_list [OF \<open>g \<in> set us\<close>] by blast
    have "successively (points h) (g # bs @ zs @ [base])" using successively_suffix [of _ as] c by (simp add: g)
    moreover have "sorted_wrt (<) (g # bs)" using s by (simp add: g sorted_wrt_append)
    ultimately show ?thesis using find_place_up [of h g bs zs base bp] bp base that by (auto simp: g split: if_splits)
  qed
  show ?thesis
  proof (cases "f \<in> set us")
    case True
    then show ?thesis by (rule up)
  next
    case False
    then have "f \<in> set zs" using f by simp
    then obtain as bs where g: "zs = as @ f # bs" using split_list by metis
    have "successively (points h) (f # bs @ [base])" using successively_suffix [of _ "us @ as"] c by (simp add: g)
    moreover have "sorted_wrt (<) (f # bs)" using s by (simp add: g sorted_wrt_append)
    moreover have "base \<le> last us" using base u(1) by simp
    then have "base < bp" using bp(1) by (rule order_le_less_trans)
    ultimately have "find_place h bp f = find_place h bp base" using bp(2) by (intro find_place_wrap) (auto simp: g)
    then show ?thesis using up [of base] u hd_in_set [OF u(1)] by simp
  qed
qed


lemma successively_frame:
  "successively (points h) xs \<Longrightarrow> \<forall>x \<in> set (butlast xs). h' x = h x \<Longrightarrow> successively (points h') xs"
proof (induction xs)
  case (Cons x xs)
  then show ?case by (cases xs) auto
qed simp

lemma below_frame: "sorted_wrt (below h) xs \<Longrightarrow> \<forall>x \<in> set xs. h' x = h x \<Longrightarrow> sorted_wrt (below h') xs"
  by (rule sorted_wrt_mono_rel [of xs "below h"]) (simp_all add: below_def top_of_def)

lemma bytes_frame: "\<forall>x \<in> set xs. h' x = h x \<Longrightarrow> free_bytes h' xs = free_bytes h xs"
  by (simp add: free_bytes_def top_of_def)

lemma free_bytes_simps [simp]:
  "free_bytes h [] = {}" "free_bytes h (x # xs) = {unat x ..< top_of h x} \<union> free_bytes h xs"
  "free_bytes h (xs @ ys) = free_bytes h xs \<union> free_bytes h ys"
  by (auto simp: free_bytes_def)

lemma unat_units: "unat x + 16 * unat k < 2 ^ 36 \<Longrightarrow> unat (units x k) = unat x + 16 * unat k"
proof -
  assume t: "unat x + 16 * unat k < 2 ^ 36"
  then have "unat (16 * ucast k :: u64) = 16 * unat k" by (simp add: unat_word_ariths)
  then show ?thesis using t by (simp add: units_def unat_add_no_wrap)
qed

lemma units_eq: "top_of h x < 2 ^ 36 \<Longrightarrow> units x (h_size (h x)) = y \<longleftrightarrow> top_of h x = unat y"
  using unat_units [of x "h_size (h x)"] by (auto simp: top_of_def word_unat_eq_iff)

lemma size_add: "16 * (unat m + unat n) < 2 ^ 36 \<Longrightarrow> unat (m + n :: u32) = unat m + unat n"
  by (simp add: unat_word_ariths)

lemma join_bytes: "(a :: nat) \<le> b \<Longrightarrow> b \<le> c \<Longrightarrow> {a ..< b} \<union> ({b ..< c} \<union> X) = {a ..< c} \<union> X"
  by (simp add: Un_assoc [symmetric] ivl_disj_un_two(3))

lemma size_nz: "unat (k :: u32) = unat (m :: u32) + unat (n :: u32) \<Longrightarrow> n \<noteq> 0 \<Longrightarrow> k \<noteq> 0"
  by (metis add_eq_0_iff_both_eq_0 unat_eq_zero)

lemma below_trans: "below h x y \<Longrightarrow> below h y z \<Longrightarrow> below h x z"
  by (auto simp: below_def top_of_def)

lemma link_upper_ok:
  assumes c: "successively (points h) (zs @ [base])" and s: "sorted_wrt (below h) (bp # zs)" and q: "h_ptr (h p) = hd (zs @ [base])"
    and b: "base < bp" and t: "\<forall>x \<in> set (bp # zs). top_of h x < 2 ^ 36" and n: "\<forall>x \<in> set (bp # zs). h_size (h x) \<noteq> 0"
  shows "\<exists>zs1. (\<forall>x. x \<noteq> bp \<longrightarrow> link_upper bp p h x = h x) \<and> set zs1 \<subseteq> set zs \<and> (let h1 = link_upper bp p h in
    successively (points h1) (bp # zs1 @ [base]) \<and> sorted_wrt (below h1) (bp # zs1) \<and> (\<forall>x \<in> set (bp # zs1). top_of h1 x < 2 ^ 36) \<and>
    (\<forall>x \<in> set (bp # zs1). h_size (h1 x) \<noteq> 0) \<and> free_bytes h1 (bp # zs1) = free_bytes h (bp # zs) \<and>
    h_size (h bp) \<le> h_size (h1 bp))"
proof -
  let ?h = "link_upper bp p h"
  have nb: "bp \<notin> set zs" "bp \<noteq> base" using s b by (auto simp: below_def)
  show ?thesis
  proof (cases "units bp (h_size (h bp)) = hd (zs @ [base])")
    case False
    then have h1: "?h = set_ptr bp (hd (zs @ [base])) h" by (simp add: link_upper_def q Let_def)
    then have f: "\<forall>x. x \<noteq> bp \<longrightarrow> ?h x = h x" "top_of ?h = top_of h" "\<And>x. h_size (?h x) = h_size (h x)" "h_ptr (?h bp) = hd (zs @ [base])"
      by (auto simp: set_ptr_def top_of_def)
    have "successively (points ?h) (zs @ [base])"
      using nb f(1) by (intro successively_frame [OF c]) (auto simp: butlast_append)
    then have "successively (points ?h) (bp # zs @ [base])" using f(4) by (cases zs) auto
    moreover have "below ?h = below h" using f(2) by (simp add: below_def fun_eq_iff)
    then have "sorted_wrt (below ?h) (bp # zs)" using s by simp
    ultimately show ?thesis using t n f by (intro exI [of _ zs]) (simp add: Let_def free_bytes_def)
  next
    case True
    then have e: "top_of h bp = unat (hd (zs @ [base]))" using units_eq [of h bp "hd (zs @ [base])"] t by simp
    moreover have "unat base < top_of h bp" using b by (simp add: top_of_def word_less_nat_alt)
    ultimately obtain z zs1 where z: "zs = z # zs1" by (cases zs) auto
    let ?n = "h_size (h bp) + h_size (h z)"
    have h1: "?h = set_ptr bp (h_ptr (h z)) (set_size bp ?n h)" using True by (simp add: link_upper_def q Let_def z)
    have un: "unat ?n = unat (h_size (h bp)) + unat (h_size (h z))"
      using e t by (intro size_add) (auto simp: z top_of_def)
    have tb: "top_of ?h bp = top_of h z" using e un by (simp add: h1 z top_of_def set_ptr_def set_size_def)
    have nb2: "h_size (?h bp) \<noteq> 0" "h_size (h bp) \<le> h_size (?h bp)"
      using size_nz [OF un] un n by (simp_all add: h1 z set_ptr_def set_size_def word_le_nat_alt)
    have f: "\<forall>x. x \<noteq> bp \<longrightarrow> ?h x = h x" "h_ptr (?h bp) = h_ptr (h z)" by (auto simp: h1 set_ptr_def set_size_def)
    have tz: "\<forall>x \<in> set (z # zs1). ?h x = h x" using nb f by (auto simp: z)
    then have "successively (points ?h) (z # zs1 @ [base])"
      using successively_frame [OF c, of ?h] by (simp add: z butlast_append)
    then have 1: "successively (points ?h) (bp # zs1 @ [base])" using f nb by (cases zs1) (auto simp: z)
    have "sorted_wrt (below ?h) zs1" using s tz below_frame [of h zs1 ?h] by (simp add: z)
    moreover have "below ?h bp y" if "y \<in> set zs1" for y using s that tb by (auto simp: z below_def)
    ultimately have 2: "sorted_wrt (below ?h) (bp # zs1)" by simp
    have "unat z = top_of h bp" using e by (simp add: z)
    then have "unat bp \<le> unat z" "unat z \<le> top_of h z" by (simp_all add: top_of_def)
    then have 3: "free_bytes ?h (bp # zs1) = free_bytes h (bp # zs)"
      using \<open>unat z = top_of h bp\<close> bytes_frame [of zs1 ?h h] tz tb by (simp add: z join_bytes)
    show ?thesis using 1 2 3 f tz t n tb nb2 by (intro exI [of _ zs1]) (auto simp: z Let_def top_of_def)
  qed
qed


lemma link_lower_ok:
  assumes c1: "successively (points h) (us @ [p])" and s1: "sorted_wrt (below h) (us @ [p])"
    and c: "successively (points h) (bp # zs @ [base])" and s: "sorted_wrt (below h) (bp # zs)"
    and b: "\<forall>x \<in> set (us @ [p]). below h x bp" and t: "top_of h bp < 2 ^ 36" and n: "h_size (h bp) \<noteq> 0"
  shows "\<exists>zs1. (\<forall>x. x \<noteq> p \<longrightarrow> link_lower bp p h x = h x) \<and> set zs1 \<subseteq> set (bp # zs) \<and> (let h1 = link_lower bp p h in
    successively (points h1) ((us @ [p]) @ zs1 @ [base]) \<and> sorted_wrt (below h1) ((us @ [p]) @ zs1) \<and>
    top_of h1 p < 2 ^ 36 \<and> (h_size (h1 p) = 0 \<longleftrightarrow> h_size (h p) = 0) \<and>
    free_bytes h1 ((us @ [p]) @ zs1) = free_bytes h ((us @ [p]) @ bp # zs) \<and>
    (\<exists>x \<in> set (p # zs1). h_size (h bp) \<le> h_size (h1 x)))"
proof -
  let ?h = "link_lower bp p h"
  have np: "p \<notin> set us" "p \<notin> set (bp # zs)" using s1 s b by (auto simp: sorted_wrt_append below_def)
  have pb: "p < bp" "top_of h p \<le> unat bp" using b by (auto simp: below_def)
  have bt: "unat bp \<le> top_of h bp" by (simp add: top_of_def)
  show ?thesis
  proof (cases "units p (h_size (h p)) = bp")
    case False
    then have h1: "?h = set_ptr p bp h" by (simp add: link_lower_def)
    then have f: "\<forall>x. x \<noteq> p \<longrightarrow> ?h x = h x" "top_of ?h = top_of h" "\<And>x. h_size (?h x) = h_size (h x)" "h_ptr (?h p) = bp"
      by (auto simp: set_ptr_def top_of_def)
    have be: "below ?h = below h" using f(2) by (simp add: below_def fun_eq_iff)
    have "successively (points ?h) (us @ [p])" using np f(1) by (intro successively_frame [OF c1]) (auto simp: butlast_append)
    moreover have "successively (points ?h) (bp # zs @ [base])" using np f(1) by (intro successively_frame [OF c]) (auto simp: butlast_append)
    ultimately have "successively (points ?h) ((us @ [p]) @ (bp # zs) @ [base])" using f(4) by (auto simp: successively_append_iff)
    moreover have "sorted_wrt (below ?h) ((us @ [p]) @ bp # zs)"
      using s1 s b below_trans [of h] unfolding be sorted_wrt_append by fastforce
    moreover have "top_of h p < 2 ^ 36" using pb bt t by linarith
    ultimately show ?thesis using f by (intro exI [of _ "bp # zs"]) (simp add: Let_def free_bytes_def)
  next
    case True
    then have e: "top_of h p = unat bp" using units_eq [of h p bp] pb bt t by simp
    let ?n = "h_size (h p) + h_size (h bp)"
    have h1: "?h = set_ptr p (h_ptr (h bp)) (set_size p ?n h)" using True by (simp add: link_lower_def)
    have un: "unat ?n = unat (h_size (h p)) + unat (h_size (h bp))" using e t by (intro size_add) (auto simp: top_of_def)
    have hp: "h_size (h p) \<noteq> 0" using e pb(1) by (auto simp: top_of_def word_less_nat_alt)
    have tb: "top_of ?h p = top_of h bp" "h_size (?h p) \<noteq> 0" "h_size (h bp) \<le> h_size (?h p)"
      using e un size_nz [OF un n] by (simp_all add: h1 top_of_def set_ptr_def set_size_def word_le_nat_alt)
    have f: "\<forall>x. x \<noteq> p \<longrightarrow> ?h x = h x" "h_ptr (?h p) = h_ptr (h bp)" by (auto simp: h1 set_ptr_def set_size_def)
    have c2: "successively (points ?h) (us @ [p])" using np f(1) by (intro successively_frame [OF c1]) (auto simp: butlast_append)
    have fz: "\<forall>x \<in> set us. ?h x = h x" "\<forall>x \<in> set zs. ?h x = h x" using np f by auto
    have "successively (points h) (zs @ [base])" "h_ptr (h bp) = hd (zs @ [base])" using c by (cases zs; simp)+
    moreover from this have "successively (points ?h) (zs @ [base])" 
      using fz(2) successively_frame [of h "zs @ [base]" ?h] by (simp add: butlast_append)
    ultimately have 1: "successively (points ?h) ((us @ [p]) @ zs @ [base])"
      using c2 f(2) successively_append_iff [of "points ?h" "us @ [p]" "zs @ [base]"] by simp
    have "sorted_wrt (below ?h) us" "sorted_wrt (below ?h) zs"
      using s1 s below_frame [OF _ fz(1)] below_frame [OF _ fz(2)] by (auto simp: sorted_wrt_append)
    moreover have "below ?h x p" if "x \<in> set us" for x using s1 that fz by (auto simp: sorted_wrt_append below_def top_of_def)
    moreover have "below ?h p z" if "z \<in> set zs" for z using s that tb pb by (auto simp: below_def)
    moreover have "below ?h x z" if "x \<in> set us" "z \<in> set zs" for x z
      using s b that fz below_trans [of h x bp z] by (auto simp: below_def top_of_def)
    ultimately have 2: "sorted_wrt (below ?h) ((us @ [p]) @ zs)" by (auto simp: sorted_wrt_append)
    have "unat p \<le> top_of h p" by (simp add: top_of_def)
    then have 3: "free_bytes ?h ((us @ [p]) @ zs) = free_bytes h ((us @ [p]) @ bp # zs)"
      using e bt bytes_frame [OF fz(1)] bytes_frame [OF fz(2)] tb(1) by (simp add: join_bytes)
    show ?thesis using 1 2 3 f t tb hp by (intro exI [of _ zs]) (auto simp: Let_def)
  qed
qed

lemma split_at:
  "sorted_wrt (below h) xs \<Longrightarrow> \<forall>x \<in> set xs. below h x b \<or> below h b x \<Longrightarrow>
   \<exists>us zs. xs = us @ zs \<and> (\<forall>x \<in> set us. below h x b) \<and> (\<forall>z \<in> set zs. below h b z)"
proof (induction xs)
  case (Cons x xs)
  show ?case
  proof (cases "below h b x")
    case True
    then have "\<forall>z \<in> set (x # xs). below h b z" using Cons.prems(1) below_trans [of h b x] by auto
    then show ?thesis by (intro exI [of _ "[]"] exI [of _ "x # xs"]) simp
  next
    case False
    obtain us zs where "xs = us @ zs" "\<forall>x \<in> set us. below h x b" "\<forall>z \<in> set zs. below h b z" using Cons by auto
    then show ?thesis using False Cons.prems(2) by (intro exI [of _ "x # us"] exI [of _ zs]) simp
  qed
qed simp

lemma free_ok:
  fixes ap :: u64 defines "bp \<equiv> ap - 16"
  assumes fl: "free_list (heap s) base xs" and f: "freep s \<in> set xs" and b: "base < bp"
    and n: "h_size (heap s bp) \<noteq> 0" and t: "top_of (heap s) bp < 2 ^ 36"
    and d: "\<forall>x \<in> set xs. below (heap s) x bp \<or> below (heap s) bp x"
  shows "\<exists>h p xs'. free ap s = Ret () (s\<lparr>heap := h, freep := p\<rparr>) \<and> free_list h base xs' \<and> p \<in> set xs' \<and>
    free_bytes h xs' = free_bytes (heap s) xs \<union> {unat bp ..< top_of (heap s) bp} \<and>
    (\<exists>x \<in> set xs'. h_size (heap s bp) \<le> h_size (h x))"
proof -
  let ?h = "heap s"
  obtain us' zs where us: "xs = us' @ zs" "\<forall>x \<in> set us'. below ?h x bp" "\<forall>z \<in> set zs. below ?h bp z"
    using split_at [OF free_listD(2) [OF fl] d] by blast
  have "us' \<noteq> []" using us b free_listD(4,5) [OF fl] hd_in_set [of zs] by (cases us') (auto simp: below_def)
  then obtain us p where p: "us' = us @ [p]" by (metis rev_exhaust)
  have c: "successively (points ?h) ((us @ [p]) @ zs @ [base])" and s: "sorted_wrt (below ?h) ((us @ [p]) @ zs)"
    using free_listD(1,2) [OF fl] us(1) p by simp_all
  have c1: "successively (points ?h) (us @ [p])" "successively (points ?h) (zs @ [base])" "h_ptr (?h p) = hd (zs @ [base])"
    using c successively_append_iff [of "points ?h" "us @ [p]" "zs @ [base]"] by auto
  have base: "hd (us @ [p]) = base" using free_listD(5) [OF fl] us(1) p by (cases us) auto
  have "sorted_wrt (<) ((us @ [p]) @ zs)" by (rule sorted_wrt_mono_rel [OF _ s]) (simp add: below_def)
  then have fp: "find_place ?h bp (freep s) = Some p"
    using find_place_ok [of ?h "us @ [p]" zs base bp "freep s"] c base us f p by (auto simp: below_def)
  have nz: "\<forall>x \<in> set zs. h_size (?h x) \<noteq> 0" using free_listD(7) [OF fl] us b by (auto simp: below_def)
  define h1 where "h1 = link_upper bp p ?h"
  obtain zs1 where u: "\<forall>x. x \<noteq> bp \<longrightarrow> h1 x = ?h x" "set zs1 \<subseteq> set zs"
    "successively (points h1) (bp # zs1 @ [base])" "sorted_wrt (below h1) (bp # zs1)"
    "\<forall>x \<in> set (bp # zs1). top_of h1 x < 2 ^ 36" "\<forall>x \<in> set (bp # zs1). h_size (h1 x) \<noteq> 0"
    "free_bytes h1 (bp # zs1) = free_bytes ?h (bp # zs)" "h_size (?h bp) \<le> h_size (h1 bp)"
    using link_upper_ok [OF c1(2) _ c1(3) b] s us t n nz free_listD(3) [OF fl] p
    unfolding Let_def h1_def by (auto simp: sorted_wrt_append)
  have bu: "bp \<notin> set (us @ [p])" using us(2) p by (auto simp: below_def)
  then have e: "\<forall>x \<in> set (us @ [p]). h1 x = ?h x" using u(1) by auto
  have a1: "successively (points h1) (us @ [p])" using successively_frame [OF c1(1), of h1] e by (simp add: butlast_append)
  have a2: "sorted_wrt (below h1) (us @ [p])" using s below_frame [OF _ e] by (simp add: sorted_wrt_append)
  have a3: "\<forall>x \<in> set (us @ [p]). below h1 x bp" using us(2) p e by (auto simp: below_def top_of_def)
  define h2 where "h2 = link_lower bp p h1"
  obtain zs2 where l: "\<forall>x. x \<noteq> p \<longrightarrow> h2 x = h1 x" "set zs2 \<subseteq> set (bp # zs1)"
    "successively (points h2) ((us @ [p]) @ zs2 @ [base])" "sorted_wrt (below h2) ((us @ [p]) @ zs2)"
    "top_of h2 p < 2 ^ 36" "h_size (h2 p) = 0 \<longleftrightarrow> h_size (h1 p) = 0"
    "free_bytes h2 ((us @ [p]) @ zs2) = free_bytes h1 ((us @ [p]) @ bp # zs1)" "\<exists>x \<in> set (p # zs2). h_size (h1 bp) \<le> h_size (h2 x)"
    using link_lower_ok [OF a1 a2 u(3,4) a3] u(5,6) unfolding Let_def h2_def by auto
  have dz: "p \<notin> set us" "p \<notin> set zs2" "base \<notin> set zs2" "base \<in> set (us @ [p])"
    using l(2,4) a3 u(4) s base hd_in_set [of "us @ [p]"] by (auto simp: sorted_wrt_append below_def)
  have e2: "\<forall>x \<in> set us. h2 x = ?h x" using l(1) e dz(1) by fastforce
  have sz: "\<forall>x \<in> set (us @ [p]). h_size (h2 x) = 0 \<longleftrightarrow> x = base" using l(6) e e2 free_listD(7) [OF fl] us(1) p by simp
  have tp: "\<forall>x \<in> set (us @ [p]). top_of h2 x < 2 ^ 36" using l(5) e2 free_listD(3) [OF fl] us(1) p by (simp add: top_of_def)
  have "\<forall>x \<in> set zs2. h2 x = h1 x" using l(1) dz(2) by auto
  then have zz: "\<forall>x \<in> set zs2. top_of h2 x < 2 ^ 36 \<and> (h_size (h2 x) = 0 \<longleftrightarrow> x = base)"
    using u(5,6) l(2) dz(3) by (auto simp: top_of_def)
  have "hd ((us @ [p]) @ zs2) = base" using base by (cases us) simp_all
  then have "free_list h2 base ((us @ [p]) @ zs2)"
    unfolding free_list_def using l(3,4) sz tp zz free_listD(6) [OF fl] by (simp add: ball_Un)
  moreover have "free_bytes h2 ((us @ [p]) @ zs2) = free_bytes ?h xs \<union> {unat bp ..< top_of ?h bp}"
    unfolding l(7) using u(7) bytes_frame [OF e] us(1) p by auto
  moreover have "\<exists>x \<in> set ((us @ [p]) @ zs2). h_size (?h bp) \<le> h_size (h2 x)" using order_trans [OF u(8)] l(8) by auto
  moreover have "free ap s = Ret () (s\<lparr>heap := h2, freep := p\<rparr>)"
    by (simp add: free_def Let_def bp_def [symmetric] fp h1_def h2_def)
  ultimately show ?thesis by (intro exI [of _ h2] exI [of _ p] exI [of _ "(us @ [p]) @ zs2"]) simp
qed

section \<open>malloc\<close>

text \<open>The loop of \<open>malloc\<close> along a stretch of the circle: the first block that is large enough, or the call of \<open>morecore\<close> at \<open>freep\<close>.\<close>

lemma malloc_loop_fits:
  assumes "successively (points (heap s)) (prev # ps)" and "ps \<noteq> []" and "freep s \<notin> set (butlast ps)" and "\<exists>p \<in> set ps. n \<le> h_size (heap s p)"
  shows "\<exists>qs p rs. ps = qs @ p # rs \<and> n \<le> h_size (heap s p) \<and>
    malloc_loop n prev (h_ptr (heap s prev)) s = Some (carve n (last (prev # qs)) p s)"
  using assms
proof (induction ps arbitrary: prev)
  case (Cons p ps)
  show ?case
  proof (cases "n \<le> h_size (heap s p)")
    case True
    then show ?thesis using Cons.prems(1) by (intro exI [of _ "[]"] exI [of _ p] exI [of _ ps]) (simp add: malloc_loop.simps)
  next
    case False
    then have ps: "ps \<noteq> []" "p \<noteq> freep s" using Cons.prems(3,4) by (auto split: if_splits)
    moreover have "\<exists>p \<in> set ps. n \<le> h_size (heap s p)" "successively (points (heap s)) (p # ps)" "freep s \<notin> set (butlast ps)"
      using Cons.prems False ps by (auto split: if_splits)
    ultimately obtain qs q rs where "ps = qs @ q # rs" "n \<le> h_size (heap s q)"
      "malloc_loop n p (h_ptr (heap s p)) s = Some (carve n (last (p # qs)) q s)"
      using Cons.IH [of p] by blast
    then show ?thesis using Cons.prems(1) False ps
      by (intro exI [of _ "p # qs"] exI [of _ q] exI [of _ rs]) (simp add: malloc_loop.simps [of n prev])
  qed
qed simp

lemma malloc_loop_full:
  assumes "successively (points (heap s)) (prev # ps)" and "ps \<noteq> []" and "last ps = freep s" and "freep s \<notin> set (butlast ps)"
    and "\<forall>p \<in> set ps. h_size (heap s p) < n"
  shows "\<exists>prev'. malloc_loop n prev (h_ptr (heap s prev)) s = malloc_loop n prev' (freep s) s"
  using assms
proof (induction ps arbitrary: prev)
  case (Cons p ps)
  show ?case
  proof (cases "ps = []")
    case True
    then show ?thesis using Cons.prems by auto
  next
    case False
    then have "p \<noteq> freep s" "h_ptr (heap s prev) = p" using Cons.prems by auto
    then have "malloc_loop n prev (h_ptr (heap s prev)) s = malloc_loop n p (h_ptr (heap s p)) s"
      using Cons.prems(5) not_le [of n "h_size (heap s p)"] by (subst malloc_loop.simps) simp
    then show ?thesis using Cons.IH [of p] Cons.prems False by auto
  qed
qed simp

text \<open>From any block the pointers lead round the circle and back to it.\<close>

lemma circle:
  assumes "free_list h base xs" and "f \<in> set xs"
  shows "\<exists>ps. successively (points h) (f # ps) \<and> ps \<noteq> [] \<and> last ps = f \<and> f \<notin> set (butlast ps) \<and> set ps = set xs"
proof -
  obtain as bs where x: "xs = as @ f # bs" using split_list [OF assms(2)] by blast
  have d: "f \<notin> set as" "f \<notin> set bs" using free_listD(2) [OF assms(1)] by (auto simp: x sorted_wrt_append below_def)
  have "successively (points h) (as @ f # bs @ [base])" using free_listD(1) [OF assms(1)] by (simp add: x)
  then have c: "successively (points h) (f # bs @ [base])" "successively (points h) (as @ [f])"
    using successively_append_iff [of "points h" as "f # bs @ [base]"] successively_append_iff [of "points h" "as @ [f]" "bs @ [base]"] by auto
  show ?thesis
  proof (cases as)
    case Nil
    then have "f = base" using free_listD(5) [OF assms(1)] x by simp
    then show ?thesis using c d Nil by (intro exI [of _ "bs @ [base]"]) (auto simp: x)
  next
    case (Cons a as')
    then have "a = base" using free_listD(5) [OF assms(1)] x by simp
    then have "successively (points h) ((f # bs) @ as @ [f])"
      using c successively_append_iff [of "points h" "f # bs" "as @ [f]"] successively_append_iff [of "points h" "f # bs" "[base]"] Cons by auto
    then show ?thesis using d by (intro exI [of _ "bs @ as @ [f]"]) (auto simp: x butlast_append)
  qed
qed

lemma before:
  assumes "free_list h base xs" and "prev \<in> set xs" and "h_ptr (h prev) = p" and "p \<noteq> base"
  shows "\<exists>as bs. xs = as @ prev # p # bs"
proof -
  obtain as bs where x: "xs = as @ prev # bs" using split_list [OF assms(2)] by blast
  have "successively (points h) (prev # bs @ [base])" using free_listD(1) [OF assms(1)] successively_suffix [of _ as] by (simp add: x)
  then show ?thesis using assms(3,4) x by (cases bs) auto
qed

lemma sorted_pair: "sorted_wrt P xs \<Longrightarrow> x \<in> set xs \<Longrightarrow> y \<in> set xs \<Longrightarrow> x \<noteq> y \<Longrightarrow> P x y \<or> P y x"
  by (induction xs) auto

lemma bytes_disjoint:
  "\<forall>x \<in> set ys. below h x p \<or> below h p x \<Longrightarrow> free_bytes h ys \<inter> {unat p ..< top_of h p} = {}"
  by (fastforce simp: free_bytes_def below_def)

text \<open>A block that has the size asked for leaves the list.\<close>

lemma unlink_ok:
  assumes fl: "free_list h base (as @ prev # p # bs)" and b: "p \<noteq> base"
  defines "h1 \<equiv> set_ptr prev (h_ptr (h p)) h"
  shows "free_list h1 base (as @ prev # bs) \<and> h_size (h1 p) = h_size (h p) \<and>
    free_bytes h1 (as @ prev # bs) = free_bytes h (as @ prev # p # bs) - {unat p ..< top_of h p}"
proof -
  have f: "\<forall>x. x \<noteq> prev \<longrightarrow> h1 x = h x" "top_of h1 = top_of h" "\<And>x. h_size (h1 x) = h_size (h x)" "h_ptr (h1 prev) = h_ptr (h p)"
    by (auto simp: h1_def set_ptr_def top_of_def)
  have s: "sorted_wrt (below h) (as @ prev # p # bs)" by (rule free_listD(2) [OF fl])
  then have d: "prev \<notin> set as" "prev \<notin> set bs" by (auto simp: sorted_wrt_append below_def)
  have c: "successively (points h) (as @ prev # p # bs @ [base])" using free_listD(1) [OF fl] by simp
  have c1: "successively (points h) (as @ [prev])" "successively (points h) (bs @ [base])" "h_ptr (h p) = hd (bs @ [base])"
    using c successively_append_iff [of "points h" "as @ [prev]" "p # bs @ [base]"] by (auto simp: successively_Cons)
  have "successively (points h1) (as @ [prev])" "successively (points h1) (bs @ [base])"
    using d f(1) successively_frame [OF c1(1), of h1] successively_frame [OF c1(2), of h1] by (fastforce simp: butlast_append)+
  then have "successively (points h1) ((as @ prev # bs) @ [base])"
    using f(4) c1(3) successively_append_iff [of "points h1" "as @ [prev]" "bs @ [base]"] by simp
  moreover have "below h1 = below h" using f(2) by (simp add: below_def fun_eq_iff)
  then have "sorted_wrt (below h1) (as @ prev # bs)" using s by (simp add: sorted_wrt_append)
  moreover have "hd (as @ prev # bs) = base" using free_listD(5) [OF fl] by (cases as) auto
  ultimately have "free_list h1 base (as @ prev # bs)"
    using free_listD(3,6,7) [OF fl] f by (simp add: free_list_def)
  moreover have "free_bytes h (as @ prev # bs) \<inter> {unat p ..< top_of h p} = {}"
    using s by (intro bytes_disjoint) (auto simp: sorted_wrt_append)
  then have "free_bytes h (as @ prev # bs) = free_bytes h (as @ prev # p # bs) - {unat p ..< top_of h p}" by auto
  ultimately show ?thesis using f(2,3) by (simp add: free_bytes_def)
qed

text \<open>A larger block keeps its head and its tail is handed out.\<close>

lemma split_ok:
  assumes fl: "free_list h base xs" and p: "p \<in> set xs" and n: "n < h_size (h p)" "0 < n"
  defines "m \<equiv> h_size (h p) - n" and "q \<equiv> units p (h_size (h p) - n)"
  defines "h1 \<equiv> set_size q n (set_size p m h)"
  shows "free_list h1 base xs \<and> h_size (h1 q) = n \<and> unat q + 16 * unat n = top_of h p \<and> unat p < unat q \<and>
    free_bytes h1 xs = free_bytes h xs - {unat q ..< top_of h p}"
proof -
  have m: "unat m + unat n = unat (h_size (h p))" "m \<noteq> 0" using n by (auto simp: m_def unat_sub_if' word_less_nat_alt)
  have t: "top_of h p < 2 ^ 36" by (rule free_listD(3) [OF fl p])
  have q: "unat q = unat p + 16 * unat m" unfolding q_def m_def [symmetric] using m(1) t by (intro unat_units) (simp add: top_of_def)
  have qt: "unat q + 16 * unat n = top_of h p" using q m(1) by (simp add: top_of_def)
  have pq: "unat p < unat q" using q m(2) by (simp add: unat_gt_0)
  have "0 < unat n" using n(2) by (simp add: word_less_nat_alt)
  have s: "below h x p \<or> below h p x" if "x \<in> set xs" "x \<noteq> p" for x
    using sorted_pair [OF free_listD(2) [OF fl] that(1) p that(2)] .
  have nq: "q \<notin> set xs"
  proof
    assume "q \<in> set xs"
    then show False using s [of q] pq qt \<open>0 < unat n\<close> by (auto simp: below_def word_less_nat_alt)
  qed
  have ptr: "\<And>x. h_ptr (h1 x) = h_ptr (h x)" by (simp add: h1_def set_size_def)
  have f: "\<And>x. x \<in> set xs \<Longrightarrow> x \<noteq> p \<Longrightarrow> h1 x = h x" using nq by (auto simp: h1_def set_size_def)
  have hp: "h_size (h1 p) = m" "h_size (h1 q) = n" using nq p by (auto simp: h1_def set_size_def)
  have tp: "top_of h1 p = unat q" using hp(1) q by (simp add: top_of_def)
  have le: "top_of h1 x \<le> top_of h x" if "x \<in> set xs" for x using f [OF that] tp qt by (cases "x = p") (simp_all add: top_of_def)
  have "sorted_wrt (below h1) xs"
    by (rule sorted_wrt_mono_rel [OF _ free_listD(2) [OF fl]]) (use le in \<open>force simp: below_def\<close>)
  moreover have "p \<noteq> base" using free_listD(7) [OF fl p] n by auto
  then have "h_size (h1 x) = 0 \<longleftrightarrow> x = base" if "x \<in> set xs" for x
    using f [OF that] free_listD(7) [OF fl that] hp(1) m(2) by (cases "x = p") auto
  moreover have "top_of h1 x < 2 ^ 36" if "x \<in> set xs" for x using le [OF that] free_listD(3) [OF fl that] by simp
  ultimately have 1: "free_list h1 base xs" using free_listD [OF fl] ptr by (simp add: free_list_def)
  obtain as bs where x: "xs = as @ p # bs" using split_list [OF p] by blast
  then have np: "p \<notin> set (as @ bs)" using free_listD(2) [OF fl] by (auto simp: sorted_wrt_append below_def)
  then have d: "free_bytes h (as @ bs) \<inter> {unat p ..< top_of h p} = {}" using s x by (intro bytes_disjoint) auto
  have "free_bytes h1 (as @ bs) = free_bytes h (as @ bs)" using f np x by (intro bytes_frame) auto
  then have "free_bytes h1 xs = free_bytes h (as @ bs) \<union> {unat p ..< unat q}" using tp x by auto
  moreover have "free_bytes h xs = free_bytes h (as @ bs) \<union> {unat p ..< top_of h p}" using x by auto
  ultimately have "free_bytes h1 xs = free_bytes h xs - {unat q ..< top_of h p}" using d pq qt by (auto simp: disjoint_iff)
  then show ?thesis using 1 hp(2) qt pq by blast
qed

lemma carve_ok:
  assumes fl: "free_list (heap s) base xs" and prev: "prev \<in> set xs" "h_ptr (heap s prev) = p" and p: "p \<in> set xs"
    and n: "n \<le> h_size (heap s p)" "0 < n"
  shows "\<exists>h q xs'. carve n prev p s = Ret (q + 16) (s\<lparr>heap := h, freep := prev\<rparr>) \<and> free_list h base xs' \<and> prev \<in> set xs' \<and>
    h_size (h q) = n \<and> base < q \<and> unat q + 16 * unat n < 2 ^ 36 \<and> {unat q ..< unat q + 16 * unat n} \<subseteq> free_bytes (heap s) xs \<and>
    free_bytes h xs' = free_bytes (heap s) xs - {unat q ..< unat q + 16 * unat n}"
proof -
  have nb: "p \<noteq> base" using free_listD(7) [OF fl p] n by auto
  have sub: "{unat p ..< top_of (heap s) p} \<subseteq> free_bytes (heap s) xs" using p by (auto simp: free_bytes_def)
  have t: "top_of (heap s) p < 2 ^ 36" by (rule free_listD(3) [OF fl p])
  have bp: "base < p" using free_listD(2,4,5) [OF fl] p nb by (cases xs) (auto simp: below_def)
  obtain as bs where x: "xs = as @ prev # p # bs" using before [OF fl prev nb] by blast
  show ?thesis
  proof (cases "h_size (heap s p) = n")
    case True
    then have "top_of (heap s) p = unat p + 16 * unat n" by (simp add: top_of_def)
    then show ?thesis using unlink_ok [OF fl [unfolded x] nb] True sub t bp
      by (intro exI [of _ "set_ptr prev (h_ptr (heap s p)) (heap s)"] exI [of _ p] exI [of _ "as @ prev # bs"])
        (simp add: carve_def Let_def x)
  next
    case False
    then have "n < h_size (heap s p)" using n(1) by simp
    then show ?thesis using split_ok [OF fl p _ n(2)] False sub t bp prev(1)
      by (intro exI [of _ "set_size (units p (h_size (heap s p) - n)) n (set_size p (h_size (heap s p) - n) (heap s))"]
            exI [of _ "units p (h_size (heap s p) - n)"] exI [of _ xs])
        (auto simp: carve_def Let_def word_less_nat_alt)
  qed
qed

text \<open>What \<open>morecore\<close> asks for.\<close>

definition grown :: "u32 \<Rightarrow> u32" where
  "grown n = (if n < 4096 then 4096 else n)"

lemma sint_small: "unat (w :: u32) < 2 ^ 31 \<Longrightarrow> sint w = int (unat w)"
proof -
  assume w: "unat w < 2 ^ 31"
  define k where "k = unat w"
  have "k < 2 ^ 31" using w by (simp add: k_def)
  then have "signed_take_bit 31 (int k) = int k" by (intro signed_take_bit_int_eq_self) simp_all
  moreover have "uint w = int k" by (simp add: k_def)
  ultimately show ?thesis by (simp add: sint_uint k_def [symmetric])
qed

lemma sbrk_arg: "16 * unat n < 2 ^ 31 \<Longrightarrow> sint (ucast (ucast n * 16 :: u64) :: u32) = 16 * int (unat (n :: u32))"
proof -
  assume a: "16 * unat n < 2 ^ 31"
  then have u: "unat (ucast n * 16 :: u64) = 16 * unat n" by (simp add: unat_word_ariths)
  then have "unat (ucast (ucast n * 16 :: u64) :: u32) = 16 * unat n" using a by (simp add: unsigned_ucast_eq take_bit_eq_mod)
  then show ?thesis using a sint_small [of "ucast (ucast n * 16 :: u64)"] by simp
qed

lemma list_frame: "free_list h base xs \<Longrightarrow> \<forall>x \<in> set xs. h' x = h x \<Longrightarrow> free_list h' base xs"
  using successively_frame [of h "xs @ [base]" h'] below_frame [of h xs h'] by (auto simp: free_list_def butlast_append top_of_def)

text \<open>
  The state between two calls: before the first call of \<open>malloc\<close> the list is not set up yet. The kernel answers a call
  of \<open>sbrk\<close> with \<open>-1\<close> or with the end of the memory the process had, which is above all blocks.
\<close>

definition arena :: "'z umalloc_scheme \<Rightarrow> u64 list \<Rightarrow> bool" where
  "arena s xs \<longleftrightarrow>
     (if freep s = 0 then xs = [base_at s] \<and> base_at s \<noteq> 0 \<and> unat (base_at s) < 2 ^ 36 \<and> h_size (heap s (base_at s)) = 0
      else free_list (heap s) (base_at s) xs \<and> freep s \<in> set xs)"

definition sbrk_answers :: "'z umalloc_scheme \<Rightarrow> u64 list \<Rightarrow> nat \<Rightarrow> u64 \<Rightarrow> bool" where
  "sbrk_answers s xs k p \<longleftrightarrow>
     (\<exists>a. kern s (calls s @ [C_sbrk (int k)]) = Some a \<and> p = of_int (a_ret a)) \<and>
     (p \<noteq> -1 \<longrightarrow> (\<forall>x \<in> set xs. below (heap s) x p) \<and> unat p + k < 2 ^ 36)"

lemma morecore_ok:
  assumes fl: "free_list (heap s) (base_at s) xs" "freep s \<in> set xs" and k: "16 * unat (grown n) < 2 ^ 31"
    and a: "sbrk_answers s xs (16 * unat (grown n)) p"
  shows "if p = -1 then morecore n s = Ret 0 (s\<lparr>calls := calls s @ [C_sbrk (16 * int (unat (grown n)))]\<rparr>)
    else \<exists>h f xs'. morecore n s = Ret f (s\<lparr>calls := calls s @ [C_sbrk (16 * int (unat (grown n)))], heap := h, freep := f\<rparr>) \<and>
      free_list h (base_at s) xs' \<and> f \<in> set xs' \<and> (\<exists>x \<in> set xs'. n \<le> h_size (h x)) \<and>
      free_bytes h xs' = free_bytes (heap s) xs \<union> {unat p ..< unat p + 16 * unat (grown n)}"
proof -
  let ?nu = "grown n"
  let ?s = "s\<lparr>calls := calls s @ [C_sbrk (16 * int (unat ?nu))]\<rparr>"
  let ?t = "?s\<lparr>heap := set_size p ?nu (heap s)\<rparr>"
  have m: "morecore n s = (if p = -1 then Ret 0 ?s else thenK (free (p + 16)) (getK freep) ?t)"
    using a sbrk_arg [OF k] unfolding sbrk_answers_def
    by (auto simp: morecore_def grown_def [symmetric] Let_def sys_ret_def sys_def kstep)
  show ?thesis
  proof (cases "p = -1")
    case False
    then have b: "\<forall>x \<in> set xs. below (heap s) x p" "unat p + 16 * unat ?nu < 2 ^ 36" using a by (auto simp: sbrk_answers_def)
    then have f: "\<forall>x \<in> set xs. heap ?t x = heap s x" by (auto simp: set_size_def below_def)
    have h: "h_size (heap ?t p) = ?nu" "top_of (heap ?t) p = unat p + 16 * unat ?nu" by (simp_all add: set_size_def top_of_def)
    have nz: "?nu \<noteq> 0" "n \<le> ?nu" by (auto simp: grown_def)
    have fl2: "free_list (heap ?t) (base_at s) xs" by (rule list_frame [OF fl(1) f])
    have "base_at s \<in> set xs" using free_listD(4,5) [OF fl(1)] by (metis hd_in_set)
    then have bb: "base_at s < p" using b(1) by (auto simp: below_def)
    have d: "\<forall>x \<in> set xs. below (heap ?t) x p" using b(1) f by (auto simp: below_def top_of_def)
    obtain h' f' xs' where "free (p + 16) ?t = Ret () (?t\<lparr>heap := h', freep := f'\<rparr>)" "free_list h' (base_at s) xs'" "f' \<in> set xs'"
      "free_bytes h' xs' = free_bytes (heap ?t) xs \<union> {unat p ..< unat p + 16 * unat ?nu}" "\<exists>x \<in> set xs'. ?nu \<le> h_size (h' x)"
      using free_ok [of ?t "base_at s" xs "p + 16"] fl2 fl(2) h nz b(2) d bb by auto
    then show ?thesis using False m nz(2) bytes_frame [OF f] order_trans [OF nz(2)]
      by (simp add: kstep) blast
  qed (simp add: m)
qed

lemma malloc_fits:
  assumes fl: "free_list (heap s) base xs" and f: "freep s \<in> set xs" and n: "0 < n" "\<exists>x \<in> set xs. n \<le> h_size (heap s x)"
  shows "\<exists>h q prev xs'. malloc_loop n (freep s) (h_ptr (heap s (freep s))) s = Some (Ret (q + 16) (s\<lparr>heap := h, freep := prev\<rparr>)) \<and>
    free_list h base xs' \<and> prev \<in> set xs' \<and> h_size (h q) = n \<and> base < q \<and> unat q + 16 * unat n < 2 ^ 36 \<and>
    {unat q ..< unat q + 16 * unat n} \<subseteq> free_bytes (heap s) xs \<and>
    free_bytes h xs' = free_bytes (heap s) xs - {unat q ..< unat q + 16 * unat n}"
proof -
  obtain ps where ps: "successively (points (heap s)) (freep s # ps)" "ps \<noteq> []" "last ps = freep s" "freep s \<notin> set (butlast ps)" "set ps = set xs"
    using circle [OF fl f] by blast
  obtain qs p rs where q: "ps = qs @ p # rs" "n \<le> h_size (heap s p)"
    "malloc_loop n (freep s) (h_ptr (heap s (freep s))) s = Some (carve n (last (freep s # qs)) p s)"
    using malloc_loop_fits [OF ps(1,2,4), of n] n(2) ps(5) by auto
  have "successively (points (heap s)) ((freep s # qs) @ p # rs)" using ps(1) q(1) by simp
  then have l: "h_ptr (heap s (last (freep s # qs))) = p"
    using successively_append_iff [of "points (heap s)" "freep s # qs" "p # rs"] by simp
  have "set (freep s # qs) \<subseteq> set xs" and p: "p \<in> set xs" using f ps(5) q(1) by auto
  then have "last (freep s # qs) \<in> set xs" using last_in_set [of "freep s # qs"] by blast
  from carve_ok [OF fl this l p q(2) n(1)] show ?thesis unfolding q(3) option.inject by blast
qed

lemma nunits_bounds: "unat nbytes < 2 ^ 31 - 32 \<Longrightarrow>
  unat nbytes + 16 \<le> 16 * unat (nunits_of nbytes) \<and> 16 * unat (grown (nunits_of nbytes)) < 2 ^ 31 \<and> 0 < nunits_of nbytes"
proof -
  assume a: "unat nbytes < 2 ^ 31 - 32"
  then have "unat (ucast nbytes + 16 - 1 :: u64) = unat nbytes + 15" by (simp add: unat_word_ariths)
  then have "unat ((ucast nbytes + 16 - 1 :: u64) div 16 + 1) = (unat nbytes + 15) div 16 + 1"
    using a by (simp add: unat_word_ariths)
  then have n: "unat (nunits_of nbytes) = (unat nbytes + 15) div 16 + 1"
    using a by (simp add: nunits_of_def unsigned_ucast_eq take_bit_eq_mod)
  then have "0 < nunits_of nbytes" by (simp add: word_less_nat_alt)
  then show ?thesis using n a by (auto simp: grown_def)
qed

text \<open>The state with the list set up.\<close>

definition set_up :: "'z umalloc_scheme \<Rightarrow> 'z umalloc_scheme" where
  "set_up s = (if freep s = 0
     then s\<lparr>heap := set_size (base_at s) 0 (set_ptr (base_at s) (base_at s) (heap s)), freep := base_at s\<rparr> else s)"

lemma set_up_ok:
  assumes a: "arena s xs"
  shows "free_list (heap (set_up s)) (base_at s) xs \<and> freep (set_up s) \<in> set xs \<and> free_bytes (heap (set_up s)) xs = free_bytes (heap s) xs \<and>
    (sbrk_answers s xs k p \<longrightarrow> sbrk_answers (set_up s) xs k p) \<and> base_at (set_up s) = base_at s \<and> calls (set_up s) = calls s \<and>
    (\<forall>x \<in> set xs. h_size (heap (set_up s) x) = h_size (heap s x))"
proof (cases "freep s = 0")
  case True
  then have "xs = [base_at s]" "base_at s \<noteq> 0" "unat (base_at s) < 2 ^ 36" "h_size (heap s (base_at s)) = 0" using a by (simp_all add: arena_def)
  then show ?thesis
    by (simp add: True set_up_def free_list_def set_size_def set_ptr_def top_of_def sbrk_answers_def below_def)
next
  case False
  then show ?thesis using a by (simp add: arena_def set_up_def)
qed

lemma malloc_set_up:
  "malloc nbytes s = (case malloc_loop (nunits_of nbytes) (freep (set_up s)) (h_ptr (heap (set_up s) (freep (set_up s)))) (set_up s) of
     None \<Rightarrow> Diverge | Some r \<Rightarrow> r)"
  by (simp add: malloc_def set_up_def Let_def)

lemma free_list_pos: "free_list h base xs \<Longrightarrow> x \<in> set xs \<Longrightarrow> x \<noteq> 0"
  by (cases xs) (auto simp: free_list_def below_def)

lemma arena_intro: "free_list (heap s) (base_at s) xs \<Longrightarrow> freep s \<in> set xs \<Longrightarrow> arena s xs"
  using free_list_pos [of "heap s" "base_at s" xs "freep s"] by (simp add: arena_def)

text \<open>The search of \<open>malloc\<close>, with a block that is large enough and without.\<close>

lemma malloc_carves:
  assumes fl: "free_list (heap s) (base_at s) xs" and f: "freep s \<in> set xs" and n: "0 < n" "\<exists>x \<in> set xs. n \<le> h_size (heap s x)"
  shows "\<exists>t q xs'. malloc_loop n (freep s) (h_ptr (heap s (freep s))) s = Some (Ret (q + 16) t) \<and> calls t = calls s \<and> q + 16 \<noteq> 0 \<and>
    arena t xs' \<and> h_size (heap t q) = n \<and> {unat q ..< unat q + 16 * unat n} \<subseteq> free_bytes (heap s) xs \<and>
    free_bytes (heap t) xs' = free_bytes (heap s) xs - {unat q ..< unat q + 16 * unat n}"
proof -
  obtain h q prev xs' where q: "malloc_loop n (freep s) (h_ptr (heap s (freep s))) s = Some (Ret (q + 16) (s\<lparr>heap := h, freep := prev\<rparr>))"
    "free_list h (base_at s) xs'" "prev \<in> set xs'" "h_size (h q) = n" "unat q + 16 * unat n < 2 ^ 36"
    "{unat q ..< unat q + 16 * unat n} \<subseteq> free_bytes (heap s) xs"
    "free_bytes h xs' = free_bytes (heap s) xs - {unat q ..< unat q + 16 * unat n}"
    using malloc_fits [OF fl f n] by blast
  have "unat (q + 16) = unat q + 16" using q(5) by (subst unat_add_no_wrap) simp_all
  then have "q + 16 \<noteq> 0" by (metis add_is_0 unat_0 zero_neq_numeral)
  then show ?thesis using q
    by (intro exI [of _ "s\<lparr>heap := h, freep := prev\<rparr>"] exI [of _ q] exI [of _ xs']) (simp add: arena_intro)
qed

lemma malloc_misses:
  assumes fl: "free_list (heap s) (base_at s) xs" and f: "freep s \<in> set xs" and n: "\<forall>x \<in> set xs. h_size (heap s x) < n"
    and sb: "sbrk_answers s xs (16 * unat (grown n)) p" and k: "16 * unat (grown n) < 2 ^ 31"
  shows "if p = -1 then \<exists>t. malloc_loop n (freep s) (h_ptr (heap s (freep s))) s = Some (Ret 0 t) \<and> arena t xs \<and>
      calls t = calls s @ [C_sbrk (16 * int (unat (grown n)))] \<and> heap t = heap s
    else \<exists>t xs'. malloc_loop n (freep s) (h_ptr (heap s (freep s))) s = malloc_loop n (freep t) (h_ptr (heap t (freep t))) t \<and>
      free_list (heap t) (base_at t) xs' \<and> freep t \<in> set xs' \<and> (\<exists>x \<in> set xs'. n \<le> h_size (heap t x)) \<and>
      calls t = calls s @ [C_sbrk (16 * int (unat (grown n)))] \<and>
      free_bytes (heap t) xs' = free_bytes (heap s) xs \<union> {unat p ..< unat p + 16 * unat (grown n)}"
proof -
  obtain ps where ps: "successively (points (heap s)) (freep s # ps)" "ps \<noteq> []" "last ps = freep s" "freep s \<notin> set (butlast ps)" "set ps = set xs"
    using circle [OF fl f] by blast
  obtain prev where pr: "malloc_loop n (freep s) (h_ptr (heap s (freep s))) s = malloc_loop n prev (freep s) s"
    using malloc_loop_full [OF ps(1-4), of n] n ps(5) by auto
  have lt: "\<not> n \<le> h_size (heap s (freep s))" using n f by (simp add: not_le)
  show ?thesis
  proof (cases "p = -1")
    case True
    then have "morecore n s = Ret 0 (s\<lparr>calls := calls s @ [C_sbrk (16 * int (unat (grown n)))]\<rparr>)" using morecore_ok [OF fl f k sb] by simp
    then show ?thesis using True fl f lt unfolding pr by (subst malloc_loop.simps) (simp add: arena_intro)
  next
    case False
    then obtain h g xs' where m: "morecore n s = Ret g (s\<lparr>calls := calls s @ [C_sbrk (16 * int (unat (grown n)))], heap := h, freep := g\<rparr>)"
      "free_list h (base_at s) xs'" "g \<in> set xs'" "\<exists>x \<in> set xs'. n \<le> h_size (h x)"
      "free_bytes h xs' = free_bytes (heap s) xs \<union> {unat p ..< unat p + 16 * unat (grown n)}"
      using morecore_ok [OF fl f k sb] by auto
    have "g \<noteq> 0" by (rule free_list_pos [OF m(2,3)])
    then have "malloc_loop n prev (freep s) s =
      malloc_loop n g (h_ptr (h g)) (s\<lparr>calls := calls s @ [C_sbrk (16 * int (unat (grown n)))], heap := h, freep := g\<rparr>)"
      using lt m(1) by (subst malloc_loop.simps) simp
    then show ?thesis using False m(2-5) unfolding pr
      by (simp, intro exI [of _ "s\<lparr>calls := calls s @ [C_sbrk (16 * int (unat (grown n)))], heap := h, freep := g\<rparr>"]) (simp, blast)
  qed
qed

lemma malloc_grows:
  assumes fl: "free_list (heap s) (base_at s) xs" and f: "freep s \<in> set xs" and n: "\<forall>x \<in> set xs. h_size (heap s x) < n"
    and sb: "sbrk_answers s xs (16 * unat (grown n)) p" and k: "16 * unat (grown n) < 2 ^ 31" and p: "p \<noteq> -1" and pos: "0 < n"
  shows "\<exists>t q xs'. malloc_loop n (freep s) (h_ptr (heap s (freep s))) s = Some (Ret (q + 16) t) \<and>
    calls t = calls s @ [C_sbrk (16 * int (unat (grown n)))] \<and> q + 16 \<noteq> 0 \<and> arena t xs' \<and> h_size (heap t q) = n \<and>
    {unat q ..< unat q + 16 * unat n} \<subseteq> free_bytes (heap s) xs \<union> {unat p ..< unat p + 16 * unat (grown n)} \<and>
    free_bytes (heap t) xs' = free_bytes (heap s) xs \<union> {unat p ..< unat p + 16 * unat (grown n)} - {unat q ..< unat q + 16 * unat n}"
proof -
  obtain v ys where v: "malloc_loop n (freep s) (h_ptr (heap s (freep s))) s = malloc_loop n (freep v) (h_ptr (heap v (freep v))) v"
    "free_list (heap v) (base_at v) ys" "freep v \<in> set ys" "\<exists>x \<in> set ys. n \<le> h_size (heap v x)"
    "calls v = calls s @ [C_sbrk (16 * int (unat (grown n)))]"
    "free_bytes (heap v) ys = free_bytes (heap s) xs \<union> {unat p ..< unat p + 16 * unat (grown n)}"
    using malloc_misses [OF fl f n sb k] p by auto
  from malloc_carves [OF v(2,3) pos v(4)] show ?thesis unfolding v(1,5,6) .
qed


definition demo_arena :: umalloc where
  "demo_arena =
     \<lparr>umem = (\<lambda>_. 0), kern = (\<lambda>_. Some \<lparr>a_ret = 36864, a_data = []\<rparr>), calls = [],
      heap = (\<lambda>_. \<lparr>h_ptr = 0, h_size = 3\<rparr>)(12288 := \<lparr>h_ptr = 32768, h_size = 0\<rparr>, 32768 := \<lparr>h_ptr = 12288, h_size = 4\<rparr>),
      base_at = 12288, freep = 12288\<rparr>"

lemma demo_arena_ok: "arena demo_arena [12288, 32768]"
  by (simp add: demo_arena_def arena_def free_list_def below_def top_of_def)

lemma demo_arena_sbrk: "sbrk_answers demo_arena [12288, 32768] k 36864 \<longleftrightarrow> k < 2 ^ 36 - 36864"
  by (auto simp: demo_arena_def sbrk_answers_def below_def top_of_def)


text \<open>
  C37: \<open>free\<close> of a block that is not free always returns and puts exactly its bytes back: the free list is again a
  circle in order of the addresses, also where the block is joined with its neighbours, and no other byte becomes free or is
  lost.
\<close>

theorem free_returns_block:
  fixes ap :: u64
  defines "bp \<equiv> ap - 16"
  assumes a: "arena s xs" and f: "freep s \<noteq> 0" and b: "base_at s < bp" and n: "h_size (heap s bp) \<noteq> 0"
    and t: "top_of (heap s) bp < 2 ^ 36" and d: "{unat bp ..< top_of (heap s) bp} \<inter> free_bytes (heap s) xs = {}"
  shows "\<exists>t xs'. free ap s = Ret () t \<and> arena t xs' \<and> freep t \<noteq> 0 \<and>
    free_bytes (heap t) xs' = free_bytes (heap s) xs \<union> {unat bp ..< top_of (heap s) bp} \<and> calls t = calls s"
proof -
  have fl: "free_list (heap s) (base_at s) xs" "freep s \<in> set xs" using a f by (simp_all add: arena_def)
  have "below (heap s) x bp \<or> below (heap s) bp x" if "x \<in> set xs" for x
  proof (cases "h_size (heap s x) = 0")
    case True
    then show ?thesis using free_listD(7) [OF fl(1) that] b by (simp add: below_def top_of_def word_less_nat_alt)
  next
    case False
    have e: "{unat bp ..< top_of (heap s) bp} \<inter> {unat x ..< top_of (heap s) x} = {}" using d that unfolding free_bytes_def by blast
    have "unat x < top_of (heap s) x" "unat bp < top_of (heap s) bp" using False n by (simp_all add: top_of_def unat_gt_0)
    then show ?thesis using e by (auto simp: below_def word_less_nat_alt Int_atLeastLessThan max_def min_def split: if_splits)
  qed
  then obtain h p xs' where "free ap s = Ret () (s\<lparr>heap := h, freep := p\<rparr>)" "free_list h (base_at s) xs'" "p \<in> set xs'"
    "free_bytes h xs' = free_bytes (heap s) xs \<union> {unat bp ..< top_of (heap s) bp}"
    using free_ok [of s "base_at s" xs ap] fl b n t unfolding bp_def by blast
  then show ?thesis using free_list_pos [of h "base_at s" xs' p] by (intro exI [of _ "s\<lparr>heap := h, freep := p\<rparr>"] exI [of _ xs']) (simp add: arena_intro)
qed

theorem free_returns_block_witness:
  "arena demo_arena [12288, 32768] \<and>
   (\<exists>t xs'. free 32736 demo_arena = Ret () t \<and> arena t xs' \<and>
      free_bytes (heap t) xs' = free_bytes (heap demo_arena) [12288, 32768] \<union> {32720 ..< 32768})"
proof -
  have "base_at demo_arena < 32736 - 16" "freep demo_arena \<noteq> 0" "h_size (heap demo_arena (32736 - 16)) \<noteq> 0"
    "top_of (heap demo_arena) (32736 - 16) = 32768" "unat (32736 - 16 :: u64) = 32720"
    "free_bytes (heap demo_arena) [12288, 32768] = {32768 ..< 32832}"
    by (simp_all add: demo_arena_def top_of_def)
  then show ?thesis using free_returns_block [OF demo_arena_ok, of 32736] demo_arena_ok by auto
qed

end
