(* ===== verification/Spec2Isabelle.thy ===== *)
theory Spec2Isabelle
  imports Trap Grep Umalloc
begin

text \<open>
  A verification development of the xv6 kernel for RISC-V in \<^verbatim>\<open>src/kernel\<close> and of the user library and programs in
  \<^verbatim>\<open>src/user\<close>.

  \<^bold>\<open>The program.\<close> Several harts share memory and run \<^verbatim>\<open>main()\<close> and then \<^verbatim>\<open>scheduler()\<close>, which switches to
  processes. A process enters the kernel by a trap (\<^verbatim>\<open>trap.c\<close>), its system call (\<^verbatim>\<open>syscall.c\<close>, \<^verbatim>\<open>sysproc.c\<close>,
  \<^verbatim>\<open>sysfile.c\<close>) works on processes (\<^verbatim>\<open>proc.c\<close>, \<^verbatim>\<open>exec.c\<close>), address spaces (\<^verbatim>\<open>vm.c\<close>, \<^verbatim>\<open>kalloc.c\<close>) or files: open
  files and pipes (\<^verbatim>\<open>file.c\<close>, \<^verbatim>\<open>pipe.c\<close>), inodes and directories (\<^verbatim>\<open>fs.c\<close>), a write-ahead log (\<^verbatim>\<open>log.c\<close>), a
  buffer cache (\<^verbatim>\<open>bio.c\<close>), the disk driver (\<^verbatim>\<open>virtio_disk.c\<close>). The console (\<^verbatim>\<open>console.c\<close>, \<^verbatim>\<open>printf.c\<close>, \<^verbatim>\<open>uart.c\<close>)
  is the other device. Spinlocks and sleep-locks (\<^verbatim>\<open>spinlock.c\<close>, \<^verbatim>\<open>sleeplock.c\<close>) protect all of it. User programs
  (\<^verbatim>\<open>grep.c\<close> and others) are linked with a library (\<^verbatim>\<open>ulib.c\<close>, \<^verbatim>\<open>printf.c\<close>, \<^verbatim>\<open>umalloc.c\<close>) and reach the kernel by
  system calls only.

  \<^bold>\<open>How code is modelled.\<close> A kernel function is a state transformer \<open>('a, 's) kop\<close> of \<open>Prelude\<close> that ends in
  \<open>Ret\<close> with its value, in \<open>Panic\<close> with the message, in \<open>Block\<close> where the thread spins on a lock or calls
  \<^verbatim>\<open>sleep()\<close>, or in \<open>Diverge\<close>. \<open>bindK\<close>, \<open>thenK\<close>, \<open>eachK\<close> and \<open>searchK\<close> are sequencing and the loops over tables; other
  loops are recursive functions with a termination proof. Integers are words of their C width. The
  state is one chain of records, each component adding its own fields:
  \<^item> \<open>Spinlock\<close>: \<open>machine\<close> (hart in \<open>tp\<close>, \<open>sstatus\<close>, \<open>cpus\<close>, all spinlocks); \<open>Sched\<close>: \<open>ptable\<close> (process table);
    \<open>Sleeplock\<close>: \<open>sleeplocks\<close>; \<open>Kalloc\<close>: \<open>kmem\<close> (RAM, free list); \<open>Vm\<close>: \<open>vm\<close>; \<open>Procmem\<close>: \<open>image\<close> (addresses of code)
  \<^item> \<open>Uart\<close>, \<open>Kprintf\<close>, \<open>Console\<close>: \<open>uart\<close>, \<open>kprint\<close>, \<open>console\<close>; \<open>Virtio\<close>: \<open>virtio\<close> (rings, buffers, device)
  \<^item> \<open>Log\<close>: \<open>logging\<close>; \<open>Fs\<close>: \<open>fs\<close> (superblock, inode cache); \<open>File\<close>: \<open>ftable\<close> (open files, pipes, \<^verbatim>\<open>devsw\<close>)
  \<^item> \<open>Sysfile\<close>: \<open>timer\<close> (\<^verbatim>\<open>ticks\<close>); \<open>Trap\<close>: \<open>traps\<close> (control registers, interrupt controller, boot flags)
  \<^item> \<open>Ulib\<close>: \<open>user\<close>, the state of a user program (its memory, the system calls made so far, the kernel as a function that
    answers a call from the calls before it); \<open>Umalloc\<close>: \<open>umalloc\<close> (headers of the blocks, \<^verbatim>\<open>freep\<close>)

  Pages, page tables, trapframes and the free list are bytes of RAM (\<open>ram\<close>, \<open>u64\<close> addresses); buffers,
  inodes, files, processes are entries of tables indexed as the C arrays are; a null pointer is \<open>None\<close> and
  using one is the panic of \<^verbatim>\<open>kerneltrap\<close>. A thread that blocks gives up its run at that point: the loops that
  sleep are operations of their own (\<open>acquiresleep_loop\<close>, \<open>piperead_locked\<close>, \<open>sys_sleep_loop\<close>), so that what
  runs after the wakeup is defined too. Concurrency is a matter of explicit interleavings of such
  operations: \<open>Spinlock\<close>, \<open>Sched\<close> and \<open>Sleeplock\<close> have step relations or event sequences over the harts and
  processes; the other components are verified between lock acquisitions, in states where the spinlocks are free
  (\<open>quiet\<close>), which the locks' own properties justify.

  \<^bold>\<open>Theories and what they show.\<close>
  \<^item> \<open>Kstring\<close> (\<^verbatim>\<open>string.c\<close>): exact memory after each routine, overlapping \<open>memmove\<close>, termination of copied strings.
  \<^item> \<open>Mutex_Spec\<close>, \<open>Alloc_Spec\<close>, \<open>Fifo_Spec\<close>: the contracts of locks, allocators and bounded queues as locales;
    \<open>spin\<close>, \<open>slp\<close>, \<open>pages\<close>, \<open>descs\<close> and \<open>pipe_ring\<close> are their interpretations on the kernel's operations.
  \<^item> \<open>Spinlock\<close>, \<open>Sleeplock\<close>: mutual exclusion over all interleavings, nesting of interrupt disabling.
  \<^item> \<open>Sched\<close>: no process on two harts, no lost wakeup, by an invariant of the step relation.
  \<^item> \<open>Kalloc\<close>: no page handed out twice; what \<open>kinit\<close> frees.
  \<^item> \<open>Vm\<close>, \<open>Pagetable\<close>, \<open>Uaccess\<close>: page tables as maps, \<open>mappages\<close> as map update, exact copies to and from
    user space, with all failures.
  \<^item> \<open>Procmem\<close>, \<open>Exec\<close>: processes, their page tables, \<open>fork\<close>, \<open>exit\<close>, \<open>wait\<close>, \<open>exec\<close>.
  \<^item> \<open>Uart\<close>, \<open>Kprintf\<close>, \<open>Console\<close>: character devices; printed numbers read back.
  \<^item> \<open>Virtio\<close>: a disk request is one block copy; descriptor allocation.
  \<^item> \<open>Bio\<close>: the invariant of the cache (a doubly linked list of all buffers, one buffer per block, reference counts),
    \<open>bread\<close> and \<open>brelse\<close> under it, the order of recycling.
  \<^item> \<open>Log\<close>: reservations, absorption, and crash safety: whatever prefix of the writes of a commit is on the disk
    when the machine stops, recovery makes the home blocks those of the whole transaction or of none of it.
  \<^item> \<open>Fs\<close>: inodes on disk, the inode cache, path names.
  \<^item> \<open>File\<close>: pipes as queues, with counters that wrap around.
  \<^item> \<open>Sysfile\<close>, \<open>Trap\<close>: system calls, traps, clock, start-up.
  \<^item> \<open>Ulib\<close>, \<open>Grep\<close>: the user library; the matcher decides the language of its pattern, and \<open>grep\<close> prints exactly
    the matching lines, however the input is cut into reads.
  \<^item> \<open>Umalloc\<close>: \<open>malloc\<close> and \<open>free\<close> always return and keep the free bytes apart from those handed out.

  \<^bold>\<open>Devices and bounds.\<close> Code that is not in the repository is a parameter: the disk is the field \<open>vdev\<close> with
  the hypothesis \<open>serves_requests\<close>, the answers of the UART and of the interrupt controller are lists in the
  state and reading past their end is \<open>Diverge\<close>. \<open>bget\<close> follows its list for \<open>NBUF + 1\<close> rounds, one more than
  there are buffers, and the interrupt loop of the disk runs \<open>NUM\<close> rounds, as many as the ring has entries. The loop of
  \<open>grep\<close> over the lines of its buffer of 1024 bytes has 1025 rounds, and its loop over the input as many as its theorem
  asks for. What a user program needs of the kernel is a hypothesis on its answers (\<open>sbrk_answers\<close>, the reads of \<open>grep\<close>).

  \<^bold>\<open>Not modelled.\<close> Assembly (\<^verbatim>\<open>entry.S\<close>, \<^verbatim>\<open>kernelvec.S\<close>, \<^verbatim>\<open>swtch.S\<close>, \<^verbatim>\<open>trampoline.S\<close>): the model has the C code on both
  sides of it. \<^verbatim>\<open>ramdisk.c\<close>, which is not linked. The user programs other than \<^verbatim>\<open>grep\<close>, \<^verbatim>\<open>mkfs\<close>, which runs
  on another machine, and the tests, which have no contract of their own. Weak memory: stores are seen in program order. The kernel's stacks and
  the addresses of its static data.
\<close>

end
